(* ===== verification/Prelude.thy ===== *)
theory Prelude
  imports Main "HOL-Library.Word"
begin

text \<open>
  Shared vocabulary of the development.

  \<^item> Machine integers: \<open>byte\<close> is \<^verbatim>\<open>uint8_t\<close>, \<open>u32\<close> is \<^verbatim>\<open>uint32_t\<close>,
    \<open>size_t\<close> is the 64-bit \<^verbatim>\<open>size_t\<close> / \<^verbatim>\<open>uint64_t\<close> of the two supported targets
    (x86-64 and arm64).
  \<^item> \<open>fault\<close> lists the ways a C++ step can leave the defined behaviour of the language
    or stop the process; a fallible step has type \<open>'a res\<close> with \<open>Inl\<close> the fault.
  \<^item> \<open>res_bind\<close> sequences such steps, as consecutive C++ statements do.
  \<^item> The collection \<open>res_simps\<close> holds the rules that take a successful sequence of steps
    apart.
\<close>

unbundle bit_operations_syntax

named_theorems res_simps "taking successful steps apart"

type_synonym byte = "8 word"
type_synonym u32 = "32 word"
type_synonym size_t = "64 word"

section \<open>Faults and fallible steps\<close>

datatype fault =
    NullDeref        \<comment> \<open>a null pointer is dereferenced\<close>
  | OutOfBounds      \<comment> \<open>an access outside the object the pointer points into\<close>
  | UseAfterFree     \<comment> \<open>an access to an object that was given back\<close>
  | Uninitialised    \<comment> \<open>a value that was never written is read\<close>
  | AssertFail       \<comment> \<open>an \<^verbatim>\<open>assert\<close> of a build without NDEBUG stops the process\<close>
  | SignedOverflow   \<comment> \<open>an \<^verbatim>\<open>int\<close> leaves its range\<close>
  | BadAlloc         \<comment> \<open>\<^verbatim>\<open>new\<close> throws\<close>
  | NoReturn         \<comment> \<open>a loop exceeds the number of rounds its data allows\<close>

type_synonym 'a res = "fault + 'a"

definition res_bind :: "'a res \<Rightarrow> ('a \<Rightarrow> 'b res) \<Rightarrow> 'b res" where
  "res_bind m f = (case m of Inl e \<Rightarrow> Inl e | Inr x \<Rightarrow> f x)"

lemma res_bind_Inl [simp]: "res_bind (Inl e) f = Inl e"
  by (simp add: res_bind_def)

lemma res_bind_Inr [simp]: "res_bind (Inr x) f = f x"
  by (simp add: res_bind_def)

lemma res_bind_eq_Inr [res_simps]:
  "res_bind m f = Inr y \<longleftrightarrow> (\<exists>x. m = Inr x \<and> f x = Inr y)"
  by (cases m) simp_all

lemma res_bind_cong [fundef_cong]:
  "m = m' \<Longrightarrow> (\<And>x. m' = Inr x \<Longrightarrow> f x = f' x) \<Longrightarrow> res_bind m f = res_bind m' f'"
  by (cases m') simp_all

lemma res_bind_assoc:
  "res_bind (res_bind m f) g = res_bind m (\<lambda>x. res_bind (f x) g)"
  by (cases m) simp_all

definition res_ok :: "'a res \<Rightarrow> bool" where
  "res_ok m = (case m of Inl _ \<Rightarrow> False | Inr _ \<Rightarrow> True)"

lemma res_ok_simps [simp]: "res_ok (Inl e) = False" "res_ok (Inr x) = True"
  by (simp_all add: res_ok_def)

lemma res_ok_iff: "res_ok m \<longleftrightarrow> (\<exists>x. m = Inr x)"
  by (cases m) simp_all

section \<open>Machine integers\<close>

text \<open>The largest \<^verbatim>\<open>size_t\<close>, and the largest \<^verbatim>\<open>int\<close> as a number.\<close>

definition SIZE_MAX :: size_t where
  "SIZE_MAX = 0xFFFFFFFFFFFFFFFF"

definition INT_MAX :: nat where
  "INT_MAX = 2147483647"

lemma unat_SIZE_MAX [simp]: "unat SIZE_MAX = 18446744073709551615"
  by (simp add: SIZE_MAX_def)

lemma unat_of_nat_64: "n < 2 ^ 64 \<Longrightarrow> unat (of_nat n :: size_t) = n"
  by (simp add: unat_of_nat take_bit_nat_eq_self)

lemma unat_lt_64: "unat (x :: size_t) < 18446744073709551616"
  using unsigned_less [of x] by simp

lemma unat_add_one_64:
  "unat (x :: size_t) < 18446744073709551615 \<Longrightarrow> unat (x + 1) = Suc (unat x)"
  by (simp add: unat_word_ariths)

lemma unat_minus_one_64:
  "0 < unat (x :: size_t) \<Longrightarrow> unat (x - 1) = unat x - 1"
  by (metis One_nat_def Suc_leI less_numeral_extra(3) unat_1 unat_eq_zero unat_sub word_le_nat_alt)

lemma unat_byte: "unat (c :: byte) < 256"
  using unsigned_less [of c, where ?'a = nat] by simp

lemma unat_lt_32: "unat (x :: u32) < 4294967296"
  using unsigned_less [of x, where ?'a = nat] by simp

end
