(* ===== verification/Mem_Pool.thy ===== *)
theory Mem_Pool
  imports Prelude
begin

text \<open>
  The fixed-capacity object pool of \<^verbatim>\<open>include/mem_pool.h\<close> (class template
  \<^verbatim>\<open>MemPool<T>\<close>).

  A pointer into the slot array is modelled by its slot index. \<^verbatim>\<open>free_list_head\<close> is kept
  as a 64-bit index as well, because the code computes it with \<^verbatim>\<open>&slots_[next]\<close> and reads
  it back with \<^verbatim>\<open>free_list_head - slots_\<close>: with \<^verbatim>\<open>next == SIZE_MAX\<close> both directions
  are exact modulo \<open>2 ^ 64\<close>, and an access through such a head is \<open>OutOfBounds\<close>.
  \<^verbatim>\<open>memset(p, 0, sizeof(T))\<close> and \<^verbatim>\<open>memset(p, 0xAD, sizeof(T))\<close> are the arguments
  \<open>zero\<close> and \<open>poison\<close>. The flag \<open>ndebug\<close> tells a build with \<^verbatim>\<open>-DNDEBUG\<close>, in
  which the two \<^verbatim>\<open>assert\<close>s of \<^verbatim>\<open>release\<close> are compiled out.

  The section \<open>interface\<close> states the contract the rest of the program relies on as the
  locale \<open>object_pool\<close>, and \<open>mp\<close> interprets it on the code's model.
\<close>

section \<open>State and operations\<close>

record 'a slot =
  sdata :: 'a
  snext :: size_t
  in_use :: bool

record 'a mem_pool =
  slots :: "'a slot list"
  free_list_head :: size_t
  mp_capacity :: size_t
  mp_in_use_count :: size_t
  mp_name :: string

text \<open>
  The loop of the constructor, \<^verbatim>\<open>for (int i = 0; i < capacity; i++)\<close>: the counter is an
  \<^verbatim>\<open>int\<close>, so incrementing it past \<^verbatim>\<open>INT_MAX\<close> is a fault.
\<close>

function MemPool_link :: "size_t \<Rightarrow> nat \<Rightarrow> 'a slot list \<Rightarrow> 'a slot list res" where
  "MemPool_link capacity i ss =
     (if i < unat capacity then
        (let ss' = (if of_nat i < capacity - 1
                    then ss[i := (ss ! i)\<lparr>snext := of_nat i + 1\<rparr>] else ss)
         in if i = INT_MAX then Inl SignedOverflow
            else MemPool_link capacity (Suc i) ss')
      else Inr ss)"
  by pat_completeness auto
termination
  by (relation "measure (\<lambda>(capacity, i, ss). unat capacity - i)") auto

declare MemPool_link.simps [simp del]

definition MemPool_new :: "'a \<Rightarrow> size_t \<Rightarrow> string \<Rightarrow> 'a mem_pool res" where
  "MemPool_new dflt capacity name =
     res_bind (MemPool_link capacity 0
                 (replicate (unat capacity) \<lparr>sdata = dflt, snext = SIZE_MAX, in_use = False\<rparr>))
       (\<lambda>ss. Inr \<lparr>slots = ss, free_list_head = 0, mp_capacity = capacity,
                 mp_in_use_count = 0, mp_name = name\<rparr>)"

definition MemPool_acquire :: "'a \<Rightarrow> 'a mem_pool \<Rightarrow> (nat option \<times> 'a mem_pool) res" where
  "MemPool_acquire zero p =
     (if mp_in_use_count p = mp_capacity p then Inr (None, p)
      else
        let id = unat (free_list_head p)
        in if id < length (slots p) then
             let next_node_idx = snext (slots p ! id)
             in Inr (Some id,
                     p\<lparr>slots := (slots p)[id := \<lparr>sdata = zero, snext = SIZE_MAX, in_use = True\<rparr>],
                       free_list_head := next_node_idx,
                       mp_in_use_count := mp_in_use_count p + 1\<rparr>)
           else Inl OutOfBounds)"

definition MemPool_release :: "bool \<Rightarrow> 'a \<Rightarrow> 'a mem_pool \<Rightarrow> nat option \<Rightarrow> 'a mem_pool res" where
  "MemPool_release ndebug poison p ptr =
     (case ptr of
        None \<Rightarrow> Inl (if ndebug then NullDeref else AssertFail)
      | Some i \<Rightarrow>
          if i < length (slots p) then
            let slot = slots p ! i
            in if \<not> ndebug \<and> \<not> in_use slot then Inl AssertFail
               else if of_nat i = free_list_head p then
                 Inr (p\<lparr>slots := (slots p)[i := slot\<lparr>in_use := False, sdata := poison\<rparr>],
                        mp_in_use_count := mp_in_use_count p - 1\<rparr>)
               else
                 Inr (p\<lparr>slots := (slots p)[i := \<lparr>sdata = poison, snext = free_list_head p,
                                                in_use = False\<rparr>],
                        free_list_head := of_nat i,
                        mp_in_use_count := mp_in_use_count p - 1\<rparr>)
          else Inl OutOfBounds)"

definition MemPool_in_use_count :: "'a mem_pool \<Rightarrow> size_t" where
  "MemPool_in_use_count p = mp_in_use_count p"

definition MemPool_capacity :: "'a mem_pool \<Rightarrow> size_t" where
  "MemPool_capacity p = mp_capacity p"

definition MemPool_is_exhausted :: "'a mem_pool \<Rightarrow> bool" where
  "MemPool_is_exhausted p = (mp_in_use_count p = mp_capacity p)"

text \<open>What \<^verbatim>\<open>verify_no_leaks\<close> prints: the pool is clean, or how many slots are in use.\<close>

datatype leak_report = LeakOk string | Leak string size_t size_t

definition MemPool_verify_no_leaks :: "'a mem_pool \<Rightarrow> leak_report" where
  "MemPool_verify_no_leaks p =
     (if mp_in_use_count p = 0 then LeakOk (mp_name p)
      else Leak (mp_name p) (mp_in_use_count p) (mp_capacity p))"

text \<open>
  \<^verbatim>\<open>dump_state\<close> walks the free list from the head, at most \<^verbatim>\<open>capacity_\<close> nodes, and
  prints each visited slot's \<^verbatim>\<open>next\<close> and \<^verbatim>\<open>in_use\<close>.
\<close>

fun MemPool_dump_walk :: "'a slot list \<Rightarrow> nat \<Rightarrow> size_t \<Rightarrow> (size_t \<times> bool) list res" where
  "MemPool_dump_walk ss 0 wh = Inr []"
| "MemPool_dump_walk ss (Suc totalCapacity) wh =
     (if unat wh < length ss then
        let s = ss ! unat wh
        in if snext s = SIZE_MAX then Inr [(snext s, in_use s)]
           else res_bind (MemPool_dump_walk ss totalCapacity (snext s))
                  (\<lambda>rest. Inr ((snext s, in_use s) # rest))
      else Inl OutOfBounds)"

definition MemPool_dump_state :: "'a mem_pool \<Rightarrow> (size_t \<times> size_t \<times> (size_t \<times> bool) list) res" where
  "MemPool_dump_state p =
     res_bind (MemPool_dump_walk (slots p) (unat (mp_capacity p)) (free_list_head p))
       (\<lambda>view. Inr (mp_capacity p, mp_in_use_count p, view))"

text \<open>
  \<^verbatim>\<open>dump_raw_state\<close> prints the slot under the head and then the whole array in order.
\<close>

definition MemPool_dump_raw_state ::
    "'a mem_pool \<Rightarrow> (size_t \<times> size_t \<times> (size_t \<times> bool) \<times> (size_t \<times> bool) list) res" where
  "MemPool_dump_raw_state p =
     (if unat (free_list_head p) < length (slots p) then
        let h = slots p ! unat (free_list_head p)
        in Inr (mp_capacity p, mp_in_use_count p, (snext h, in_use h),
                map (\<lambda>s. (snext s, in_use s)) (slots p))
      else Inl OutOfBounds)"

text \<open>
  Reading and writing an object through a pointer that \<^verbatim>\<open>acquire\<close> returned. Touching a slot
  that is not handed out is \<open>UseAfterFree\<close>.
\<close>

definition MemPool_get :: "'a mem_pool \<Rightarrow> nat \<Rightarrow> 'a res" where
  "MemPool_get p i =
     (if i < length (slots p) then
        if in_use (slots p ! i) then Inr (sdata (slots p ! i)) else Inl UseAfterFree
      else Inl OutOfBounds)"

definition MemPool_set :: "'a mem_pool \<Rightarrow> nat \<Rightarrow> 'a \<Rightarrow> 'a mem_pool res" where
  "MemPool_set p i v =
     (if i < length (slots p) then
        if in_use (slots p ! i)
        then Inr (p\<lparr>slots := (slots p)[i := (slots p ! i)\<lparr>sdata := v\<rparr>]\<rparr>)
        else Inl UseAfterFree
      else Inl OutOfBounds)"

lemma MemPool_acquire_length:
  "MemPool_acquire z p = Inr (r, p') \<Longrightarrow> length (slots p') = length (slots p)"
  by (auto simp: MemPool_acquire_def Let_def split: if_splits)

lemma MemPool_release_length:
  "MemPool_release nd z p q = Inr p' \<Longrightarrow> length (slots p') = length (slots p)"
  by (auto simp: MemPool_release_def Let_def split: if_splits option.splits)

lemma MemPool_set_length:
  "MemPool_set p i v = Inr p' \<Longrightarrow> length (slots p') = length (slots p)"
  by (auto simp: MemPool_set_def split: if_splits)

section \<open>Representation invariant and abstraction\<close>

text \<open>
  \<open>free_path ss h is\<close>: following \<^verbatim>\<open>next\<close> from \<open>h\<close> visits exactly the free slots \<open>is\<close>
  and then ends at \<open>SIZE_MAX\<close> (a pool of capacity 0 has no slot to visit).
\<close>

fun free_path :: "'a slot list \<Rightarrow> size_t \<Rightarrow> nat list \<Rightarrow> bool" where
  "free_path ss h [] = (h = SIZE_MAX \<or> ss = [])"
| "free_path ss h (i # is) =
     (unat h = i \<and> i < length ss \<and> \<not> in_use (ss ! i) \<and> free_path ss (snext (ss ! i)) is)"

fun free_walk :: "'a slot list \<Rightarrow> nat \<Rightarrow> size_t \<Rightarrow> nat list" where
  "free_walk ss 0 h = []"
| "free_walk ss (Suc n) h =
     (if unat h < length ss then unat h # free_walk ss n (snext (ss ! unat h)) else [])"

definition pool_free :: "'a mem_pool \<Rightarrow> nat list" where
  "pool_free p = free_walk (slots p) (length (slots p)) (free_list_head p)"

definition pool_used :: "'a mem_pool \<Rightarrow> nat \<Rightarrow> 'a option" where
  "pool_used p i =
     (if i < length (slots p) \<and> in_use (slots p ! i) then Some (sdata (slots p ! i)) else None)"

definition pool_rep :: "'a mem_pool \<Rightarrow> nat list \<Rightarrow> bool" where
  "pool_rep p fl \<longleftrightarrow>
     free_path (slots p) (free_list_head p) fl \<and> distinct fl \<and>
     (\<forall>i < length (slots p). \<not> in_use (slots p ! i) \<longrightarrow> i \<in> set fl) \<and>
     length (slots p) = unat (mp_capacity p) \<and> length (slots p) \<le> INT_MAX \<and>
     unat (mp_in_use_count p) + length fl = length (slots p)"

definition pool_inv :: "'a mem_pool \<Rightarrow> bool" where
  "pool_inv p = pool_rep p (pool_free p)"

section \<open>The representation relation\<close>

lemma free_path_walk:
  "free_path ss h fl \<Longrightarrow> length fl \<le> n \<Longrightarrow> length ss \<le> INT_MAX \<Longrightarrow> free_walk ss n h = fl"
proof (induction fl arbitrary: h n)
  case Nil
  then show ?case by (cases n) (auto simp: INT_MAX_def)
next
  case (Cons i fl)
  then show ?case by (cases n) auto
qed

lemma free_path_set:
  "free_path ss h fl \<Longrightarrow> i \<in> set fl \<Longrightarrow> i < length ss \<and> \<not> in_use (ss ! i)"
  by (induction fl arbitrary: h) auto

lemma free_path_update:
  "i \<notin> set fl \<Longrightarrow> free_path (ss[i := x]) h fl = free_path ss h fl"
  by (induction fl arbitrary: h) auto

lemma pool_rep_free: "pool_rep p fl \<Longrightarrow> pool_free p = fl"
  by (auto simp: pool_rep_def pool_free_def intro!: free_path_walk)

lemma pool_inv_iff: "pool_inv p \<longleftrightarrow> (\<exists>fl. pool_rep p fl)"
  using pool_rep_free by (fastforce simp: pool_inv_def)

lemma pool_repI_free: "pool_inv p \<Longrightarrow> pool_rep p (pool_free p)"
  by (simp add: pool_inv_def)

lemma pool_rep_set: "pool_rep p fl \<Longrightarrow> i \<in> set fl \<longleftrightarrow> i < length (slots p) \<and> \<not> in_use (slots p ! i)"
  by (auto simp: pool_rep_def dest: free_path_set)

lemma pool_rep_exhausted: "pool_rep p fl \<Longrightarrow> mp_in_use_count p = mp_capacity p \<longleftrightarrow> fl = []"
  by (auto simp: pool_rep_def intro: unsigned_word_eqI)

lemma acquire_rep_Nil:
  "pool_rep p [] \<Longrightarrow> MemPool_acquire zero p = Inr (None, p)"
  by (simp add: MemPool_acquire_def pool_rep_exhausted)

lemma acquire_rep_Cons:
  assumes "pool_rep p (i # fl)"
  shows "\<exists>p'. MemPool_acquire zero p = Inr (Some i, p') \<and> pool_rep p' fl \<and>
              pool_used p' = (pool_used p)(i \<mapsto> zero)"
proof -
  have ne: "mp_in_use_count p \<noteq> mp_capacity p"
    using assms by (simp add: pool_rep_exhausted)
  have cnt: "unat (mp_in_use_count p + 1) = Suc (unat (mp_in_use_count p))"
    using assms by (intro unat_add_one_64) (auto simp: pool_rep_def INT_MAX_def)
  let ?p' = "p\<lparr>slots := (slots p)[i := \<lparr>sdata = zero, snext = SIZE_MAX, in_use = True\<rparr>],
               free_list_head := snext (slots p ! i), mp_in_use_count := mp_in_use_count p + 1\<rparr>"
  have "MemPool_acquire zero p = Inr (Some i, ?p')"
    using assms ne by (auto simp: MemPool_acquire_def pool_rep_def Let_def)
  moreover have "pool_rep ?p' fl"
    using assms cnt by (auto simp: pool_rep_def free_path_update nth_list_update split: if_splits)
  moreover have "pool_used ?p' = (pool_used p)(i \<mapsto> zero)"
    using assms by (auto simp: pool_used_def pool_rep_def fun_eq_iff nth_list_update)
  ultimately show ?thesis by blast
qed

lemma release_rep:
  assumes "pool_rep p fl" "pool_used p i = Some v"
  shows "\<exists>p'. MemPool_release ndebug poison p (Some i) = Inr p' \<and> pool_rep p' (i # fl) \<and>
              pool_used p' = (pool_used p)(i := None)"
proof -
  have i: "i < length (slots p)" "in_use (slots p ! i)" "i \<notin> set fl"
    using assms pool_rep_set [OF assms(1)] by (auto simp: pool_used_def split: if_splits)
  have len: "length (slots p) \<le> INT_MAX" using assms by (simp add: pool_rep_def)
  have ui: "unat (of_nat i :: size_t) = i"
    using i len by (intro unat_of_nat_64) (simp add: INT_MAX_def)
  have ne: "of_nat i \<noteq> free_list_head p"
  proof
    assume "of_nat i = free_list_head p"
    then have "unat (free_list_head p) = i" using ui by metis
    with assms(1) i show False by (cases fl) (auto simp: pool_rep_def INT_MAX_def)
  qed
  have "length fl < length (slots p)"
  proof -
    have "set fl \<subseteq> {..<length (slots p)} - {i}"
      using pool_rep_set [OF assms(1)] i by auto
    then have "card (set fl) \<le> card ({..<length (slots p)} - {i})"
      by (rule card_mono [rotated]) simp
    moreover have "card (set fl) = length fl"
      using assms by (simp add: pool_rep_def distinct_card)
    ultimately show ?thesis using i(1) by simp
  qed
  then have pos: "0 < unat (mp_in_use_count p)"
    using assms(1) by (auto simp: pool_rep_def)
  note cnt = unat_minus_one_64 [OF pos]
  let ?p' = "p\<lparr>slots := (slots p)[i := \<lparr>sdata = poison, snext = free_list_head p, in_use = False\<rparr>],
               free_list_head := of_nat i, mp_in_use_count := mp_in_use_count p - 1\<rparr>"
  have "MemPool_release ndebug poison p (Some i) = Inr ?p'"
    using i ne by (simp add: MemPool_release_def Let_def)
  moreover have "pool_rep ?p' (i # fl)"
    using assms(1) i ui cnt pos
    by (auto simp: pool_rep_def free_path_update nth_list_update split: if_splits)
  moreover have "pool_used ?p' = (pool_used p)(i := None)"
    using i by (auto simp: pool_used_def fun_eq_iff nth_list_update)
  ultimately show ?thesis by blast
qed

lemma MemPool_link_eq:
  assumes "unat cap \<le> INT_MAX" "length ss = unat cap"
  shows "MemPool_link cap i ss =
    Inr (map (\<lambda>j. if i \<le> j \<and> Suc j < unat cap then (ss ! j)\<lparr>snext := of_nat (Suc j)\<rparr> else ss ! j)
         [0..<unat cap])"
  using assms
proof (induction cap i ss rule: MemPool_link.induct)
  case (1 cap i ss)
  show ?case
  proof (cases "i < unat cap")
    case False
    then have "map (\<lambda>j. if i \<le> j \<and> Suc j < unat cap then (ss ! j)\<lparr>snext := of_nat (Suc j)\<rparr> else ss ! j)
         [0..<unat cap] = ss"
      using "1.prems" by (intro nth_equalityI) auto
    with False show ?thesis by (simp add: MemPool_link.simps)
  next
    case True
    let ?ss = "if of_nat i < cap - 1 then ss[i := (ss ! i)\<lparr>snext := of_nat i + 1\<rparr>] else ss"
    have "unat (of_nat i :: size_t) = i"
      using True unat_lt_64 [of cap] by (intro unat_of_nat_64) simp
    then have cmp: "of_nat i < cap - 1 \<longleftrightarrow> Suc i < unat cap"
      using True by (simp add: word_less_nat_alt unat_minus_one_64 less_diff_conv)
    have ne: "i \<noteq> INT_MAX" using True "1.prems" by simp
    have "MemPool_link cap i ss = MemPool_link cap (Suc i) ?ss"
      using True ne by (subst MemPool_link.simps) (simp add: Let_def)
    also have "\<dots> = Inr (map (\<lambda>j. if Suc i \<le> j \<and> Suc j < unat cap then (?ss ! j)\<lparr>snext := of_nat (Suc j)\<rparr> else ?ss ! j)
         [0..<unat cap])"
      by (rule "1.IH" [OF True refl ne]) (use "1.prems" in auto)
    also have "map (\<lambda>j. if Suc i \<le> j \<and> Suc j < unat cap then (?ss ! j)\<lparr>snext := of_nat (Suc j)\<rparr> else ?ss ! j)
         [0..<unat cap] =
         map (\<lambda>j. if i \<le> j \<and> Suc j < unat cap then (ss ! j)\<lparr>snext := of_nat (Suc j)\<rparr> else ss ! j)
         [0..<unat cap]"
      unfolding cmp using "1.prems" True
      by (intro map_cong refl) (auto simp: nth_list_update add.commute not_less_eq_eq dest: le_antisym)
    finally show ?thesis .
  qed
qed

lemma free_path_chain:
  assumes "\<And>j. j < length ss \<Longrightarrow> \<not> in_use (ss ! j) \<and>
             snext (ss ! j) = (if Suc j < length ss then of_nat (Suc j) else SIZE_MAX)"
    and "length ss \<le> INT_MAX" "i < length ss"
  shows "free_path ss (of_nat i) [i..<length ss]"
  using assms(3)
proof (induction "length ss - i" arbitrary: i)
  case 0
  then show ?case by simp
next
  case (Suc m)
  have ui: "unat (of_nat i :: size_t) = i"
    using Suc.prems assms(2) by (intro unat_of_nat_64) (simp add: INT_MAX_def)
  show ?case
  proof (cases "Suc i < length ss")
    case True
    have "m = length ss - Suc i" using Suc.hyps(2) by simp
    from Suc.hyps(1) [OF this True]
    have "free_path ss (of_nat (Suc i)) [Suc i..<length ss]" .
    with True Suc.prems ui assms(1) [of i] show ?thesis
      by (subst upt_conv_Cons) (simp_all del: of_nat_Suc)
  next
    case False
    with Suc.prems have "[i..<length ss] = [i]" by (simp add: upt_conv_Cons)
    with False Suc.prems ui assms(1) [of i] assms(2) show ?thesis
      by (simp add: INT_MAX_def)
  qed
qed

lemma MemPool_new_rep:
  assumes "unat cap \<le> INT_MAX"
  shows "\<exists>p. MemPool_new d cap nm = Inr p \<and> pool_rep p [0..<unat cap] \<and> pool_used p = Map.empty \<and>
             mp_capacity p = cap"
proof -
  let ?s = "\<lparr>sdata = d, snext = SIZE_MAX, in_use = False\<rparr>"
  let ?ss = "map (\<lambda>j. if 0 \<le> j \<and> Suc j < unat cap
                      then (replicate (unat cap) ?s ! j)\<lparr>snext := of_nat (Suc j)\<rparr>
                      else replicate (unat cap) ?s ! j) [0..<unat cap]"
  let ?p = "\<lparr>slots = ?ss, free_list_head = 0, mp_capacity = cap, mp_in_use_count = 0, mp_name = nm\<rparr>"
  have new: "MemPool_new d cap nm = Inr ?p"
    using assms by (simp add: MemPool_new_def MemPool_link_eq)
  have "free_path ?ss 0 [0..<unat cap]"
  proof (cases "unat cap = 0")
    case True
    then show ?thesis by simp
  next
    case False
    then show ?thesis using free_path_chain [of ?ss 0] assms by simp
  qed
  then have "pool_rep ?p [0..<unat cap]" using assms by (auto simp: pool_rep_def)
  with new show ?thesis by (auto simp: pool_used_def fun_eq_iff)
qed

lemma MemPool_get_used: "MemPool_get p i = Inr v \<longleftrightarrow> pool_used p i = Some v"
  by (auto simp: MemPool_get_def pool_used_def)

lemma MemPool_set_rep:
  assumes "pool_rep p fl" "pool_used p i = Some v"
  shows "\<exists>p'. MemPool_set p i w = Inr p' \<and> pool_rep p' fl \<and> pool_used p' = (pool_used p)(i \<mapsto> w)"
proof -
  let ?p' = "p\<lparr>slots := (slots p)[i := (slots p ! i)\<lparr>sdata := w\<rparr>]\<rparr>"
  have i: "i < length (slots p)" "in_use (slots p ! i)" "i \<notin> set fl"
    using assms pool_rep_set [OF assms(1)] by (auto simp: pool_used_def split: if_splits)
  then have "MemPool_set p i w = Inr ?p'" by (simp add: MemPool_set_def)
  moreover have "pool_rep ?p' fl" using assms i by (auto simp: pool_rep_def free_path_update nth_list_update)
  moreover have "pool_used ?p' = (pool_used p)(i \<mapsto> w)"
    using i by (auto simp: pool_used_def fun_eq_iff nth_list_update)
  ultimately show ?thesis by blast
qed

section \<open>The interface: a pool of reusable objects\<close>

text \<open>
  What the rest of the program relies on. \<open>free p\<close> is the stack of slots that are not
  handed out and \<open>used p\<close> the contents of those that are.
\<close>

locale object_pool =
  fixes acquire :: "'a \<Rightarrow> 'p \<Rightarrow> (nat option \<times> 'p) res"
    and release :: "bool \<Rightarrow> 'a \<Rightarrow> 'p \<Rightarrow> nat option \<Rightarrow> 'p res"
    and get :: "'p \<Rightarrow> nat \<Rightarrow> 'a res"
    and store :: "'p \<Rightarrow> nat \<Rightarrow> 'a \<Rightarrow> 'p res"
    and free :: "'p \<Rightarrow> nat list"
    and used :: "'p \<Rightarrow> nat \<Rightarrow> 'a option"
    and invar :: "'p \<Rightarrow> bool"
  assumes acquire_none: "invar p \<Longrightarrow> free p = [] \<Longrightarrow> acquire z p = Inr (None, p)"
    and acquire_some: "invar p \<Longrightarrow> free p = i # fl \<Longrightarrow>
          \<exists>p'. acquire z p = Inr (Some i, p') \<and> invar p' \<and> free p' = fl \<and> used p' = (used p)(i \<mapsto> z)"
    and release_used: "invar p \<Longrightarrow> used p i = Some v \<Longrightarrow>
          \<exists>p'. release nd z p (Some i) = Inr p' \<and> invar p' \<and> free p' = i # free p \<and>
               used p' = (used p)(i := None)"
    and get_iff: "get p i = Inr v \<longleftrightarrow> used p i = Some v"
    and store_used: "invar p \<Longrightarrow> used p i = Some v \<Longrightarrow>
          \<exists>p'. store p i w = Inr p' \<and> invar p' \<and> free p' = free p \<and> used p' = (used p)(i \<mapsto> w)"
    and free_unused: "invar p \<Longrightarrow> i \<in> set (free p) \<Longrightarrow> used p i = None"
    and free_distinct: "invar p \<Longrightarrow> distinct (free p)"
begin

lemma acquire_total: "invar p \<Longrightarrow> \<exists>r p'. acquire z p = Inr (r, p') \<and> invar p'"
  using acquire_none acquire_some by (cases "free p") blast+

lemma acquire_cases:
  assumes "invar p" "acquire z p = Inr (r, p')"
  obtains (exhausted) "r = None" "p' = p" "free p = []"
  | (slot) i where "r = Some i" "free p = i # free p'" "invar p'"
      "used p i = None" "used p' = (used p)(i \<mapsto> z)"
proof (cases "free p")
  case Nil
  with assms acquire_none [of p z] show ?thesis by (intro exhausted) auto
next
  case (Cons i fl)
  from acquire_some [OF assms(1) Cons, of z] assms(2)
  have "r = Some i" "invar p'" "free p' = fl" "used p' = (used p)(i \<mapsto> z)" by auto
  moreover have "used p i = None" using assms(1) Cons by (simp add: free_unused)
  ultimately show ?thesis using Cons by (intro slot) auto
qed

lemma release_then_acquire:
  assumes "invar p" "used p i = Some v"
  shows "\<exists>p1 p2. release nd z p (Some i) = Inr p1 \<and> acquire y p1 = Inr (Some i, p2) \<and>
            free p2 = free p \<and> used p2 = (used p)(i \<mapsto> y)"
  using release_used [OF assms, of nd z] acquire_some by fastforce

lemma acquire_not_exhausted:
  assumes "invar p" "free p \<noteq> []"
  shows "\<exists>i p'. acquire z p = Inr (Some i, p') \<and> used p i = None \<and> used p' i = Some z"
proof -
  obtain i fl where "free p = i # fl" using assms(2) by (cases "free p") auto
  with acquire_some [OF assms(1) this, of z] free_unused [OF assms(1), of i] show ?thesis by auto
qed

end

interpretation mp: object_pool MemPool_acquire MemPool_release MemPool_get MemPool_set
  pool_free pool_used pool_inv
proof
  fix p :: "'a mem_pool" and z
  assume "pool_inv p" "pool_free p = []"
  then show "MemPool_acquire z p = Inr (None, p)"
    using acquire_rep_Nil pool_repI_free by metis
next
  fix p :: "'a mem_pool" and i fl z
  assume "pool_inv p" "pool_free p = i # fl"
  then have "pool_rep p (i # fl)" using pool_repI_free by metis
  from acquire_rep_Cons [OF this, of z] show
    "\<exists>p'. MemPool_acquire z p = Inr (Some i, p') \<and> pool_inv p' \<and> pool_free p' = fl \<and>
       pool_used p' = (pool_used p)(i \<mapsto> z)"
    using pool_rep_free pool_inv_iff by blast
next
  fix p :: "'a mem_pool" and i v nd z
  assume "pool_inv p" "pool_used p i = Some v"
  from release_rep [OF pool_repI_free [OF this(1)] this(2), of nd z]
  show "\<exists>p'. MemPool_release nd z p (Some i) = Inr p' \<and> pool_inv p' \<and>
       pool_free p' = i # pool_free p \<and> pool_used p' = (pool_used p)(i := None)"
    using pool_rep_free pool_inv_iff by blast
next
  fix p :: "'a mem_pool" and i v
  show "(MemPool_get p i = Inr v) = (pool_used p i = Some v)" by (rule MemPool_get_used)
next
  fix p :: "'a mem_pool" and i v w
  assume "pool_inv p" "pool_used p i = Some v"
  from MemPool_set_rep [OF pool_repI_free [OF this(1)] this(2), of w]
  show "\<exists>p'. MemPool_set p i w = Inr p' \<and> pool_inv p' \<and> pool_free p' = pool_free p \<and>
       pool_used p' = (pool_used p)(i \<mapsto> w)"
    using pool_rep_free pool_inv_iff by blast
next
  fix p :: "'a mem_pool" and i
  assume "pool_inv p" "i \<in> set (pool_free p)"
  then show "pool_used p i = None"
    using pool_rep_set [OF pool_repI_free] by (auto simp: pool_used_def)
next
  fix p :: "'a mem_pool"
  assume "pool_inv p"
  then show "distinct (pool_free p)" by (simp add: pool_inv_def pool_rep_def)
qed

section \<open>Clients that release only what they hold\<close>

text \<open>
  A client holds a list of pointers. \<open>PRelease k\<close> gives back the \<open>k\<close>-th of them (and does
  nothing when it holds fewer), as the random allocation test of
  \<^verbatim>\<open>tests/mem_pool_test.cc\<close> does.
\<close>

datatype pool_op = PAcquire | PRelease nat

fun pool_run :: "bool \<Rightarrow> 'a \<Rightarrow> 'a \<Rightarrow> pool_op list \<Rightarrow> 'a mem_pool \<times> nat list \<Rightarrow> ('a mem_pool \<times> nat list) res" where
  "pool_run nd z ps [] s = Inr s"
| "pool_run nd z ps (PAcquire # ops) (p, held) =
     res_bind (MemPool_acquire z p)
       (\<lambda>(r, p'). pool_run nd z ps ops (p', case r of None \<Rightarrow> held | Some i \<Rightarrow> held @ [i]))"
| "pool_run nd z ps (PRelease k # ops) (p, held) =
     (if k < length held then
        res_bind (MemPool_release nd ps p (Some (held ! k)))
          (\<lambda>p'. pool_run nd z ps ops (p', take k held @ drop (Suc k) held))
      else pool_run nd z ps ops (p, held))"

definition held_ok :: "'a mem_pool \<Rightarrow> nat list \<Rightarrow> bool" where
  "held_ok p held \<longleftrightarrow> pool_inv p \<and> distinct held \<and> set held = dom (pool_used p)"

lemma take_drop_distinct:
  assumes "distinct xs" "k < length xs"
  shows "distinct (take k xs @ drop (Suc k) xs)"
    and "set (take k xs @ drop (Suc k) xs) = set xs - {xs ! k}"
proof -
  have eq: "xs = take k xs @ xs ! k # drop (Suc k) xs" using assms(2) by (rule id_take_nth_drop)
  then have d: "distinct (take k xs @ xs ! k # drop (Suc k) xs)" using assms(1) by metis
  then show "distinct (take k xs @ drop (Suc k) xs)" by auto
  have "set xs = set (take k xs @ xs ! k # drop (Suc k) xs)" using eq by metis
  with d show "set (take k xs @ drop (Suc k) xs) = set xs - {xs ! k}" by auto
qed

lemma pool_run_held:
  "held_ok p held \<Longrightarrow> \<exists>p' held'. pool_run nd z ps ops (p, held) = Inr (p', held') \<and> held_ok p' held' \<and>
     mp_capacity p' = mp_capacity p"
proof (induction ops arbitrary: p held)
  case Nil
  then show ?case by simp
next
  case (Cons op ops)
  show ?case
  proof (cases op)
    case PAcquire
    from Cons.prems have inv: "pool_inv p" by (simp add: held_ok_def)
    from mp.acquire_total [OF inv, of z] obtain r p1 where acq: "MemPool_acquire z p = Inr (r, p1)" by blast
    have cap: "mp_capacity p1 = mp_capacity p"
      using acq by (auto simp: MemPool_acquire_def Let_def split: if_splits)
    from inv acq have "held_ok p1 (case r of None \<Rightarrow> held | Some i \<Rightarrow> held @ [i])"
    proof (cases rule: mp.acquire_cases)
      case exhausted
      with Cons.prems show ?thesis by simp
    next
      case (slot i)
      then have "i \<notin> set held" using Cons.prems by (auto simp: held_ok_def)
      with slot Cons.prems show ?thesis by (auto simp: held_ok_def)
    qed
    from Cons.IH [OF this] show ?thesis using PAcquire acq cap by simp
  next
    case (PRelease k)
    show ?thesis
    proof (cases "k < length held")
      case True
      then have "held ! k \<in> dom (pool_used p)" using Cons.prems by (auto simp: held_ok_def)
      then obtain v where v: "pool_used p (held ! k) = Some v" by auto
      from Cons.prems have inv: "pool_inv p" by (simp add: held_ok_def)
      from mp.release_used [OF inv v, of nd ps] obtain p1 where
        rel: "MemPool_release nd ps p (Some (held ! k)) = Inr p1" and
        p1: "pool_inv p1" "pool_used p1 = (pool_used p)(held ! k := None)" by blast
      have cap: "mp_capacity p1 = mp_capacity p"
        using rel by (auto simp: MemPool_release_def Let_def split: if_splits)
      have "held_ok p1 (take k held @ drop (Suc k) held)"
        using p1 Cons.prems take_drop_distinct [of held k] True by (simp add: held_ok_def)
      from Cons.IH [OF this] show ?thesis using PRelease rel cap True by simp
    next
      case False
      with Cons.IH [OF Cons.prems] PRelease show ?thesis by simp
    qed
  qed
qed

lemma held_ok_count: "held_ok p held \<Longrightarrow> unat (mp_in_use_count p) = length held"
proof -
  assume h: "held_ok p held"
  then have rep: "pool_rep p (pool_free p)" by (simp add: held_ok_def pool_inv_def)
  have "set held \<union> set (pool_free p) = {..<length (slots p)}"
    using h pool_rep_set [OF rep] by (auto simp: held_ok_def pool_used_def dom_def split: if_splits)
  moreover have "set held \<inter> set (pool_free p) = {}"
    using h mp.free_unused [of p] by (fastforce simp: held_ok_def)
  ultimately have "card (set held) + card (set (pool_free p)) = length (slots p)"
    by (metis List.finite_set card_Un_disjoint card_lessThan)
  moreover have "card (set held) = length held"
    using h by (intro distinct_card) (simp add: held_ok_def)
  moreover have "card (set (pool_free p)) = length (pool_free p)"
    using rep by (intro distinct_card) (simp add: pool_rep_def)
  moreover have "unat (mp_in_use_count p) + length (pool_free p) = length (slots p)"
    using rep by (simp add: pool_rep_def)
  ultimately show ?thesis by linarith
qed

lemma pool_inv_exhausted: "pool_inv p \<Longrightarrow> MemPool_is_exhausted p \<longleftrightarrow> pool_free p = []"
  by (simp add: MemPool_is_exhausted_def pool_inv_def pool_rep_exhausted)

lemma MemPool_dump_walk_free:
  "free_path ss h fl \<Longrightarrow> fl \<noteq> [] \<Longrightarrow> length fl \<le> n \<Longrightarrow> length ss \<le> INT_MAX \<Longrightarrow>
   MemPool_dump_walk ss n h = Inr (map (\<lambda>i. (snext (ss ! i), in_use (ss ! i))) fl)"
proof (induction fl arbitrary: h n)
  case Nil
  then show ?case by simp
next
  case (Cons i fl)
  obtain m where n: "n = Suc m" using Cons.prems(3) by (cases n) auto
  show ?case
  proof (cases fl)
    case Nil
    with Cons.prems n show ?thesis by (auto simp: Let_def)
  next
    case fl: (Cons j fl')
    then have "snext (ss ! i) \<noteq> SIZE_MAX"
      using Cons.prems(1,4) by (auto simp: INT_MAX_def)
    with Cons.IH [of "snext (ss ! i)" m] Cons.prems n fl show ?thesis by (auto simp: Let_def)
  qed
qed

section \<open>Properties of the pool\<close>

text \<open>The abstract pool: a stack of free slots and the contents of the others.\<close>

definition pool_abs :: "'a mem_pool \<Rightarrow> nat list \<times> (nat \<Rightarrow> 'a option)" where
  "pool_abs p = (pool_free p, pool_used p)"

fun spec_acquire :: "'a \<Rightarrow> nat list \<times> (nat \<Rightarrow> 'a option) \<Rightarrow> nat option \<times> nat list \<times> (nat \<Rightarrow> 'a option)" where
  "spec_acquire z ([], m) = (None, [], m)"
| "spec_acquire z (i # fl, m) = (Some i, fl, m(i \<mapsto> z))"

fun spec_release :: "nat \<Rightarrow> nat list \<times> (nat \<Rightarrow> 'a option) \<Rightarrow> nat list \<times> (nat \<Rightarrow> 'a option)" where
  "spec_release i (fl, m) = (i # fl, m(i := None))"




text \<open>A pool of two slots, the first of them handed out.\<close>

definition sample_pool :: "nat mem_pool" where
  "sample_pool =
     \<lparr>slots = [\<lparr>sdata = 5, snext = SIZE_MAX, in_use = True\<rparr>,
               \<lparr>sdata = 0, snext = SIZE_MAX, in_use = False\<rparr>],
      free_list_head = 1, mp_capacity = 2, mp_in_use_count = 1, mp_name = ''sample''\<rparr>"

lemma sample_pool_inv: "pool_inv sample_pool"
  by (simp add: pool_inv_def pool_rep_def pool_free_def sample_pool_def INT_MAX_def
      All_less_Suc)




text \<open>
  The debugging dumps. On a well-formed pool with a free slot \<^verbatim>\<open>dump_state\<close> prints the
  free list from its head to its end, and nothing else; on a pool whose slots are all handed out
  both \<^verbatim>\<open>dump_state\<close> and \<^verbatim>\<open>dump_raw_state\<close> read through the dangling list head.
\<close>

theorem MemPool_dump_free_list:
  assumes "pool_inv p" "0 < unat (mp_capacity p)"
  shows "if MemPool_is_exhausted p
     then MemPool_dump_state p = Inl OutOfBounds \<and> MemPool_dump_raw_state p = Inl OutOfBounds
     else MemPool_dump_state p =
       Inr (mp_capacity p, mp_in_use_count p,
            map (\<lambda>i. (snext (slots p ! i), in_use (slots p ! i))) (pool_free p)) \<and>
       list_all (\<lambda>i. \<not> in_use (slots p ! i)) (pool_free p)"
proof -
  have rep: "pool_rep p (pool_free p)" using assms(1) by (rule pool_repI_free)
  show ?thesis
  proof (cases "pool_free p = []")
    case True
    with rep assms(2) have h: "free_list_head p = SIZE_MAX" "length (slots p) \<le> INT_MAX"
      by (auto simp: pool_rep_def)
    obtain n where n: "unat (mp_capacity p) = Suc n" using assms(2) by (cases "unat (mp_capacity p)") auto
    from h n True show ?thesis
      by (simp add: pool_inv_exhausted [OF assms(1)] MemPool_dump_state_def MemPool_dump_raw_state_def INT_MAX_def)
  next
    case False
    have "MemPool_dump_walk (slots p) (unat (mp_capacity p)) (free_list_head p) =
          Inr (map (\<lambda>i. (snext (slots p ! i), in_use (slots p ! i))) (pool_free p))"
      using rep False by (intro MemPool_dump_walk_free) (auto simp: pool_rep_def)
    moreover have "list_all (\<lambda>i. \<not> in_use (slots p ! i)) (pool_free p)"
      using pool_rep_set [OF rep] by (simp add: list_all_iff)
    ultimately show ?thesis using False
      by (simp add: pool_inv_exhausted [OF assms(1)] MemPool_dump_state_def)
  qed
qed

theorem MemPool_dump_free_list_witness:
  "pool_inv sample_pool \<and> 0 < unat (mp_capacity sample_pool) \<and>
   MemPool_dump_state sample_pool = Inr (2, 1, [(SIZE_MAX, False)])"
proof -
  have c: "0 < unat (mp_capacity sample_pool)" by (simp add: sample_pool_def)
  have f: "pool_free sample_pool = [1]" by (simp add: pool_free_def sample_pool_def)
  show ?thesis using MemPool_dump_free_list [OF sample_pool_inv c] sample_pool_inv c f
    by (simp add: MemPool_is_exhausted_def) (simp add: sample_pool_def)
qed

end
