(* ===== verification/Spsc_Queue.thy ===== *)
theory Spsc_Queue
  imports Prelude
begin

text \<open>
  The lock-free ring of \<^verbatim>\<open>include/spsc_queue.h\<close> (class template \<^verbatim>\<open>SPSCQueue<T, N>\<close>).

  The first part models \<^verbatim>\<open>push\<close>, \<^verbatim>\<open>pop\<close> and \<^verbatim>\<open>empty\<close> as whole operations and shows
  that they implement a bounded first-in first-out queue (locale \<open>bounded_fifo\<close>,
  interpretation \<open>spsc\<close>). The second part takes the operations apart into their atomic
  accesses and lets one producer and one consumer interleave them arbitrarily
  (relation \<open>spsc_step\<close>). The interleaving is sequentially consistent; the acquire/release
  annotations, which make the accesses to \<^verbatim>\<open>buf_\<close> visible across threads, are not part of
  the model.
\<close>

section \<open>State and operations\<close>

record 'a spsc =
  buf :: "'a list"
  wr :: size_t
  rd :: size_t

text \<open>The two \<^verbatim>\<open>static_assert\<close>s on the template argument.\<close>

definition spsc_static_assert :: "size_t \<Rightarrow> bool" where
  "spsc_static_assert N \<longleftrightarrow> N AND (N - 1) = 0 \<and> N > 1"

definition SPSCQueue_new :: "size_t \<Rightarrow> 'a \<Rightarrow> 'a spsc" where
  "SPSCQueue_new N dflt = \<lparr>buf = replicate (unat N) dflt, wr = 0, rd = 0\<rparr>"

definition spsc_next :: "size_t \<Rightarrow> size_t \<Rightarrow> size_t" where
  "spsc_next N i = (i + 1) AND (N - 1)"

definition SPSCQueue_push :: "size_t \<Rightarrow> 'a spsc \<Rightarrow> 'a \<Rightarrow> (bool \<times> 'a spsc) res" where
  "SPSCQueue_push N q item =
     (let w = wr q; next = spsc_next N w
      in if next = rd q then Inr (False, q)
         else if unat w < length (buf q)
         then Inr (True, q\<lparr>buf := (buf q)[unat w := item], wr := next\<rparr>)
         else Inl OutOfBounds)"

definition SPSCQueue_pop :: "size_t \<Rightarrow> 'a spsc \<Rightarrow> ('a option \<times> 'a spsc) res" where
  "SPSCQueue_pop N q =
     (let r = rd q
      in if r = wr q then Inr (None, q)
         else if unat r < length (buf q)
         then Inr (Some (buf q ! unat r), q\<lparr>rd := spsc_next N r\<rparr>)
         else Inl OutOfBounds)"

definition SPSCQueue_empty :: "'a spsc \<Rightarrow> bool" where
  "SPSCQueue_empty q = (rd q = wr q)"

section \<open>Powers of two\<close>

lemma and_pred_eq_0_power2:
  "0 < (n :: nat) \<Longrightarrow> n AND (n - 1) = 0 \<Longrightarrow> \<exists>k. n = 2 ^ k"
proof (induction n rule: less_induct)
  case (less n)
  show ?case
  proof (cases "even n")
    case True
    then obtain m where m: "n = 2 * m" by auto
    with less.prems have "0 < m" by simp
    have "n - 1 = 1 + 2 * (m - 1)" using m \<open>0 < m\<close> by simp
    then have "2 * (m AND (m - 1)) = 0"
      using less.prems(2) m and_rec [of n "n - 1"] by simp
    with less.IH [of m] \<open>0 < m\<close> m obtain k where "m = 2 ^ k" by auto
    with m have "n = 2 ^ Suc k" by simp
    then show ?thesis by blast
  next
    case False
    then obtain m where m: "n = 1 + 2 * m" by (metis oddE add.commute)
    then have "n - 1 = 2 * m" by simp
    then have "2 * (m AND m) = 0"
      using less.prems(2) m and_rec [of n "n - 1"] by simp
    with m have "n = 2 ^ 0" by simp
    then show ?thesis by blast
  qed
qed

lemma spsc_static_assert_power2:
  assumes "spsc_static_assert N"
  obtains k where "unat N = 2 ^ k" "1 < unat N"
proof -
  have gt: "1 < unat N" using assms by (simp add: spsc_static_assert_def word_less_nat_alt)
  have "unat N AND (unat N - 1) = unat (N AND (N - 1))"
    using gt by (simp add: unsigned_and_eq unat_minus_one_64)
  also have "\<dots> = 0" using assms by (simp add: spsc_static_assert_def)
  finally show ?thesis using and_pred_eq_0_power2 [of "unat N"] gt that by auto
qed

lemma unat_spsc_next:
  assumes "spsc_static_assert N" "unat i < unat N"
  shows "unat (spsc_next N i) = Suc (unat i) mod unat N"
proof -
  obtain k where k: "unat N = 2 ^ k" "1 < unat N" using assms(1) by (rule spsc_static_assert_power2)
  have "unat (N - 1) = mask k"
    using k by (simp add: unat_minus_one_64 mask_eq_exp_minus_1)
  moreover have "unat (i + 1) = Suc (unat i)"
    using assms(2) unat_lt_64 [of N] by (subst unat_add_one_64) auto
  ultimately have "unat (spsc_next N i) = take_bit k (Suc (unat i))"
    by (simp add: spsc_next_def unsigned_and_eq take_bit_eq_mask)
  then show ?thesis using k by (simp add: take_bit_eq_mod)
qed

section \<open>Ring arithmetic\<close>

definition ring_len :: "nat \<Rightarrow> nat \<Rightarrow> nat \<Rightarrow> nat" where
  "ring_len n r w = (if r \<le> w then w - r else w + n - r)"

lemma mod_add_cases: "i < n \<Longrightarrow> k < n \<Longrightarrow> (i + k) mod n = (if i + k < n then i + k else i + k - (n :: nat))"
  by (auto simp: mod_if)

lemma ring_len_lt: "r < n \<Longrightarrow> w < n \<Longrightarrow> ring_len n r w < n"
  by (auto simp: ring_len_def)

lemma ring_len_0: "r < n \<Longrightarrow> w < n \<Longrightarrow> ring_len n r w = 0 \<longleftrightarrow> r = w"
  by (auto simp: ring_len_def)

lemma ring_full_iff: "r < n \<Longrightarrow> w < n \<Longrightarrow> Suc w mod n = r \<longleftrightarrow> ring_len n r w = n - 1"
  by (auto simp: ring_len_def mod_Suc)

lemma ring_len_push:
  "r < n \<Longrightarrow> w < n \<Longrightarrow> Suc w mod n \<noteq> r \<Longrightarrow> ring_len n r (Suc w mod n) = Suc (ring_len n r w)"
  by (auto simp: ring_len_def mod_Suc split: if_splits)

lemma ring_len_pop:
  "r < n \<Longrightarrow> w < n \<Longrightarrow> r \<noteq> w \<Longrightarrow> ring_len n r w = Suc (ring_len n (Suc r mod n) w)"
  by (auto simp: ring_len_def mod_Suc split: if_splits)

lemma ring_index_end: "r < n \<Longrightarrow> w < n \<Longrightarrow> (r + ring_len n r w) mod n = w"
  by (auto simp: ring_len_def)

lemma ring_index_ne: "r < n \<Longrightarrow> w < n \<Longrightarrow> k < ring_len n r w \<Longrightarrow> (r + k) mod n \<noteq> w"
  by (auto simp: ring_len_def mod_add_cases split: if_splits)

section \<open>Invariant and abstraction\<close>

definition spsc_inv :: "size_t \<Rightarrow> 'a spsc \<Rightarrow> bool" where
  "spsc_inv N q \<longleftrightarrow> spsc_static_assert N \<and> length (buf q) = unat N \<and>
     unat (wr q) < unat N \<and> unat (rd q) < unat N"

definition spsc_contents :: "size_t \<Rightarrow> 'a spsc \<Rightarrow> 'a list" where
  "spsc_contents N q =
     map (\<lambda>k. buf q ! ((unat (rd q) + k) mod unat N))
       [0..<ring_len (unat N) (unat (rd q)) (unat (wr q))]"

lemma spsc_inv_new: "spsc_static_assert N \<Longrightarrow> spsc_inv N (SPSCQueue_new N d)"
  by (simp add: spsc_inv_def SPSCQueue_new_def spsc_static_assert_def word_less_nat_alt)

lemma spsc_contents_new [simp]: "spsc_contents N (SPSCQueue_new N d) = []"
  by (simp add: spsc_contents_def SPSCQueue_new_def ring_len_def)

lemma length_spsc_contents:
  "length (spsc_contents N q) = ring_len (unat N) (unat (rd q)) (unat (wr q))"
  by (simp add: spsc_contents_def)

lemma spsc_contents_bound: "spsc_inv N q \<Longrightarrow> length (spsc_contents N q) < unat N"
  by (simp add: length_spsc_contents spsc_inv_def ring_len_lt)

lemma spsc_next_inv:
  assumes "spsc_inv N q"
  shows "unat (spsc_next N (wr q)) = Suc (unat (wr q)) mod unat N"
    and "unat (spsc_next N (rd q)) = Suc (unat (rd q)) mod unat N"
  using assms by (simp_all add: spsc_inv_def unat_spsc_next)

lemma spsc_full_iff:
  assumes "spsc_inv N q"
  shows "spsc_next N (wr q) = rd q \<longleftrightarrow> length (spsc_contents N q) = unat N - 1"
proof -
  have "spsc_next N (wr q) = rd q \<longleftrightarrow> unat (spsc_next N (wr q)) = unat (rd q)"
    by (auto intro: unsigned_word_eqI)
  then show ?thesis
    using assms by (simp add: spsc_next_inv ring_full_iff length_spsc_contents spsc_inv_def)
qed

lemma spsc_empty_iff:
  assumes "spsc_inv N q"
  shows "rd q = wr q \<longleftrightarrow> spsc_contents N q = []"
proof -
  have "rd q = wr q \<longleftrightarrow> unat (rd q) = unat (wr q)" by (auto intro: unsigned_word_eqI)
  then show ?thesis
    using assms length_spsc_contents [of N q] by (auto simp: spsc_inv_def ring_len_0 spsc_contents_def)
qed

text \<open>Writing the slot at \<^verbatim>\<open>write_\<close> leaves the queued items alone.\<close>

lemma spsc_contents_write:
  assumes "spsc_inv N q"
  shows "spsc_contents N (q\<lparr>buf := (buf q)[unat (wr q) := x]\<rparr>) = spsc_contents N q"
proof -
  have "unat (wr q) \<noteq> (unat (rd q) + k) mod unat N"
    if "k < ring_len (unat N) (unat (rd q)) (unat (wr q))" for k
    using that assms ring_index_ne [of "unat (rd q)" "unat N" "unat (wr q)" k]
    by (simp add: spsc_inv_def)
  then show ?thesis by (simp add: spsc_contents_def)
qed

text \<open>Advancing \<^verbatim>\<open>write_\<close> appends the item in that slot; advancing \<^verbatim>\<open>read_\<close> drops the first item.\<close>

lemma spsc_contents_publish:
  assumes "spsc_inv N q" "length (spsc_contents N q) < unat N - 1"
  shows "spsc_contents N (q\<lparr>wr := spsc_next N (wr q)\<rparr>) = spsc_contents N q @ [buf q ! unat (wr q)]"
    and "spsc_inv N (q\<lparr>wr := spsc_next N (wr q)\<rparr>)"
proof -
  have ne: "Suc (unat (wr q)) mod unat N \<noteq> unat (rd q)"
    using assms by (simp add: ring_full_iff length_spsc_contents spsc_inv_def)
  show "spsc_contents N (q\<lparr>wr := spsc_next N (wr q)\<rparr>) = spsc_contents N q @ [buf q ! unat (wr q)]"
    using assms ne
    by (simp add: spsc_contents_def spsc_next_inv ring_len_push spsc_inv_def ring_index_end)
  show "spsc_inv N (q\<lparr>wr := spsc_next N (wr q)\<rparr>)"
    using assms(1) spsc_next_inv(1) [OF assms(1)] by (auto simp: spsc_inv_def)
qed

lemma spsc_contents_consume:
  assumes "spsc_inv N q" "spsc_contents N q \<noteq> []"
  shows "spsc_contents N q = buf q ! unat (rd q) # spsc_contents N (q\<lparr>rd := spsc_next N (rd q)\<rparr>)"
    and "spsc_inv N (q\<lparr>rd := spsc_next N (rd q)\<rparr>)"
proof -
  have ne: "unat (rd q) \<noteq> unat (wr q)"
    using assms spsc_empty_iff by (metis unsigned_word_eqI)
  have idx: "(Suc (unat (rd q)) mod unat N + k) mod unat N = Suc (unat (rd q) + k) mod unat N" for k
    by (simp add: mod_add_left_eq)
  show "spsc_contents N q = buf q ! unat (rd q) # spsc_contents N (q\<lparr>rd := spsc_next N (rd q)\<rparr>)"
    using assms ne
    by (simp add: spsc_contents_def spsc_next_inv ring_len_pop [of "unat (rd q)" "unat N" "unat (wr q)"]
        spsc_inv_def upt_conv_Cons map_Suc_upt [symmetric] idx del: upt_Suc)
  show "spsc_inv N (q\<lparr>rd := spsc_next N (rd q)\<rparr>)"
    using assms(1) spsc_next_inv(2) [OF assms(1)] by (auto simp: spsc_inv_def)
qed

section \<open>The interface: a bounded first-in first-out queue\<close>

locale bounded_fifo =
  fixes push :: "'q \<Rightarrow> 'a \<Rightarrow> (bool \<times> 'q) res"
    and pop :: "'q \<Rightarrow> ('a option \<times> 'q) res"
    and is_empty :: "'q \<Rightarrow> bool"
    and contents :: "'q \<Rightarrow> 'a list"
    and invar :: "'q \<Rightarrow> bool"
    and room :: nat
  assumes push_full: "invar q \<Longrightarrow> length (contents q) = room \<Longrightarrow> push q x = Inr (False, q)"
    and push_ok: "invar q \<Longrightarrow> length (contents q) < room \<Longrightarrow>
          \<exists>q'. push q x = Inr (True, q') \<and> invar q' \<and> contents q' = contents q @ [x]"
    and pop_empty: "invar q \<Longrightarrow> contents q = [] \<Longrightarrow> pop q = Inr (None, q)"
    and pop_ok: "invar q \<Longrightarrow> contents q = x # xs \<Longrightarrow>
          \<exists>q'. pop q = Inr (Some x, q') \<and> invar q' \<and> contents q' = xs"
    and is_empty_iff: "invar q \<Longrightarrow> is_empty q \<longleftrightarrow> contents q = []"
    and bounded: "invar q \<Longrightarrow> length (contents q) \<le> room"
begin

lemma push_cases:
  assumes "invar q" "push q x = Inr (b, q')"
  obtains (full) "\<not> b" "q' = q" "length (contents q) = room"
  | (stored) "b" "invar q'" "contents q' = contents q @ [x]" "length (contents q) < room"
proof (cases "length (contents q) = room")
  case True
  with assms push_full [of q x] show ?thesis by (intro full) auto
next
  case False
  with bounded [OF assms(1)] have "length (contents q) < room" by simp
  with assms push_ok [of q x] show ?thesis by (intro stored) auto
qed

lemma pop_cases:
  assumes "invar q" "pop q = Inr (r, q')"
  obtains (drained) "r = None" "q' = q" "contents q = []"
  | (item) x where "r = Some x" "invar q'" "contents q = x # contents q'"
proof (cases "contents q")
  case Nil
  with assms pop_empty [of q] show ?thesis by (intro drained) auto
next
  case (Cons x xs)
  with assms pop_ok [OF assms(1) Cons] show ?thesis by (intro item) auto
qed

lemma push_total: "invar q \<Longrightarrow> \<exists>b q'. push q x = Inr (b, q') \<and> invar q'"
  using push_full push_ok bounded by (metis le_neq_implies_less)

lemma pop_total: "invar q \<Longrightarrow> \<exists>r q'. pop q = Inr (r, q') \<and> invar q'"
  using pop_empty pop_ok by (cases "contents q") blast+

end

lemma SPSCQueue_push_spec:
  assumes "spsc_inv N q"
  shows "if length (spsc_contents N q) = unat N - 1 then SPSCQueue_push N q x = Inr (False, q)
         else \<exists>q'. SPSCQueue_push N q x = Inr (True, q') \<and> spsc_inv N q' \<and>
                spsc_contents N q' = spsc_contents N q @ [x]"
proof (cases "length (spsc_contents N q) = unat N - 1")
  case True
  with assms show ?thesis by (simp add: SPSCQueue_push_def spsc_full_iff)
next
  case False
  let ?q1 = "q\<lparr>buf := (buf q)[unat (wr q) := x]\<rparr>"
  have lt: "length (spsc_contents N q) < unat N - 1"
    using False spsc_contents_bound [OF assms] by linarith
  have inv1: "spsc_inv N ?q1" and w: "unat (wr q) < length (buf q)" using assms by (simp_all add: spsc_inv_def)
  have c1: "spsc_contents N ?q1 = spsc_contents N q" using assms by (rule spsc_contents_write)
  have "SPSCQueue_push N q x = Inr (True, ?q1\<lparr>wr := spsc_next N (wr ?q1)\<rparr>)"
    using False assms w by (simp add: SPSCQueue_push_def spsc_full_iff Let_def)
  moreover have "spsc_contents N (?q1\<lparr>wr := spsc_next N (wr ?q1)\<rparr>) = spsc_contents N q @ [x]"
    using spsc_contents_publish(1) [OF inv1] lt c1 w by simp
  moreover have "spsc_inv N (?q1\<lparr>wr := spsc_next N (wr ?q1)\<rparr>)"
    using spsc_contents_publish(2) [OF inv1] lt c1 by simp
  ultimately show ?thesis using False by auto
qed

lemma SPSCQueue_pop_spec:
  assumes "spsc_inv N q"
  shows "case spsc_contents N q of [] \<Rightarrow> SPSCQueue_pop N q = Inr (None, q)
         | x # xs \<Rightarrow> \<exists>q'. SPSCQueue_pop N q = Inr (Some x, q') \<and> spsc_inv N q' \<and> spsc_contents N q' = xs"
proof (cases "spsc_contents N q")
  case Nil
  with assms show ?thesis by (simp add: SPSCQueue_pop_def spsc_empty_iff)
next
  case (Cons x xs)
  then have ne: "spsc_contents N q \<noteq> []" "rd q \<noteq> wr q" using assms by (simp_all add: spsc_empty_iff)
  have "SPSCQueue_pop N q = Inr (Some (buf q ! unat (rd q)), q\<lparr>rd := spsc_next N (rd q)\<rparr>)"
    using ne assms by (simp add: SPSCQueue_pop_def spsc_inv_def Let_def)
  with spsc_contents_consume [OF assms ne(1)] Cons show ?thesis by auto
qed

interpretation spsc: bounded_fifo "SPSCQueue_push N" "SPSCQueue_pop N" SPSCQueue_empty
  "spsc_contents N" "spsc_inv N" "unat N - 1" for N
proof
  fix q :: "'a spsc" and x
  assume "spsc_inv N q" "length (spsc_contents N q) = unat N - 1"
  then show "SPSCQueue_push N q x = Inr (False, q)" using SPSCQueue_push_spec [of N q x] by simp
next
  fix q :: "'a spsc" and x
  assume "spsc_inv N q" "length (spsc_contents N q) < unat N - 1"
  then show "\<exists>q'. SPSCQueue_push N q x = Inr (True, q') \<and> spsc_inv N q' \<and>
      spsc_contents N q' = spsc_contents N q @ [x]"
    using SPSCQueue_push_spec [of N q x] by simp
next
  fix q :: "'a spsc"
  assume "spsc_inv N q" "spsc_contents N q = []"
  then show "SPSCQueue_pop N q = Inr (None, q)" using SPSCQueue_pop_spec [of N q] by simp
next
  fix q :: "'a spsc" and x xs
  assume "spsc_inv N q" "spsc_contents N q = x # xs"
  then show "\<exists>q'. SPSCQueue_pop N q = Inr (Some x, q') \<and> spsc_inv N q' \<and> spsc_contents N q' = xs"
    using SPSCQueue_pop_spec [of N q] by simp
next
  fix q :: "'a spsc"
  assume "spsc_inv N q"
  then show "SPSCQueue_empty q = (spsc_contents N q = [])"
    by (simp add: SPSCQueue_empty_def spsc_empty_iff)
next
  fix q :: "'a spsc"
  assume "spsc_inv N q"
  then show "length (spsc_contents N q) \<le> unat N - 1" using spsc_contents_bound [of N q] by linarith
qed

section \<open>One producer and one consumer, interleaved\<close>

text \<open>
  Program counters. The producer: idle; has loaded \<^verbatim>\<open>write_\<close>; has seen that the ring is
  not full; has stored the item. The consumer: idle; has loaded \<^verbatim>\<open>read_\<close>; has seen that the
  ring is not empty; has copied the item out.
\<close>

datatype 'a producer_pc = PIdle | PLoaded 'a size_t | PChecked 'a size_t | PStored 'a size_t
datatype 'a consumer_pc = CIdle | CLoaded size_t | CChecked size_t | CCopied size_t 'a

record 'a spsc_sys =
  ring :: "'a spsc"
  ppc :: "'a producer_pc"
  cpc :: "'a consumer_pc"
  pushed :: "'a list"   \<comment> \<open>items of the pushes that stored \<^verbatim>\<open>write_\<close>, in order\<close>
  popped :: "'a list"   \<comment> \<open>items of the pops that stored \<^verbatim>\<open>read_\<close>, in order\<close>

definition spsc_init :: "size_t \<Rightarrow> 'a \<Rightarrow> 'a spsc_sys" where
  "spsc_init N d = \<lparr>ring = SPSCQueue_new N d, ppc = PIdle, cpc = CIdle, pushed = [], popped = []\<rparr>"

inductive spsc_step :: "size_t \<Rightarrow> 'a spsc_sys \<Rightarrow> 'a spsc_sys \<Rightarrow> bool" for N where
  push_load: "ppc s = PIdle \<Longrightarrow> spsc_step N s (s\<lparr>ppc := PLoaded x (wr (ring s))\<rparr>)"
| push_reject: "ppc s = PLoaded x w \<Longrightarrow> spsc_next N w = rd (ring s) \<Longrightarrow>
     spsc_step N s (s\<lparr>ppc := PIdle\<rparr>)"
| push_check: "ppc s = PLoaded x w \<Longrightarrow> spsc_next N w \<noteq> rd (ring s) \<Longrightarrow>
     spsc_step N s (s\<lparr>ppc := PChecked x w\<rparr>)"
| push_write: "ppc s = PChecked x w \<Longrightarrow>
     spsc_step N s (s\<lparr>ring := (ring s)\<lparr>buf := (buf (ring s))[unat w := x]\<rparr>, ppc := PStored x w\<rparr>)"
| push_publish: "ppc s = PStored x w \<Longrightarrow>
     spsc_step N s (s\<lparr>ring := (ring s)\<lparr>wr := spsc_next N w\<rparr>, ppc := PIdle, pushed := pushed s @ [x]\<rparr>)"
| pop_load: "cpc s = CIdle \<Longrightarrow> spsc_step N s (s\<lparr>cpc := CLoaded (rd (ring s))\<rparr>)"
| pop_reject: "cpc s = CLoaded r \<Longrightarrow> r = wr (ring s) \<Longrightarrow> spsc_step N s (s\<lparr>cpc := CIdle\<rparr>)"
| pop_check: "cpc s = CLoaded r \<Longrightarrow> r \<noteq> wr (ring s) \<Longrightarrow> spsc_step N s (s\<lparr>cpc := CChecked r\<rparr>)"
| pop_read: "cpc s = CChecked r \<Longrightarrow>
     spsc_step N s (s\<lparr>cpc := CCopied r (buf (ring s) ! unat r)\<rparr>)"
| pop_publish: "cpc s = CCopied r x \<Longrightarrow>
     spsc_step N s (s\<lparr>ring := (ring s)\<lparr>rd := spsc_next N r\<rparr>, cpc := CIdle, popped := popped s @ [x]\<rparr>)"

inductive spsc_reachable :: "size_t \<Rightarrow> 'a \<Rightarrow> 'a spsc_sys \<Rightarrow> bool" for N d where
  init: "spsc_reachable N d (spsc_init N d)"
| step: "spsc_reachable N d s \<Longrightarrow> spsc_step N s t \<Longrightarrow> spsc_reachable N d t"

text \<open>What each program point knows about the ring.\<close>

fun producer_ok :: "size_t \<Rightarrow> 'a spsc \<Rightarrow> 'a producer_pc \<Rightarrow> bool" where
  "producer_ok N q PIdle = True"
| "producer_ok N q (PLoaded x w) = (w = wr q)"
| "producer_ok N q (PChecked x w) = (w = wr q \<and> length (spsc_contents N q) < unat N - 1)"
| "producer_ok N q (PStored x w) =
     (w = wr q \<and> length (spsc_contents N q) < unat N - 1 \<and> buf q ! unat w = x)"

fun consumer_ok :: "size_t \<Rightarrow> 'a spsc \<Rightarrow> 'a consumer_pc \<Rightarrow> bool" where
  "consumer_ok N q CIdle = True"
| "consumer_ok N q (CLoaded r) = (r = rd q)"
| "consumer_ok N q (CChecked r) = (r = rd q \<and> spsc_contents N q \<noteq> [])"
| "consumer_ok N q (CCopied r x) =
     (r = rd q \<and> spsc_contents N q \<noteq> [] \<and> x = hd (spsc_contents N q))"

definition spsc_sys_inv :: "size_t \<Rightarrow> 'a spsc_sys \<Rightarrow> bool" where
  "spsc_sys_inv N s \<longleftrightarrow> spsc_inv N (ring s) \<and> producer_ok N (ring s) (ppc s) \<and>
     consumer_ok N (ring s) (cpc s) \<and> pushed s = popped s @ spsc_contents N (ring s)"

lemma producer_ok_consume:
  assumes "spsc_inv N q" "spsc_contents N q \<noteq> []" "producer_ok N q pc"
  shows "producer_ok N (q\<lparr>rd := spsc_next N (rd q)\<rparr>) pc"
  using assms spsc_contents_consume(1) [OF assms(1,2)] by (cases pc) auto

lemma consumer_ok_write:
  "spsc_inv N q \<Longrightarrow> consumer_ok N q pc \<Longrightarrow> consumer_ok N (q\<lparr>buf := (buf q)[unat (wr q) := x]\<rparr>) pc"
  by (cases pc) (simp_all add: spsc_contents_write)

lemma consumer_ok_publish:
  assumes "spsc_inv N q" "length (spsc_contents N q) < unat N - 1" "consumer_ok N q pc"
  shows "consumer_ok N (q\<lparr>wr := spsc_next N (wr q)\<rparr>) pc"
  using assms spsc_contents_publish(1) [OF assms(1,2)] by (cases pc) auto

lemma hd_spsc_contents:
  "spsc_inv N q \<Longrightarrow> spsc_contents N q \<noteq> [] \<Longrightarrow> hd (spsc_contents N q) = buf q ! unat (rd q)"
  using spsc_contents_consume(1) [of N q] by (metis list.sel(1))

lemma spsc_step_inv:
  "spsc_step N s t \<Longrightarrow> spsc_sys_inv N s \<Longrightarrow> spsc_sys_inv N t"
proof (induction rule: spsc_step.induct)
  case (push_check s x w)
  then show ?case
    using spsc_full_iff [of N "ring s"] spsc_contents_bound [of N "ring s"] by (auto simp: spsc_sys_inv_def)
next
  case (push_write s x w)
  then have inv: "spsc_inv N (ring s)" and w: "w = wr (ring s)" by (auto simp: spsc_sys_inv_def)
  moreover have "spsc_inv N ((ring s)\<lparr>buf := (buf (ring s))[unat w := x]\<rparr>)" "unat w < length (buf (ring s))"
    using inv w by (simp_all add: spsc_inv_def)
  ultimately show ?case
    using push_write consumer_ok_write [OF inv, of "cpc s" x] spsc_contents_write [OF inv, of x]
    by (simp add: spsc_sys_inv_def)
next
  case (push_publish s x w)
  then have inv: "spsc_inv N (ring s)" and w: "w = wr (ring s)"
    and lt: "length (spsc_contents N (ring s)) < unat N - 1" and x: "buf (ring s) ! unat w = x"
    by (auto simp: spsc_sys_inv_def)
  then show ?case
    using push_publish consumer_ok_publish [OF inv lt, of "cpc s"] spsc_contents_publish [OF inv lt]
    by (simp add: spsc_sys_inv_def)
next
  case (pop_check s r)
  then show ?case using spsc_empty_iff [of N "ring s"] by (auto simp: spsc_sys_inv_def)
next
  case (pop_read s r)
  then show ?case using hd_spsc_contents [of N "ring s"] by (auto simp: spsc_sys_inv_def)
next
  case (pop_publish s r x)
  then have inv: "spsc_inv N (ring s)" and r: "r = rd (ring s)"
    and ne: "spsc_contents N (ring s) \<noteq> []" and x: "x = hd (spsc_contents N (ring s))"
    by (auto simp: spsc_sys_inv_def)
  have "spsc_contents N (ring s) = x # spsc_contents N ((ring s)\<lparr>rd := spsc_next N r\<rparr>)"
    using spsc_contents_consume(1) [OF inv ne] hd_spsc_contents [OF inv ne] r x by simp
  then show ?case
    using pop_publish producer_ok_consume [OF inv ne] spsc_contents_consume(2) [OF inv ne] r
    by (simp add: spsc_sys_inv_def)
qed (auto simp: spsc_sys_inv_def)

lemma spsc_reachable_inv:
  "spsc_reachable N d s \<Longrightarrow> spsc_static_assert N \<Longrightarrow> spsc_sys_inv N s"
proof (induction rule: spsc_reachable.induct)
  case init
  then show ?case by (simp add: spsc_sys_inv_def spsc_init_def spsc_inv_new)
next
  case (step s t)
  then show ?case by (blast intro: spsc_step_inv)
qed

section \<open>Properties of the ring\<close>

definition spec_push :: "nat \<Rightarrow> 'a list \<Rightarrow> 'a \<Rightarrow> bool \<times> 'a list" where
  "spec_push room xs x = (if length xs = room then (False, xs) else (True, xs @ [x]))"

fun spec_pop :: "'a list \<Rightarrow> 'a option \<times> 'a list" where
  "spec_pop [] = (None, [])"
| "spec_pop (x # xs) = (Some x, xs)"

text \<open>
  C4. For every \<^verbatim>\<open>N\<close> the two \<^verbatim>\<open>static_assert\<close>s admit, the masked ring implements a
  first-in first-out queue of capacity \<open>N - 1\<close>: \<^verbatim>\<open>push\<close> appends or reports a full queue,
  \<^verbatim>\<open>pop\<close> returns the oldest item or reports an empty queue, both stay inside \<^verbatim>\<open>buf_\<close>
  and keep the ring well formed, and \<^verbatim>\<open>empty()\<close> tells whether an item is queued.
\<close>

theorem SPSCQueue_refines_fifo:
  assumes "spsc_inv N q"
  shows "map_sum id (map_prod id (spsc_contents N)) (SPSCQueue_push N q x) =
           Inr (spec_push (unat N - 1) (spsc_contents N q) x) \<and>
         map_sum id (map_prod id (spsc_contents N)) (SPSCQueue_pop N q) =
           Inr (spec_pop (spsc_contents N q)) \<and>
         SPSCQueue_empty q = (spsc_contents N q = []) \<and>
         pred_sum (\<lambda>_. False) (\<lambda>r. spsc_inv N (snd r)) (SPSCQueue_push N q x) \<and>
         pred_sum (\<lambda>_. False) (\<lambda>r. spsc_inv N (snd r)) (SPSCQueue_pop N q)"
proof (intro conjI)
  show "map_sum id (map_prod id (spsc_contents N)) (SPSCQueue_push N q x) =
      Inr (spec_push (unat N - 1) (spsc_contents N q) x)"
    using SPSCQueue_push_spec [OF assms, of x] by (auto simp: spec_push_def split: if_splits)
  show "map_sum id (map_prod id (spsc_contents N)) (SPSCQueue_pop N q) = Inr (spec_pop (spsc_contents N q))"
    using SPSCQueue_pop_spec [OF assms] by (cases "spsc_contents N q") auto
  show "SPSCQueue_empty q = (spsc_contents N q = [])" using assms by (rule spsc.is_empty_iff)
  show "pred_sum (\<lambda>_. False) (\<lambda>r. spsc_inv N (snd r)) (SPSCQueue_push N q x)"
    using spsc.push_total [OF assms, of x] by auto
  show "pred_sum (\<lambda>_. False) (\<lambda>r. spsc_inv N (snd r)) (SPSCQueue_pop N q)"
    using spsc.pop_total [OF assms] by auto
qed

theorem SPSCQueue_refines_fifo_witness:
  "spsc_inv 4 (SPSCQueue_new 4 (0 :: nat)) \<and>
   map_sum id (map_prod id (spsc_contents 4)) (SPSCQueue_push 4 (SPSCQueue_new 4 (0 :: nat)) 7) =
     Inr (True, [7])"
proof -
  have i: "spsc_inv 4 (SPSCQueue_new 4 (0 :: nat))"
    by (rule spsc_inv_new) (simp add: spsc_static_assert_def)
  show ?thesis using SPSCQueue_refines_fifo [OF i, of 7] i by (simp add: spec_push_def)
qed

text \<open>
  C5. One producer and one consumer that interleave the atomic accesses of \<^verbatim>\<open>push\<close> and
  \<^verbatim>\<open>pop\<close> in any order: in every reachable state the items popped so far followed by the
  items in the ring are exactly the items pushed so far, in order (nothing is lost, duplicated
  or reordered), at most \<open>N - 1\<close> items are queued, and when both threads are about to touch
  \<^verbatim>\<open>buf_\<close> they touch different slots inside the array.
\<close>

theorem spsc_interleaving_safe:
  assumes "spsc_static_assert N" "spsc_reachable N d s"
  shows "pushed s = popped s @ spsc_contents N (ring s) \<and>
     length (spsc_contents N (ring s)) \<le> unat N - 1 \<and>
     (case (ppc s, cpc s) of
        (PChecked x w, CChecked r) \<Rightarrow> w \<noteq> r \<and> unat w < length (buf (ring s)) \<and> unat r < length (buf (ring s))
      | _ \<Rightarrow> True)"
proof -
  have inv: "spsc_sys_inv N s" using assms by (simp add: spsc_reachable_inv)
  then have q: "spsc_inv N (ring s)" by (simp add: spsc_sys_inv_def)
  have "w \<noteq> r \<and> unat w < length (buf (ring s)) \<and> unat r < length (buf (ring s))"
    if "ppc s = PChecked x w" "cpc s = CChecked r" for x w r
    using that inv q spsc_empty_iff [OF q] by (auto simp: spsc_sys_inv_def spsc_inv_def)
  then show ?thesis
    using inv spsc.bounded [OF q]
    by (simp add: spsc_sys_inv_def split: producer_pc.split consumer_pc.split)
qed

text \<open>The uninterrupted run of the atomic accesses of one operation is the operation.\<close>

lemma spsc_steps_push:
  assumes "spsc_inv N (ring s)" "ppc s = PIdle" "SPSCQueue_push N (ring s) x = Inr (b, q')"
  shows "(spsc_step N)\<^sup>*\<^sup>* s (s\<lparr>ring := q', pushed := pushed s @ (if b then [x] else [])\<rparr>)"
proof -
  let ?w = "wr (ring s)"
  let ?s1 = "s\<lparr>ppc := PLoaded x ?w\<rparr>"
  have 1: "spsc_step N s ?s1" using assms(2) by (rule spsc_step.push_load)
  show ?thesis
  proof (cases "spsc_next N ?w = rd (ring s)")
    case True
    then have "spsc_step N ?s1 (?s1\<lparr>ppc := PIdle\<rparr>)"
      by (intro spsc_step.push_reject [where x = x and w = ?w]) simp_all
    with 1 have "(spsc_step N)\<^sup>*\<^sup>* s (?s1\<lparr>ppc := PIdle\<rparr>)" by (meson r_into_rtranclp rtranclp.rtrancl_into_rtrancl)
    moreover have "?s1\<lparr>ppc := PIdle\<rparr> = s\<lparr>ring := q', pushed := pushed s @ (if b then [x] else [])\<rparr>"
      using True assms(2,3) by (simp add: SPSCQueue_push_def)
    ultimately show ?thesis by simp
  next
    case False
    let ?s2 = "?s1\<lparr>ppc := PChecked x ?w\<rparr>"
    let ?s3 = "?s2\<lparr>ring := (ring ?s2)\<lparr>buf := (buf (ring ?s2))[unat ?w := x]\<rparr>, ppc := PStored x ?w\<rparr>"
    let ?s4 = "?s3\<lparr>ring := (ring ?s3)\<lparr>wr := spsc_next N ?w\<rparr>, ppc := PIdle, pushed := pushed ?s3 @ [x]\<rparr>"
    have "spsc_step N ?s1 ?s2" using False by (intro spsc_step.push_check) simp_all
    moreover have "spsc_step N ?s2 ?s3" by (intro spsc_step.push_write) simp
    moreover have "spsc_step N ?s3 ?s4" by (intro spsc_step.push_publish) simp
    ultimately have "(spsc_step N)\<^sup>*\<^sup>* s ?s4"
      using 1 by (meson r_into_rtranclp rtranclp.rtrancl_into_rtrancl)
    moreover have "?s4 = s\<lparr>ring := q', pushed := pushed s @ (if b then [x] else [])\<rparr>"
      using False assms by (auto simp: SPSCQueue_push_def Let_def split: if_splits)
    ultimately show ?thesis by simp
  qed
qed

lemma spsc_reachable_rtranclp:
  "(spsc_step N)\<^sup>*\<^sup>* s t \<Longrightarrow> spsc_reachable N d s \<Longrightarrow> spsc_reachable N d t"
  by (induction rule: rtranclp_induct) (auto intro: spsc_reachable.step)

theorem spsc_interleaving_safe_witness:
  "spsc_static_assert 4 \<and> (\<exists>s. spsc_reachable 4 (0 :: nat) s \<and> pushed s = [7] \<and>
     pushed s = popped s @ spsc_contents 4 (ring s))"
proof -
  have sa: "spsc_static_assert 4" by (simp add: spsc_static_assert_def)
  have inv: "spsc_inv 4 (SPSCQueue_new 4 (0 :: nat))" using sa by (rule spsc_inv_new)
  have "length (spsc_contents 4 (SPSCQueue_new 4 (0 :: nat))) < unat (4 :: size_t) - 1" by simp
  from spsc.push_ok [OF inv this, of 7] obtain q' where
    p: "SPSCQueue_push 4 (ring (spsc_init 4 (0 :: nat))) 7 = Inr (True, q')" by (auto simp: spsc_init_def)
  have "(spsc_step 4)\<^sup>*\<^sup>* (spsc_init 4 0) ((spsc_init 4 (0 :: nat))\<lparr>ring := q', pushed := [7]\<rparr>)"
    using spsc_steps_push [OF _ _ p] inv by (simp add: spsc_init_def)
  then have r: "spsc_reachable 4 0 ((spsc_init 4 (0 :: nat))\<lparr>ring := q', pushed := [7]\<rparr>)"
    by (rule spsc_reachable_rtranclp) (rule spsc_reachable.init)
  have "pushed ((spsc_init 4 (0 :: nat))\<lparr>ring := q', pushed := [7]\<rparr>) = [7]" by simp
  then show ?thesis using sa r spsc_interleaving_safe [OF sa r] by blast
qed

end
