(* ===== verification/Work_Queue.thy ===== *)
theory Work_Queue
  imports Spsc_Queue
begin

text \<open>
  The blocking submission queue of \<^verbatim>\<open>include/work_queue.h\<close> (class template
  \<^verbatim>\<open>WorkQueue<T, N>\<close>): a ring, a counting semaphore and a stop flag.

  libuv's semaphore is modelled by its count: \<^verbatim>\<open>uv_sem_post\<close> increments it,
  \<^verbatim>\<open>uv_sem_wait\<close> decrements it and blocks while it is 0. The second part interleaves one
  producer, one consumer and one caller of \<^verbatim>\<open>stop()\<close>; \<^verbatim>\<open>push\<close> and \<^verbatim>\<open>pop\<close> are
  single steps there, taking effect where theory \<open>Spsc_Queue\<close> publishes the index.
\<close>

section \<open>State and operations\<close>

record 'a work_queue =
  queue :: "'a spsc"
  sem :: nat
  stopped :: bool

definition WorkQueue_new :: "size_t \<Rightarrow> 'a \<Rightarrow> 'a work_queue" where
  "WorkQueue_new N d = \<lparr>queue = SPSCQueue_new N d, sem = 0, stopped = False\<rparr>"

definition WorkQueue_enqueue :: "size_t \<Rightarrow> 'a work_queue \<Rightarrow> 'a \<Rightarrow> (bool \<times> 'a work_queue) res" where
  "WorkQueue_enqueue N q item =
     res_bind (SPSCQueue_push N (queue q) item)
       (\<lambda>(b, q'). if \<not> b then Inr (False, q\<lparr>queue := q'\<rparr>)
                 else Inr (True, q\<lparr>queue := q', sem := sem q + 1\<rparr>))"

text \<open>The outcomes of \<^verbatim>\<open>dequeue\<close>: it blocks, returns false, or returns true with an item.\<close>

datatype 'a dequeue_outcome = DeqBlocks | DeqFalse | DeqItem 'a

definition WorkQueue_dequeue :: "size_t \<Rightarrow> 'a work_queue \<Rightarrow> ('a dequeue_outcome \<times> 'a work_queue) res" where
  "WorkQueue_dequeue N q =
     (if sem q = 0 then Inr (DeqBlocks, q)
      else
        let q1 = q\<lparr>sem := sem q - 1\<rparr>
        in if stopped q1 then Inr (DeqFalse, q1)
           else res_bind (SPSCQueue_pop N (queue q1))
                  (\<lambda>(r, q'). Inr (case r of None \<Rightarrow> DeqFalse | Some x \<Rightarrow> DeqItem x, q1\<lparr>queue := q'\<rparr>)))"

definition WorkQueue_stop :: "'a work_queue \<Rightarrow> 'a work_queue" where
  "WorkQueue_stop q = q\<lparr>stopped := True, sem := sem q + 1\<rparr>"

text \<open>
  \<^verbatim>\<open>drain\<close> pops until the ring is empty and hands each item to the callback: the result is
  the list of items in the order of the calls. \<open>None\<close> means the fuel ran out; \<open>unat N\<close>
  rounds are always enough (lemma \<open>drain_loop_all\<close>).
\<close>

fun drain_loop :: "size_t \<Rightarrow> nat \<Rightarrow> 'a spsc \<Rightarrow> ('a list \<times> 'a spsc) res option" where
  "drain_loop N 0 q = None"
| "drain_loop N (Suc fuel) q =
     (case SPSCQueue_pop N q of
        Inl e \<Rightarrow> Some (Inl e)
      | Inr (None, q') \<Rightarrow> Some (Inr ([], q'))
      | Inr (Some x, q') \<Rightarrow>
          map_option (\<lambda>r. res_bind r (\<lambda>(xs, q''). Inr (x # xs, q''))) (drain_loop N fuel q'))"

definition WorkQueue_drain :: "size_t \<Rightarrow> 'a work_queue \<Rightarrow> ('a list \<times> 'a work_queue) res option" where
  "WorkQueue_drain N q =
     map_option (\<lambda>r. res_bind r (\<lambda>(xs, q'). Inr (xs, q\<lparr>queue := q'\<rparr>)))
       (drain_loop N (unat N) (queue q))"

definition WorkQueue_empty :: "'a work_queue \<Rightarrow> bool" where
  "WorkQueue_empty q = SPSCQueue_empty (queue q)"

lemma drain_loop_all:
  "spsc_inv N q \<Longrightarrow> length (spsc_contents N q) < fuel \<Longrightarrow>
   \<exists>q'. drain_loop N fuel q = Some (Inr (spsc_contents N q, q')) \<and> spsc_inv N q' \<and> spsc_contents N q' = []"
proof (induction fuel arbitrary: q)
  case 0
  then show ?case by simp
next
  case (Suc fuel)
  show ?case
  proof (cases "spsc_contents N q")
    case Nil
    with Suc.prems show ?thesis by (simp add: spsc.pop_empty)
  next
    case (Cons x xs)
    from spsc.pop_ok [OF Suc.prems(1) Cons] obtain q1 where
      q1: "SPSCQueue_pop N q = Inr (Some x, q1)" "spsc_inv N q1" "spsc_contents N q1 = xs" by blast
    with Suc.IH [of q1] Suc.prems(2) Cons show ?thesis by auto
  qed
qed

section \<open>Producer, consumer and stop, interleaved\<close>

datatype enqueue_pc = EIdle | EPushed
datatype stop_pc = SIdle | SStored | SDone
datatype dequeue_pc = DIdle | DAwake | DPop | DExit

record 'a wq_sys =
  wq :: "'a work_queue"
  epc :: enqueue_pc
  spc :: stop_pc
  dpc :: dequeue_pc       \<comment> \<open>\<open>DExit\<close>: \<^verbatim>\<open>dequeue\<close> returned false, the consumer loop ends\<close>
  enqueued :: "'a list"
  dequeued :: "'a list"

definition wq_init :: "size_t \<Rightarrow> 'a \<Rightarrow> 'a wq_sys" where
  "wq_init N d = \<lparr>wq = WorkQueue_new N d, epc = EIdle, spc = SIdle, dpc = DIdle,
                  enqueued = [], dequeued = []\<rparr>"

inductive wq_step :: "size_t \<Rightarrow> 'a wq_sys \<Rightarrow> 'a wq_sys \<Rightarrow> bool" for N where
  enq_reject: "epc s = EIdle \<Longrightarrow> SPSCQueue_push N (queue (wq s)) x = Inr (False, q') \<Longrightarrow>
     wq_step N s (s\<lparr>wq := (wq s)\<lparr>queue := q'\<rparr>\<rparr>)"
| enq_push: "epc s = EIdle \<Longrightarrow> SPSCQueue_push N (queue (wq s)) x = Inr (True, q') \<Longrightarrow>
     wq_step N s (s\<lparr>wq := (wq s)\<lparr>queue := q'\<rparr>, epc := EPushed, enqueued := enqueued s @ [x]\<rparr>)"
| enq_post: "epc s = EPushed \<Longrightarrow>
     wq_step N s (s\<lparr>wq := (wq s)\<lparr>sem := sem (wq s) + 1\<rparr>, epc := EIdle\<rparr>)"
| stop_store: "spc s = SIdle \<Longrightarrow>
     wq_step N s (s\<lparr>wq := (wq s)\<lparr>stopped := True\<rparr>, spc := SStored\<rparr>)"
| stop_post: "spc s = SStored \<Longrightarrow>
     wq_step N s (s\<lparr>wq := (wq s)\<lparr>sem := sem (wq s) + 1\<rparr>, spc := SDone\<rparr>)"
| deq_wait: "dpc s = DIdle \<Longrightarrow> 0 < sem (wq s) \<Longrightarrow>
     wq_step N s (s\<lparr>wq := (wq s)\<lparr>sem := sem (wq s) - 1\<rparr>, dpc := DAwake\<rparr>)"
| deq_stopped: "dpc s = DAwake \<Longrightarrow> stopped (wq s) \<Longrightarrow> wq_step N s (s\<lparr>dpc := DExit\<rparr>)"
| deq_running: "dpc s = DAwake \<Longrightarrow> \<not> stopped (wq s) \<Longrightarrow> wq_step N s (s\<lparr>dpc := DPop\<rparr>)"
| deq_item: "dpc s = DPop \<Longrightarrow> SPSCQueue_pop N (queue (wq s)) = Inr (Some x, q') \<Longrightarrow>
     wq_step N s (s\<lparr>wq := (wq s)\<lparr>queue := q'\<rparr>, dpc := DIdle, dequeued := dequeued s @ [x]\<rparr>)"
| deq_fail: "dpc s = DPop \<Longrightarrow> SPSCQueue_pop N (queue (wq s)) = Inr (None, q') \<Longrightarrow>
     wq_step N s (s\<lparr>wq := (wq s)\<lparr>queue := q'\<rparr>, dpc := DExit\<rparr>)"

inductive wq_reachable :: "size_t \<Rightarrow> 'a \<Rightarrow> 'a wq_sys \<Rightarrow> bool" for N d where
  init: "wq_reachable N d (wq_init N d)"
| step: "wq_reachable N d s \<Longrightarrow> wq_step N s t \<Longrightarrow> wq_reachable N d t"

text \<open>
  The accounting behind the semaphore: every post belongs to one queued item or to the one
  \<^verbatim>\<open>stop()\<close>, and a consumer past its wait holds one of them.
\<close>

definition wq_sys_inv :: "size_t \<Rightarrow> 'a wq_sys \<Rightarrow> bool" where
  "wq_sys_inv N s \<longleftrightarrow>
     spsc_inv N (queue (wq s)) \<and>
     enqueued s = dequeued s @ spsc_contents N (queue (wq s)) \<and>
     sem (wq s) + of_bool (dpc s \<noteq> DIdle) + of_bool (epc s = EPushed) =
       length (spsc_contents N (queue (wq s))) + of_bool (spc s = SDone) \<and>
     stopped (wq s) = (spc s \<noteq> SIdle) \<and>
     (dpc s = DPop \<longrightarrow> of_bool (epc s = EPushed) < length (spsc_contents N (queue (wq s)))) \<and>
     (epc s = EPushed \<longrightarrow> spsc_contents N (queue (wq s)) \<noteq> []) \<and>
     (dpc s = DExit \<longrightarrow> stopped (wq s))"

lemma wq_step_inv: "wq_step N s t \<Longrightarrow> wq_sys_inv N s \<Longrightarrow> wq_sys_inv N t"
proof (induction rule: wq_step.induct)
  case (enq_reject s x q')
  then have inv: "spsc_inv N (queue (wq s))" by (simp add: wq_sys_inv_def)
  show ?case
    by (cases rule: spsc.push_cases [OF inv enq_reject(2)]) (use enq_reject in \<open>auto simp: wq_sys_inv_def\<close>)
next
  case (enq_push s x q')
  then have inv: "spsc_inv N (queue (wq s))" by (simp add: wq_sys_inv_def)
  show ?case
    by (cases rule: spsc.push_cases [OF inv enq_push(2)]) (use enq_push in \<open>auto simp: wq_sys_inv_def\<close>)
next
  case (deq_item s x q')
  then have inv: "spsc_inv N (queue (wq s))" by (simp add: wq_sys_inv_def)
  show ?case
    by (cases rule: spsc.pop_cases [OF inv deq_item(2)]) (use deq_item in \<open>auto simp: wq_sys_inv_def\<close>)
next
  case (deq_fail s q')
  then have inv: "spsc_inv N (queue (wq s))" by (simp add: wq_sys_inv_def)
  show ?case
    by (cases rule: spsc.pop_cases [OF inv deq_fail(2)]) (use deq_fail in \<open>auto simp: wq_sys_inv_def\<close>)
qed (auto simp: wq_sys_inv_def)

lemma wq_reachable_inv: "wq_reachable N d s \<Longrightarrow> spsc_static_assert N \<Longrightarrow> wq_sys_inv N s"
proof (induction rule: wq_reachable.induct)
  case init
  then show ?case by (simp add: wq_sys_inv_def wq_init_def WorkQueue_new_def spsc_inv_new)
next
  case (step s t)
  then show ?case by (blast intro: wq_step_inv)
qed

section \<open>Properties of the submission queue\<close>

text \<open>
  C6. Producer, consumer and \<^verbatim>\<open>stop()\<close> in any interleaving: the items dequeued so far
  followed by those still queued are the items enqueued, in order; \<^verbatim>\<open>dequeue\<close> returns false
  only after \<^verbatim>\<open>stop()\<close> set the flag; a consumer that would block while the producer is idle
  and no stop is pending has an empty queue in front of it (no wake-up is lost); and once
  \<^verbatim>\<open>stop()\<close> has returned a consumer about to wait does not block.
\<close>

theorem WorkQueue_interleaving_safe:
  assumes "spsc_static_assert N" "wq_reachable N d s"
  shows "enqueued s = dequeued s @ spsc_contents N (queue (wq s)) \<and>
     (dpc s = DExit \<longrightarrow> stopped (wq s)) \<and>
     (dpc s = DIdle \<and> sem (wq s) = 0 \<and> epc s = EIdle \<and> spc s \<noteq> SDone \<longrightarrow> WorkQueue_empty (wq s)) \<and>
     (spc s = SDone \<and> dpc s = DIdle \<longrightarrow> 0 < sem (wq s))"
proof -
  have inv: "wq_sys_inv N s" using assms by (simp add: wq_reachable_inv)
  then have q: "spsc_inv N (queue (wq s))" by (simp add: wq_sys_inv_def)
  have "0 < sem (wq s)" if "spc s = SDone" "dpc s = DIdle"
    using inv that by (cases "epc s") (auto simp: wq_sys_inv_def neq_Nil_conv)
  moreover have "WorkQueue_empty (wq s)"
    if "dpc s = DIdle" "sem (wq s) = 0" "epc s = EIdle" "spc s \<noteq> SDone"
    using inv that spsc.is_empty_iff [OF q] by (auto simp: wq_sys_inv_def WorkQueue_empty_def)
  ultimately show ?thesis using inv unfolding wq_sys_inv_def by blast
qed

text \<open>
  C7. Shutdown keeps every item: when the consumer has left its loop, \<^verbatim>\<open>drain\<close> terminates
  and hands out exactly the enqueued items that were not dequeued, in order, leaving the queue
  empty.
\<close>

theorem WorkQueue_drain_complete:
  assumes "spsc_static_assert N" "wq_reachable N d s"
  shows "\<exists>rest q'. WorkQueue_drain N (wq s) = Some (Inr (rest, q')) \<and>
     enqueued s = dequeued s @ rest \<and> WorkQueue_empty q'"
proof -
  have inv: "wq_sys_inv N s" using assms by (simp add: wq_reachable_inv)
  then have q: "spsc_inv N (queue (wq s))" by (simp add: wq_sys_inv_def)
  from drain_loop_all [OF q spsc_contents_bound [OF q]] obtain q' where
    d: "drain_loop N (unat N) (queue (wq s)) = Some (Inr (spsc_contents N (queue (wq s)), q'))"
      "spsc_inv N q'" "spsc_contents N q' = []" by blast
  then have "WorkQueue_drain N (wq s) =
      Some (Inr (spsc_contents N (queue (wq s)), (wq s)\<lparr>queue := q'\<rparr>))"
    by (simp add: WorkQueue_drain_def)
  moreover have "WorkQueue_empty ((wq s)\<lparr>queue := q'\<rparr>)"
    using d by (simp add: WorkQueue_empty_def spsc.is_empty_iff)
  ultimately show ?thesis using inv by (auto simp: wq_sys_inv_def)
qed

text \<open>
  A run in which the consumer leaves its loop although an item is still queued: the producer
  enqueues 7, \<^verbatim>\<open>stop()\<close> runs, and only then the consumer wakes up.
\<close>

lemma wq_stop_leaves_item:
  "\<exists>s. wq_reachable 4 (0 :: nat) s \<and> dpc s = DExit \<and> enqueued s = [7] \<and> dequeued s = []"
proof -
  let ?s0 = "wq_init 4 (0 :: nat)"
  have inv: "spsc_inv 4 (SPSCQueue_new 4 (0 :: nat))"
    by (rule spsc_inv_new) (simp add: spsc_static_assert_def)
  have "length (spsc_contents 4 (SPSCQueue_new 4 (0 :: nat))) < unat (4 :: size_t) - 1" by simp
  from spsc.push_ok [OF inv this, of 7] obtain q' where
    p: "SPSCQueue_push 4 (queue (wq ?s0)) 7 = Inr (True, q')"
    by (auto simp: wq_init_def WorkQueue_new_def)
  let ?s1 = "?s0\<lparr>wq := (wq ?s0)\<lparr>queue := q'\<rparr>, epc := EPushed, enqueued := enqueued ?s0 @ [7]\<rparr>"
  let ?s2 = "?s1\<lparr>wq := (wq ?s1)\<lparr>sem := sem (wq ?s1) + 1\<rparr>, epc := EIdle\<rparr>"
  let ?s3 = "?s2\<lparr>wq := (wq ?s2)\<lparr>stopped := True\<rparr>, spc := SStored\<rparr>"
  let ?s4 = "?s3\<lparr>wq := (wq ?s3)\<lparr>sem := sem (wq ?s3) - 1\<rparr>, dpc := DAwake\<rparr>"
  let ?s5 = "?s4\<lparr>dpc := DExit\<rparr>"
  have 0: "wq_reachable 4 0 ?s0" by (rule wq_reachable.init)
  have 1: "wq_reachable 4 0 ?s1"
    by (rule wq_reachable.step [OF 0 wq_step.enq_push [OF _ p]]) (simp add: wq_init_def)
  have 2: "wq_reachable 4 0 ?s2" by (rule wq_reachable.step [OF 1 wq_step.enq_post]) simp
  have 3: "wq_reachable 4 0 ?s3"
    by (rule wq_reachable.step [OF 2 wq_step.stop_store]) (simp add: wq_init_def)
  have 4: "wq_reachable 4 0 ?s4"
    by (rule wq_reachable.step [OF 3 wq_step.deq_wait]) (simp_all add: wq_init_def)
  have 5: "wq_reachable 4 0 ?s5" by (rule wq_reachable.step [OF 4 wq_step.deq_stopped]) simp_all
  have "dpc ?s5 = DExit" "enqueued ?s5 = [7]" "dequeued ?s5 = []" by (simp_all add: wq_init_def)
  with 5 show ?thesis by blast
qed

theorem WorkQueue_interleaving_safe_witness:
  "spsc_static_assert 4 \<and> (\<exists>s. wq_reachable 4 (0 :: nat) s \<and> dpc s = DExit \<and> stopped (wq s))"
proof -
  have sa: "spsc_static_assert 4" by (simp add: spsc_static_assert_def)
  obtain s where s: "wq_reachable 4 (0 :: nat) s" "dpc s = DExit" using wq_stop_leaves_item by blast
  show ?thesis using sa s WorkQueue_interleaving_safe [OF sa s(1)] by blast
qed

theorem WorkQueue_drain_complete_witness:
  "spsc_static_assert 4 \<and> (\<exists>s q'. wq_reachable 4 (0 :: nat) s \<and> dpc s = DExit \<and>
     WorkQueue_drain 4 (wq s) = Some (Inr ([7], q')))"
proof -
  have sa: "spsc_static_assert 4" by (simp add: spsc_static_assert_def)
  obtain s where s: "wq_reachable 4 (0 :: nat) s" "dpc s = DExit" "enqueued s = [7]" "dequeued s = []"
    using wq_stop_leaves_item by blast
  show ?thesis using sa s WorkQueue_drain_complete [OF sa s(1)] by auto
qed

text \<open>
  \<^verbatim>\<open>dequeue\<close> after \<^verbatim>\<open>stop()\<close> returns false at once and takes no item, whether or not
  items remain.
\<close>

lemma WorkQueue_dequeue_after_stop:
  "\<exists>s'. WorkQueue_dequeue N (WorkQueue_stop q) = Inr (DeqFalse, s') \<and>
     spsc_contents N (queue s') = spsc_contents N (queue q) \<and> sem s' = sem q"
  by (simp add: WorkQueue_dequeue_def WorkQueue_stop_def)

end
