(* ===== verification/Uv_Stream.thy ===== *)
theory Uv_Stream
  imports Prelude
begin

text \<open>
  The part of libuv's stream layer (\<^verbatim>\<open>deps/libuv/src/unix/stream.c\<close>) that the server uses,
  for TCP sockets: the state of a stream, starting and stopping to read, the write queue, shutdown and
  close. Branches for pipes that pass descriptors and for macOS are left out, since the server
  has no such streams.

  The kernel is an argument of the operations: the results of the successive \<^verbatim>\<open>write\<close> calls.
  Callbacks are values of a type \<open>'cb\<close>; an operation that would call one returns it, and the
  server's model runs it. A request keeps, for each of its buffers, the bytes not yet written and
  where they are stored, because libuv does not copy them: once the function that owns a buffer
  on its stack has returned, the buffer is \<open>LDead\<close> and writing from it is a fault.
\<close>

section \<open>Streams and requests\<close>

definition UV_EAGAIN :: int where "UV_EAGAIN = -11"
definition UV_EBADF :: int where "UV_EBADF = -9"
definition UV_EINVAL :: int where "UV_EINVAL = -22"
definition UV_EPIPE :: int where "UV_EPIPE = -32"
definition UV_ECONNRESET :: int where "UV_ECONNRESET = -104"
definition UV_ENOBUFS :: int where "UV_ENOBUFS = -105"
definition UV_ENOTCONN :: int where "UV_ENOTCONN = -107"
definition UV_EALREADY :: int where "UV_EALREADY = -114"
definition UV_ECANCELED :: int where "UV_ECANCELED = -125"
definition UV_EOF :: int where "UV_EOF = -4095"

lemmas uv_errors = UV_EAGAIN_def UV_EBADF_def UV_EINVAL_def UV_EPIPE_def UV_ECONNRESET_def
  UV_ENOBUFS_def UV_ENOTCONN_def UV_EALREADY_def UV_ECANCELED_def UV_EOF_def

datatype lifetime = LStatic | LHeap nat | LStack | LDead

type_synonym uv_buf = "lifetime \<times> byte list"

record 'cb uv_write_req =
  wr_cb :: 'cb
  wr_bufs :: "uv_buf list"
  wr_error :: int

record ('cb, 'sd) uv_stream =
  fd_open :: bool
  f_reading :: bool
  f_readable :: bool
  f_writable :: bool
  f_shut :: bool
  f_closing :: bool
  f_closed :: bool
  f_read_eof :: bool
  write_queue :: "'cb uv_write_req list"
  write_completed_queue :: "'cb uv_write_req list"
  write_queue_size :: nat
  shutdown_req :: "'sd option"
  wire :: "byte list"

definition uv__stream_init :: "('cb, 'sd) uv_stream" where
  "uv__stream_init =
     \<lparr>fd_open = False, f_reading = False, f_readable = False, f_writable = False, f_shut = False,
      f_closing = False, f_closed = False, f_read_eof = False, write_queue = [],
      write_completed_queue = [], write_queue_size = 0, shutdown_req = None, wire = []\<rparr>"

definition uv_is_closing :: "('cb, 'sd) uv_stream \<Rightarrow> bool" where
  "uv_is_closing st \<longleftrightarrow> f_closing st \<or> f_closed st"

text \<open>\<^verbatim>\<open>uv_accept\<close>: \<open>pending\<close> tells whether the server stream holds an accepted descriptor.\<close>

definition uv_accept :: "bool \<Rightarrow> ('cb, 'sd) uv_stream \<Rightarrow> int \<times> ('cb, 'sd) uv_stream" where
  "uv_accept pending st =
     (if \<not> pending then (UV_EAGAIN, st)
      else (0, st\<lparr>fd_open := True, f_readable := True, f_writable := True\<rparr>))"

section \<open>Reading\<close>

definition uv_read_start :: "('cb, 'sd) uv_stream \<Rightarrow> int \<times> ('cb, 'sd) uv_stream" where
  "uv_read_start st =
     (if f_closing st then (UV_EINVAL, st)
      else if f_reading st then (UV_EALREADY, st)
      else if \<not> f_readable st then (UV_ENOTCONN, st)
      else (0, st\<lparr>f_reading := True, f_read_eof := False\<rparr>))"

definition uv_read_stop :: "('cb, 'sd) uv_stream \<Rightarrow> ('cb, 'sd) uv_stream" where
  "uv_read_stop st = (if \<not> f_reading st then st else st\<lparr>f_reading := False\<rparr>)"

definition uv__stream_eof :: "('cb, 'sd) uv_stream \<Rightarrow> ('cb, 'sd) uv_stream" where
  "uv__stream_eof st = st\<lparr>f_read_eof := True, f_reading := False\<rparr>"

section \<open>Writing\<close>

definition uv__count_bufs :: "uv_buf list \<Rightarrow> nat" where
  "uv__count_bufs bufs = sum_list (map (length \<circ> snd) bufs)"

definition uv__check_before_write :: "('cb, 'sd) uv_stream \<Rightarrow> nat \<Rightarrow> int" where
  "uv__check_before_write st nbufs =
     (if nbufs < 1 \<or> nbufs > 1024 * 1024 then UV_EINVAL
      else if \<not> fd_open st then UV_EBADF
      else if \<not> f_writable st then UV_EPIPE
      else 0)"

text \<open>
  \<^verbatim>\<open>uv__write_req_update\<close>: the buffers still to write after \<open>n\<close> bytes were taken. An empty
  buffer is passed over one call at a time.
\<close>

fun uv__write_req_update :: "uv_buf list \<Rightarrow> nat \<Rightarrow> uv_buf list" where
  "uv__write_req_update [] n = []"
| "uv__write_req_update ((l, b) # bufs) n =
     (let len = min n (length b); b' = drop len b
      in if b' \<noteq> [] then (l, b') # bufs
         else if n - len > 0 then uv__write_req_update bufs (n - len) else bufs)"

text \<open>
  What a call of \<^verbatim>\<open>write\<close> did: take everything offered, take at most so many bytes, or fail.
\<close>

datatype kwrite = KAll | KWrote nat | KError int

definition kwritten :: "kwrite \<Rightarrow> nat \<Rightarrow> nat" where
  "kwritten k offered = (case k of KAll \<Rightarrow> offered | KWrote n \<Rightarrow> min n offered | KError _ \<Rightarrow> 0)"

definition bufs_dead :: "uv_buf list \<Rightarrow> bool" where
  "bufs_dead bufs \<longleftrightarrow> (\<exists>b \<in> set bufs. fst b = LDead \<and> snd b \<noteq> [])"

definition bufs_bytes :: "uv_buf list \<Rightarrow> byte list" where
  "bufs_bytes bufs = concat (map snd bufs)"

text \<open>\<^verbatim>\<open>uv__write_req_finish\<close> for the request at the head of the queue.\<close>

definition uv__write_req_finish ::
    "'cb uv_write_req \<Rightarrow> ('cb, 'sd) uv_stream \<Rightarrow> ('cb, 'sd) uv_stream" where
  "uv__write_req_finish req st =
     st\<lparr>write_queue := tl (write_queue st),
        write_completed_queue := write_completed_queue st @
          [if wr_error req = 0 then req\<lparr>wr_bufs := []\<rparr> else req]\<rparr>"

fun uv__write :: "nat \<Rightarrow> kwrite list \<Rightarrow> ('cb, 'sd) uv_stream \<Rightarrow> ('cb, 'sd) uv_stream res" where
  "uv__write count ks st =
     (case write_queue st of [] \<Rightarrow> Inr st
      | req # rest \<Rightarrow>
          if bufs_dead (wr_bufs req) then Inl UseAfterFree
          else (case ks of [] \<Rightarrow> Inr st
            | k # ks' \<Rightarrow>
              (case k of KError e \<Rightarrow>
                if e = UV_EAGAIN then Inr st
                else Inr (uv__write_req_finish (req\<lparr>wr_error := e\<rparr>) st)
            | _ \<Rightarrow>
                (let n = kwritten k (uv__count_bufs (wr_bufs req));
                     bufs' = uv__write_req_update (wr_bufs req) n;
                     st1 = st\<lparr>write_queue_size := write_queue_size st - n,
                              wire := wire st @ take n (bufs_bytes (wr_bufs req))\<rparr>
                 in if bufs' = [] then
                      (let st2 = uv__write_req_finish req st1
                       in case count of 0 \<Rightarrow> Inr st2 | Suc count' \<Rightarrow> uv__write count' ks' st2)
                    else Inr (st1\<lparr>write_queue := req\<lparr>wr_bufs := bufs'\<rparr> # rest\<rparr>)))))"

declare uv__write.simps [simp del]

definition uv_write ::
    "'cb \<Rightarrow> uv_buf list \<Rightarrow> kwrite list \<Rightarrow> ('cb, 'sd) uv_stream \<Rightarrow> (int \<times> ('cb, 'sd) uv_stream) res" where
  "uv_write cb bufs ks st =
     (let err = uv__check_before_write st (length bufs)
      in if err < 0 then Inr (err, st)
         else
           let empty_queue = (write_queue_size st = 0);
               st1 = st\<lparr>write_queue_size := write_queue_size st + uv__count_bufs bufs,
                        write_queue := write_queue st @ [\<lparr>wr_cb = cb, wr_bufs = bufs, wr_error = 0\<rparr>]\<rparr>
           in if empty_queue then res_bind (uv__write 32 ks st1) (\<lambda>st2. Inr (0, st2))
              else Inr (0, st1))"

text \<open>
  \<^verbatim>\<open>uv__write_callbacks\<close> detaches the completed requests and calls their callbacks in order; the
  result is what to call, with the status.
\<close>

definition uv__write_callbacks :: "('cb, 'sd) uv_stream \<Rightarrow> ('cb \<times> int) list \<times> ('cb, 'sd) uv_stream" where
  "uv__write_callbacks st =
     (map (\<lambda>req. (wr_cb req, wr_error req)) (write_completed_queue st),
      st\<lparr>write_completed_queue := [],
         write_queue_size := write_queue_size st -
           sum_list (map (uv__count_bufs \<circ> wr_bufs) (write_completed_queue st))\<rparr>)"

definition uv__stream_flush_write_queue :: "int \<Rightarrow> ('cb, 'sd) uv_stream \<Rightarrow> ('cb, 'sd) uv_stream" where
  "uv__stream_flush_write_queue err st =
     st\<lparr>write_queue := [],
        write_completed_queue := write_completed_queue st @ map (wr_error_update (\<lambda>_. err)) (write_queue st)\<rparr>"

section \<open>Shutdown and close\<close>

definition uv_shutdown :: "'sd \<Rightarrow> ('cb, 'sd) uv_stream \<Rightarrow> int \<times> ('cb, 'sd) uv_stream" where
  "uv_shutdown cb st =
     (if \<not> f_writable st \<or> f_shut st \<or> shutdown_req st \<noteq> None \<or> uv_is_closing st then (UV_ENOTCONN, st)
      else (0, st\<lparr>shutdown_req := Some cb, f_writable := False\<rparr>))"

text \<open>\<^verbatim>\<open>uv__drain\<close>: \<open>rc\<close> is the result of the system call \<^verbatim>\<open>shutdown\<close>.\<close>

definition uv__drain :: "int \<Rightarrow> ('cb, 'sd) uv_stream \<Rightarrow> ('sd \<times> int) option \<times> ('cb, 'sd) uv_stream" where
  "uv__drain rc st =
     (case shutdown_req st of None \<Rightarrow> (None, st)
      | Some cb \<Rightarrow>
          if f_closing st then (Some (cb, UV_ECANCELED), st\<lparr>shutdown_req := None\<rparr>)
          else if f_shut st then (None, st)
          else if rc < 0 then (Some (cb, rc), st\<lparr>shutdown_req := None\<rparr>)
          else (Some (cb, 0), st\<lparr>shutdown_req := None, f_shut := True\<rparr>))"

text \<open>
  \<^verbatim>\<open>uv_close\<close> on a stream, with \<^verbatim>\<open>uv__stream_close\<close>. Closing a handle twice violates the
  assertion at its top.
\<close>

definition uv__stream_close :: "('cb, 'sd) uv_stream \<Rightarrow> ('cb, 'sd) uv_stream" where
  "uv__stream_close st =
     (uv_read_stop st)\<lparr>f_readable := False, f_writable := False, fd_open := False\<rparr>"

definition uv_close :: "('cb, 'sd) uv_stream \<Rightarrow> ('cb, 'sd) uv_stream res" where
  "uv_close st =
     (if uv_is_closing st then Inl AssertFail
      else Inr (uv__stream_close (st\<lparr>f_closing := True\<rparr>)))"

text \<open>
  When the function that called \<^verbatim>\<open>uv_write\<close> returns, what it had on its stack is gone.
\<close>

definition drop_frame :: "('cb, 'sd) uv_stream \<Rightarrow> ('cb, 'sd) uv_stream" where
  "drop_frame st =
     st\<lparr>write_queue := map (wr_bufs_update (map (\<lambda>(l, b). (if l = LStack then LDead else l, b)))) (write_queue st)\<rparr>"

section \<open>Every byte once and in order\<close>

text \<open>The bytes accepted by \<^verbatim>\<open>uv_write\<close>: those the kernel took, then those still queued.\<close>

definition queued :: "('cb, 'sd) uv_stream \<Rightarrow> byte list" where
  "queued st = concat (map (bufs_bytes \<circ> wr_bufs) (write_queue st))"

lemma bufs_bytes_Cons [simp]: "bufs_bytes ((l, b) # bufs) = b @ bufs_bytes bufs"
  by (simp add: bufs_bytes_def)

lemma bufs_bytes_Nil [simp]: "bufs_bytes [] = []"
  by (simp add: bufs_bytes_def)

lemma uv__count_bufs_bytes: "uv__count_bufs bufs = length (bufs_bytes bufs)"
  by (simp add: uv__count_bufs_def bufs_bytes_def length_concat comp_def)

lemma uv__write_req_update_bytes:
  "n \<le> length (bufs_bytes bufs) \<Longrightarrow> bufs_bytes (uv__write_req_update bufs n) = drop n (bufs_bytes bufs)"
proof (induction bufs n rule: uv__write_req_update.induct)
  case (2 l b bufs n)
  then show ?case by (cases "n \<le> length b") (auto simp: Let_def min_def)
qed simp

lemma kwritten_le: "kwritten k n \<le> n"
  by (simp add: kwritten_def split: kwrite.split)

text \<open>One round of \<^verbatim>\<open>uv__write\<close>, for a request whose buffers still exist.\<close>

lemma uv__write_Nil: "write_queue st = [] \<Longrightarrow> uv__write count ks st = Inr st"
  by (subst uv__write.simps) simp

lemma uv__write_wait:
  assumes "write_queue st = req # rest" "\<not> bufs_dead (wr_bufs req)"
  shows "uv__write count [] st = Inr st"
  using assms by (subst uv__write.simps) simp

lemma uv__write_error:
  assumes "write_queue st = req # rest" "\<not> bufs_dead (wr_bufs req)"
  shows "uv__write count (KError e # ks) st =
       Inr (if e = UV_EAGAIN then st else uv__write_req_finish (req\<lparr>wr_error := e\<rparr>) st)"
  using assms by (subst uv__write.simps) simp

lemma uv__write_some:
  assumes "write_queue st = req # rest" "\<not> bufs_dead (wr_bufs req)" "\<not> (\<exists>e. k = KError e)"
  defines "n \<equiv> kwritten k (uv__count_bufs (wr_bufs req))"
  shows "uv__write count (k # ks) st =
       (if uv__write_req_update (wr_bufs req) n = [] then
          (case count of
             0 \<Rightarrow> Inr (uv__write_req_finish req (st\<lparr>write_queue_size := write_queue_size st - n,
                     wire := wire st @ take n (bufs_bytes (wr_bufs req))\<rparr>))
           | Suc count' \<Rightarrow> uv__write count' ks (uv__write_req_finish req (st\<lparr>write_queue_size := write_queue_size st - n,
                     wire := wire st @ take n (bufs_bytes (wr_bufs req))\<rparr>)))
        else Inr (st\<lparr>write_queue_size := write_queue_size st - n,
                     wire := wire st @ take n (bufs_bytes (wr_bufs req)),
                     write_queue := req\<lparr>wr_bufs := uv__write_req_update (wr_bufs req) n\<rparr> # rest\<rparr>))"
proof -
  have "uv__write count (k # ks) st =
      (let bufs' = uv__write_req_update (wr_bufs req) n;
           st1 = st\<lparr>write_queue_size := write_queue_size st - n,
                    wire := wire st @ take n (bufs_bytes (wr_bufs req))\<rparr>
       in if bufs' = [] then
            (let st2 = uv__write_req_finish req st1
             in case count of 0 \<Rightarrow> Inr st2 | Suc count' \<Rightarrow> uv__write count' ks st2)
          else Inr (st1\<lparr>write_queue := req\<lparr>wr_bufs := bufs'\<rparr> # rest\<rparr>))"
    using assms(1-3) unfolding n_def by (subst uv__write.simps) (cases k; simp; simp only: Let_def)
  then show ?thesis by (simp only: Let_def)
qed

lemma uv__write_dead:
  "write_queue st = req # rest \<Longrightarrow> bufs_dead (wr_bufs req) \<Longrightarrow> uv__write count ks st = Inl UseAfterFree"
  by (subst uv__write.simps) simp

text \<open>
  Induction over the rounds of \<^verbatim>\<open>uv__write\<close>: a property of the stream survives the call if the
  three kinds of round preserve it.
\<close>

lemma uv__write_preserves:
  assumes "uv__write count ks st = Inr st'" "P st"
    and err: "\<And>st req rest e. P st \<Longrightarrow> write_queue st = req # rest \<Longrightarrow> KError e \<in> set ks \<Longrightarrow> e \<noteq> UV_EAGAIN \<Longrightarrow>
      P (uv__write_req_finish (req\<lparr>wr_error := e\<rparr>) st)"
    and part: "\<And>st req rest n. P st \<Longrightarrow> write_queue st = req # rest \<Longrightarrow> n \<le> uv__count_bufs (wr_bufs req) \<Longrightarrow>
      uv__write_req_update (wr_bufs req) n \<noteq> [] \<Longrightarrow>
      P (st\<lparr>write_queue_size := write_queue_size st - n, wire := wire st @ take n (bufs_bytes (wr_bufs req)),
            write_queue := req\<lparr>wr_bufs := uv__write_req_update (wr_bufs req) n\<rparr> # rest\<rparr>)"
    and full: "\<And>st req rest n. P st \<Longrightarrow> write_queue st = req # rest \<Longrightarrow> n \<le> uv__count_bufs (wr_bufs req) \<Longrightarrow>
      uv__write_req_update (wr_bufs req) n = [] \<Longrightarrow>
      P (uv__write_req_finish req (st\<lparr>write_queue_size := write_queue_size st - n,
            wire := wire st @ take n (bufs_bytes (wr_bufs req))\<rparr>))"
  shows "P st'"
  using assms(1,2) err
proof (induction count arbitrary: ks st)
  case (0 ks st)
  show ?case
  proof (cases "write_queue st")
    case Nil
    with 0 show ?thesis by (simp add: uv__write_Nil)
  next
    case (Cons req rest)
    then have nd: "\<not> bufs_dead (wr_bufs req)" using 0(1) uv__write_dead by fastforce
    show ?thesis
    proof (cases ks)
      case Nil
      with 0(1,2) uv__write_wait [OF Cons nd] show ?thesis by simp
    next
      case ks: (Cons k ks')
      show ?thesis
      proof (cases "\<exists>e. k = KError e")
        case True
        then obtain e where "k = KError e" by blast
        with 0 ks uv__write_error [OF Cons nd, of 0 e ks'] Cons show ?thesis by (auto split: if_splits)
      next
        case False
        with 0(1,2) ks uv__write_some [OF Cons nd, of k 0 ks'] Cons
          part [OF 0(2) Cons kwritten_le] full [OF 0(2) Cons kwritten_le]
        show ?thesis by (auto split: if_splits)
      qed
    qed
  qed
next
  case (Suc c ks st)
  show ?case
  proof (cases "write_queue st")
    case Nil
    with Suc.prems show ?thesis by (simp add: uv__write_Nil)
  next
    case (Cons req rest)
    then have nd: "\<not> bufs_dead (wr_bufs req)" using Suc.prems(1) uv__write_dead by fastforce
    show ?thesis
    proof (cases ks)
      case Nil
      with Suc.prems(1,2) uv__write_wait [OF Cons nd] show ?thesis by simp
    next
      case ks: (Cons k ks')
      show ?thesis
      proof (cases "\<exists>e. k = KError e")
        case True
        then obtain e where "k = KError e" by blast
        with Suc.prems ks uv__write_error [OF Cons nd, of "Suc c" e ks'] Cons show ?thesis
          by (auto split: if_splits)
      next
        case False
        note eq = uv__write_some [OF Cons nd False, of "Suc c" ks']
        show ?thesis
        proof (cases "uv__write_req_update (wr_bufs req) (kwritten k (uv__count_bufs (wr_bufs req))) = []")
          case True
          with eq Suc.prems(1) ks
          have "uv__write c ks' (uv__write_req_finish req (st\<lparr>write_queue_size := write_queue_size st - kwritten k (uv__count_bufs (wr_bufs req)),
              wire := wire st @ take (kwritten k (uv__count_bufs (wr_bufs req))) (bufs_bytes (wr_bufs req))\<rparr>)) = Inr st'"
            by simp
          then show ?thesis
          proof (rule Suc.IH [OF _ full [OF Suc.prems(2) Cons kwritten_le True]])
            fix st req rest e
            assume "P st" "write_queue st = req # rest" "KError e \<in> set ks'" "e \<noteq> UV_EAGAIN"
            then show "P (uv__write_req_finish (req\<lparr>wr_error := e\<rparr>) st)" using Suc.prems(3) ks by auto
          qed
        next
          case ne: False
          with eq False Suc.prems(1) ks part [OF Suc.prems(2) Cons kwritten_le ne] Cons show ?thesis by auto
        qed
      qed
    qed
  qed
qed

lemma uv__write_conserves:
  assumes "uv__write count ks st = Inr st'" "\<forall>e. KError e \<in> set ks \<longrightarrow> e = UV_EAGAIN"
  shows "wire st' @ queued st' = wire st @ queued st"
proof (rule uv__write_preserves [OF assms(1), where P = "\<lambda>s. wire s @ queued s = wire st @ queued st"])
  fix s :: "('a, 'b) uv_stream" and req rest n
  assume P: "wire s @ queued s = wire st @ queued st" and q: "write_queue s = req # rest"
    and n: "n \<le> uv__count_bufs (wr_bufs req)"
  have b: "bufs_bytes (uv__write_req_update (wr_bufs req) n) = drop n (bufs_bytes (wr_bufs req))"
    using n by (intro uv__write_req_update_bytes) (simp add: uv__count_bufs_bytes)
  have qs: "queued s = bufs_bytes (wr_bufs req) @ concat (map (bufs_bytes \<circ> wr_bufs) rest)"
    using q by (simp add: queued_def)
  let ?s = "s\<lparr>write_queue_size := write_queue_size s - n, wire := wire s @ take n (bufs_bytes (wr_bufs req)),
            write_queue := req\<lparr>wr_bufs := uv__write_req_update (wr_bufs req) n\<rparr> # rest\<rparr>"
  show "wire ?s @ queued ?s = wire st @ queued st"
    unfolding P [symmetric] qs by (simp add: queued_def b)
  assume e: "uv__write_req_update (wr_bufs req) n = []"
  let ?f = "uv__write_req_finish req (s\<lparr>write_queue_size := write_queue_size s - n,
            wire := wire s @ take n (bufs_bytes (wr_bufs req))\<rparr>)"
  have "take n (bufs_bytes (wr_bufs req)) = bufs_bytes (wr_bufs req)" using b e by simp
  then show "wire ?f @ queued ?f = wire st @ queued st"
    unfolding P [symmetric] qs by (simp add: queued_def uv__write_req_finish_def q)
qed (use assms(2) in auto)

text \<open>The callbacks still to be made, in order: completed requests, then queued ones.\<close>

definition pending_cbs :: "('cb, 'sd) uv_stream \<Rightarrow> 'cb list" where
  "pending_cbs st = map wr_cb (write_completed_queue st @ write_queue st)"

lemma uv__write_pending:
  assumes "uv__write count ks st = Inr st'"
  shows "pending_cbs st' = pending_cbs st"
  by (rule uv__write_preserves [OF assms, where P = "\<lambda>s. pending_cbs s = pending_cbs st"])
     (auto simp: pending_cbs_def uv__write_req_finish_def)

section \<open>Properties\<close>



definition sample_stream :: "(nat, unit) uv_stream" where
  "sample_stream = uv__stream_init\<lparr>fd_open := True, f_writable := True\<rparr>"


end
