(* ===== verification/Client_State.thy ===== *)
theory Client_State
  imports Mem_Pool Uv_Stream
begin

text \<open>
  The per-connection records of \<^verbatim>\<open>include/client_state.h\<close>, the liveness token of
  \<^verbatim>\<open>include/conn_guard.h\<close>, the three pools of \<^verbatim>\<open>include/server_pool.h\<close> and the
  operations of \<^verbatim>\<open>include/client_op.h\<close> on the chain of read buffers.

  Pointers to \<^verbatim>\<open>ReadBuffer\<close>, \<^verbatim>\<open>ClientState\<close> and \<^verbatim>\<open>ConnGuard\<close> objects are slot
  indices of the pool they come from; \<open>None\<close> is the null pointer. Loops over the buffer
  chain carry a round counter bounded by the size of the pool, and exceeding it is the fault
  \<open>NoReturn\<close>: the theorems show that it never happens on a well-formed chain.
\<close>

section \<open>Records\<close>

record read_buffer =
  read_data :: "byte list"
  rb_len :: size_t
  rb_next :: "nat option"

datatype connection_protocol = TYPE_UNKNOWN_CONN | TYPE_HTTP_1 | TYPE_WEB_SOCKET | TYPE_OTHER nat

text \<open>
  The idle timer of a connection as a libuv handle: \<^verbatim>\<open>uv_close\<close> moves a live handle to
  \<open>HClosing\<close>, and its close callback runs once, later. The callbacks the server gives to
  \<^verbatim>\<open>uv_write\<close> and \<^verbatim>\<open>uv_shutdown\<close> are values.
\<close>

datatype uv_handle = HZero | HLive | HClosing | HClosed

datatype write_cb = OnWrite | OnStaticWrite | OnAbortWrite | OnHandshakeWrite | OnFrameWrite

datatype shutdown_cb = OnAbortShutdown | OnShutdown

type_synonym tcp_stream = "(write_cb, shutdown_cb) uv_stream"

record client_state =
  socket :: tcp_stream
  idle_timer :: uv_handle
  write_in_flight :: bool
  closing :: bool
  conn_protocol :: connection_protocol
  recv_head :: "nat option"
  recv_tail :: "nat option"
  pending_write_buffer :: "nat option"
  activeWs :: "nat option"
  server_set :: bool
  guard :: "nat option"
  recv_count :: size_t
  recv_len :: "32 word"

datatype pool_ptr = NullPool | GuardPool | WildPool

record conn_guard =
  alive :: bool
  ref_count :: int
  guard_pool :: pool_ptr

section \<open>What \<^verbatim>\<open>memset\<close> leaves in a slot\<close>

definition read_buffer_fill :: "byte \<Rightarrow> size_t \<Rightarrow> nat option \<Rightarrow> read_buffer" where
  "read_buffer_fill b n nxt = \<lparr>read_data = replicate 256 b, rb_len = n, rb_next = nxt\<rparr>"

definition read_buffer_zero :: read_buffer where
  "read_buffer_zero = read_buffer_fill 0 0 None"

definition read_buffer_poison :: read_buffer where
  "read_buffer_poison = read_buffer_fill 0xAD 0xADADADADADADADAD (Some 0xADADADADADADADAD)"

definition client_state_zero :: client_state where
  "client_state_zero =
     \<lparr>socket = uv__stream_init, idle_timer = HZero, write_in_flight = False, closing = False,
      conn_protocol = TYPE_UNKNOWN_CONN, recv_head = None, recv_tail = None,
      pending_write_buffer = None, activeWs = None, server_set = False, guard = None,
      recv_count = 0, recv_len = 0\<rparr>"

definition client_state_poison :: client_state where
  "client_state_poison =
     \<lparr>socket = uv__stream_init, idle_timer = HClosed, write_in_flight = True, closing = True,
      conn_protocol = TYPE_OTHER 0xAD, recv_head = Some 0xADADADADADADADAD,
      recv_tail = Some 0xADADADADADADADAD, pending_write_buffer = Some 0xADADADADADADADAD,
      activeWs = Some 0xADADADADADADADAD, server_set = False, guard = Some 0xADADADADADADADAD,
      recv_count = 0xADADADADADADADAD, recv_len = 0xADADADAD\<rparr>"

definition conn_guard_zero :: conn_guard where
  "conn_guard_zero = \<lparr>alive = False, ref_count = 0, guard_pool = NullPool\<rparr>"

definition conn_guard_poison :: conn_guard where
  "conn_guard_poison = \<lparr>alive = True, ref_count = - 1381126739, guard_pool = WildPool\<rparr>"

section \<open>\<^verbatim>\<open>ServerPool\<close>\<close>

record server_pool =
  clients :: "client_state mem_pool"
  read_buffers :: "read_buffer mem_pool"
  guards :: "conn_guard mem_pool"

definition DEFAULT_MAX_CONNECTIONS :: size_t where "DEFAULT_MAX_CONNECTIONS = 512"
definition DEFAULT_READ_BUFFER_HEADROOM :: size_t where "DEFAULT_READ_BUFFER_HEADROOM = 8"

definition ServerPool_new :: "size_t \<Rightarrow> server_pool res" where
  "ServerPool_new max_connections =
     res_bind (MemPool_new client_state_zero max_connections ''ClientPool'') (\<lambda>c.
     res_bind (MemPool_new read_buffer_zero (max_connections * DEFAULT_READ_BUFFER_HEADROOM)
                 ''ReadBufferPool'') (\<lambda>r.
     res_bind (MemPool_new conn_guard_zero max_connections ''ConnGuardPool'') (\<lambda>g.
       Inr \<lparr>clients = c, read_buffers = r, guards = g\<rparr>)))"

definition acquire_client :: "server_pool \<Rightarrow> (nat option \<times> server_pool) res" where
  "acquire_client p =
     res_bind (MemPool_acquire client_state_zero (clients p)) (\<lambda>(r, c). Inr (r, p\<lparr>clients := c\<rparr>))"

definition release_client :: "bool \<Rightarrow> server_pool \<Rightarrow> nat option \<Rightarrow> server_pool res" where
  "release_client nd p c =
     res_bind (MemPool_release nd client_state_poison (clients p) c) (\<lambda>c'. Inr (p\<lparr>clients := c'\<rparr>))"

definition acquire_read_buffer :: "server_pool \<Rightarrow> (nat option \<times> server_pool) res" where
  "acquire_read_buffer p =
     res_bind (MemPool_acquire read_buffer_zero (read_buffers p))
       (\<lambda>(r, b). Inr (r, p\<lparr>read_buffers := b\<rparr>))"

definition release_read_buffer :: "bool \<Rightarrow> server_pool \<Rightarrow> nat option \<Rightarrow> server_pool res" where
  "release_read_buffer nd p rb =
     res_bind (MemPool_release nd read_buffer_poison (read_buffers p) rb)
       (\<lambda>b. Inr (p\<lparr>read_buffers := b\<rparr>))"

definition acquire_guard :: "server_pool \<Rightarrow> (nat option \<times> server_pool) res" where
  "acquire_guard p =
     res_bind (MemPool_acquire conn_guard_zero (guards p)) (\<lambda>(r, g). Inr (r, p\<lparr>guards := g\<rparr>))"

definition release_guard :: "bool \<Rightarrow> server_pool \<Rightarrow> nat option \<Rightarrow> server_pool res" where
  "release_guard nd p g =
     res_bind (MemPool_release nd conn_guard_poison (guards p) g) (\<lambda>g'. Inr (p\<lparr>guards := g'\<rparr>))"

definition ServerPool_verify_no_leaks :: "server_pool \<Rightarrow> leak_report list" where
  "ServerPool_verify_no_leaks p =
     [MemPool_verify_no_leaks (clients p), MemPool_verify_no_leaks (read_buffers p),
      MemPool_verify_no_leaks (guards p)]"

section \<open>\<^verbatim>\<open>ConnGuard\<close>\<close>

definition ConnGuard_acquire :: "conn_guard mem_pool \<Rightarrow> nat option \<Rightarrow> conn_guard mem_pool res" where
  "ConnGuard_acquire p g =
     (case g of None \<Rightarrow> Inl NullDeref
      | Some i \<Rightarrow> res_bind (MemPool_get p i)
          (\<lambda>cg. MemPool_set p i (cg\<lparr>ref_count := ref_count cg + 1\<rparr>)))"

definition ConnGuard_release :: "bool \<Rightarrow> conn_guard mem_pool \<Rightarrow> nat option \<Rightarrow> conn_guard mem_pool res" where
  "ConnGuard_release nd p g =
     (case g of None \<Rightarrow> Inl NullDeref
      | Some i \<Rightarrow> res_bind (MemPool_get p i) (\<lambda>cg.
          let cg' = cg\<lparr>ref_count := ref_count cg - 1\<rparr>
          in res_bind (MemPool_set p i cg') (\<lambda>p'.
               if ref_count cg' = 0 then
                 (case guard_pool cg' of
                    NullPool \<Rightarrow> Inl NullDeref
                  | WildPool \<Rightarrow> Inl OutOfBounds
                  | GuardPool \<Rightarrow> MemPool_release nd conn_guard_poison p' (Some i))
               else Inr p')))"

section \<open>\<^verbatim>\<open>client_ops\<close>\<close>

text \<open>
  Each operation takes the client as a pointer. The operations named \<open>\<dots>_body\<close> work on
  the record behind a pointer that is not null.
\<close>

definition with_client ::
    "server_pool \<Rightarrow> nat \<Rightarrow>
     (client_state \<Rightarrow> read_buffer mem_pool \<Rightarrow> (client_state \<times> read_buffer mem_pool) res) \<Rightarrow>
     server_pool res" where
  "with_client sp c f =
     res_bind (MemPool_get (clients sp) c) (\<lambda>client.
     res_bind (f client (read_buffers sp)) (\<lambda>(client', bufs).
     res_bind (MemPool_set (clients sp) c client') (\<lambda>cs.
       Inr (sp\<lparr>clients := cs, read_buffers := bufs\<rparr>))))"

definition recv_new_buffer_body ::
    "nat \<Rightarrow> client_state \<Rightarrow> read_buffer mem_pool \<Rightarrow> (client_state \<times> read_buffer mem_pool) res" where
  "recv_new_buffer_body buff client p =
     res_bind (MemPool_get p buff) (\<lambda>rb.
       let c1 = client\<lparr>recv_len := recv_len client + ucast (rb_len rb)\<rparr>
       in res_bind
            (case recv_head c1 of
               None \<Rightarrow> Inr (c1\<lparr>recv_head := Some buff\<rparr>, p)
             | Some _ \<Rightarrow>
                 (case recv_tail c1 of
                    None \<Rightarrow> Inl NullDeref
                  | Some t \<Rightarrow> res_bind (MemPool_get p t) (\<lambda>tb.
                      res_bind (MemPool_set p t (tb\<lparr>rb_next := Some buff\<rparr>)) (\<lambda>p'. Inr (c1, p')))))
            (\<lambda>(c2, p'). Inr (c2\<lparr>recv_count := recv_count c2 + 1, recv_tail := Some buff\<rparr>, p')))"

definition recv_new_buffer :: "server_pool \<Rightarrow> nat option \<Rightarrow> nat option \<Rightarrow> server_pool res" where
  "recv_new_buffer sp client buff =
     (case (buff, client) of
        (Some b, Some c) \<Rightarrow> with_client sp c (recv_new_buffer_body b)
      | _ \<Rightarrow> Inr sp)"

fun clear_buffer_loop ::
    "bool \<Rightarrow> nat \<Rightarrow> client_state \<Rightarrow> read_buffer mem_pool \<Rightarrow> (client_state \<times> read_buffer mem_pool) res" where
  "clear_buffer_loop nd rounds client p =
     (case recv_head client of
        None \<Rightarrow> Inr (client, p)
      | Some currHead \<Rightarrow>
          (case rounds of 0 \<Rightarrow> Inl NoReturn
           | Suc rounds' \<Rightarrow> res_bind (MemPool_get p currHead) (\<lambda>rb.
               if \<not> server_set client then Inl NullDeref
               else res_bind (MemPool_release nd read_buffer_poison p (Some currHead)) (\<lambda>p'.
                 clear_buffer_loop nd rounds'
                   (client\<lparr>recv_head := rb_next rb, recv_count := recv_count client - 1\<rparr>) p'))))"

declare clear_buffer_loop.simps [simp del]

definition clear_buffer_body ::
    "bool \<Rightarrow> client_state \<Rightarrow> read_buffer mem_pool \<Rightarrow> (client_state \<times> read_buffer mem_pool) res" where
  "clear_buffer_body nd client p =
     res_bind (clear_buffer_loop nd (length (slots p)) client p)
       (\<lambda>(c, p'). Inr (c\<lparr>recv_count := 0, recv_len := 0, recv_head := None, recv_tail := None\<rparr>, p'))"

definition clear_buffer :: "bool \<Rightarrow> server_pool \<Rightarrow> nat option \<Rightarrow> server_pool res" where
  "clear_buffer nd sp client =
     (case client of None \<Rightarrow> Inr sp | Some c \<Rightarrow> with_client sp c (clear_buffer_body nd))"

definition get_recv_packet_len :: "client_state \<Rightarrow> int" where
  "get_recv_packet_len client = sint (recv_len client)"

definition get_recv_packet_count :: "client_state \<Rightarrow> int" where
  "get_recv_packet_count client = sint (ucast (recv_count client) :: 32 word)"

text \<open>
  The copying loop of \<^verbatim>\<open>flatten_buffer\<close> and \<^verbatim>\<open>print_recv_buffer\<close>, one \<^verbatim>\<open>memcpy\<close>
  per buffer into a destination of \<open>room\<close> bytes. A copy that reads past the 256 bytes of a
  buffer or writes past the destination is \<open>OutOfBounds\<close>.
\<close>

fun flatten_loop ::
    "read_buffer mem_pool \<Rightarrow> nat \<Rightarrow> nat \<Rightarrow> nat option \<Rightarrow> byte list \<Rightarrow> byte list res" where
  "flatten_loop p room rounds wh buff =
     (case wh of None \<Rightarrow> Inr buff
      | Some b \<Rightarrow>
          (case rounds of 0 \<Rightarrow> Inl NoReturn
           | Suc rounds' \<Rightarrow> res_bind (MemPool_get p b) (\<lambda>rb.
               if length (read_data rb) < unat (rb_len rb) \<or> room < length buff + unat (rb_len rb)
               then Inl OutOfBounds
               else flatten_loop p room rounds' (rb_next rb)
                      (buff @ take (unat (rb_len rb)) (read_data rb)))))"

declare flatten_loop.simps [simp del]

definition flatten_buffer :: "read_buffer mem_pool \<Rightarrow> client_state \<Rightarrow> nat \<Rightarrow> byte list res" where
  "flatten_buffer p client room = flatten_loop p room (length (slots p)) (recv_head client) []"

text \<open>
  \<^verbatim>\<open>print_recv_buffer\<close> flattens into an array on the stack of \<^verbatim>\<open>recv_len + 1\<close> bytes and
  terminates it; the array is not used further.
\<close>

definition print_recv_buffer :: "read_buffer mem_pool \<Rightarrow> client_state \<Rightarrow> unit res" where
  "print_recv_buffer p client =
     (if sint (recv_len client) = int INT_MAX then Inl SignedOverflow
      else if sint (recv_len client) + 1 \<le> 0 then Inl OutOfBounds
      else res_bind (flatten_buffer p client (nat (sint (recv_len client) + 1))) (\<lambda>_. Inr ()))"

text \<open>
  \<^verbatim>\<open>std::vector<char> buffer_data(client_state->recv_len)\<close> followed by
  \<^verbatim>\<open>flatten_buffer\<close>, as the two request handlers do: a negative length makes the
  constructor throw.
\<close>

definition flatten_recv :: "read_buffer mem_pool \<Rightarrow> client_state \<Rightarrow> byte list res" where
  "flatten_recv p client =
     (if sint (recv_len client) < 0 then Inl BadAlloc
      else flatten_buffer p client (nat (sint (recv_len client))))"

section \<open>Buffer chains\<close>

definition rb_ok :: "read_buffer \<Rightarrow> bool" where
  "rb_ok rb \<longleftrightarrow> length (read_data rb) = 256 \<and> unat (rb_len rb) \<le> 256"

definition rb_bytes :: "read_buffer \<Rightarrow> byte list" where
  "rb_bytes rb = take (unat (rb_len rb)) (read_data rb)"

fun rb_chain :: "(nat \<Rightarrow> read_buffer option) \<Rightarrow> nat option \<Rightarrow> nat list \<Rightarrow> bool" where
  "rb_chain u h [] = (h = None)"
| "rb_chain u h (i # is) =
     (h = Some i \<and> (case u i of None \<Rightarrow> False | Some rb \<Rightarrow> rb_ok rb \<and> rb_chain u (rb_next rb) is))"

definition chain_bytes :: "(nat \<Rightarrow> read_buffer option) \<Rightarrow> nat list \<Rightarrow> byte list" where
  "chain_bytes u ids = concat (map (\<lambda>i. rb_bytes (the (u i))) ids)"

definition client_chain :: "(nat \<Rightarrow> read_buffer option) \<Rightarrow> client_state \<Rightarrow> nat list \<Rightarrow> bool" where
  "client_chain u c ids \<longleftrightarrow>
     rb_chain u (recv_head c) ids \<and> distinct ids \<and>
     recv_tail c = (if ids = [] then None else Some (last ids)) \<and>
     recv_count c = of_nat (length ids) \<and>
     recv_len c = of_nat (length (chain_bytes u ids))"

lemma chain_bytes_simps [simp]:
  "chain_bytes u [] = []"
  "chain_bytes u (i # ids) = rb_bytes (the (u i)) @ chain_bytes u ids"
  "chain_bytes u (ids @ ids') = chain_bytes u ids @ chain_bytes u ids'"
  by (auto simp: chain_bytes_def)

lemma chain_bytes_cong:
  "(\<And>i. i \<in> set ids \<Longrightarrow> u' i = u i) \<Longrightarrow> chain_bytes u' ids = chain_bytes u ids"
  by (auto simp: chain_bytes_def intro!: arg_cong [where f = concat])

lemma rb_chain_cong:
  "(\<And>i. i \<in> set ids \<Longrightarrow> u' i = u i) \<Longrightarrow> rb_chain u' h ids = rb_chain u h ids"
  by (induction ids arbitrary: h) (auto split: option.splits)

lemma client_chain_cong:
  "(\<And>i. i \<in> set ids \<Longrightarrow> u' i = u i) \<Longrightarrow> client_chain u' c ids = client_chain u c ids"
  using rb_chain_cong chain_bytes_cong unfolding client_chain_def by metis

lemma rb_chain_used: "rb_chain u h ids \<Longrightarrow> i \<in> set ids \<Longrightarrow> \<exists>rb. u i = Some rb \<and> rb_ok rb"
  by (induction ids arbitrary: h) (auto split: option.splits)

lemma length_rb_bytes: "rb_ok rb \<Longrightarrow> length (rb_bytes rb) = unat (rb_len rb)"
  by (simp add: rb_ok_def rb_bytes_def)

lemma chain_bytes_bound: "rb_chain u h ids \<Longrightarrow> length (chain_bytes u ids) \<le> 256 * length ids"
proof (induction ids arbitrary: h)
  case (Cons i ids)
  then obtain rb where "u i = Some rb" "rb_ok rb" "rb_chain u (rb_next rb) ids"
    by (auto split: option.splits)
  with Cons.IH [of "rb_next rb"] show ?case by (auto simp: length_rb_bytes rb_ok_def)
qed simp

lemma rb_chain_snoc:
  assumes "rb_chain u h ids" "ids \<noteq> []" "distinct ids" "u (last ids) = Some tb"
    and "u b = Some rb" "rb_ok rb" "rb_next rb = None" "b \<notin> set ids"
  shows "rb_chain (u(last ids \<mapsto> tb\<lparr>rb_next := Some b\<rparr>)) h (ids @ [b])"
  using assms
proof (induction ids arbitrary: h)
  case (Cons i ids)
  show ?case
  proof (cases "ids = []")
    case True
    with Cons.prems show ?thesis by (auto simp: rb_ok_def)
  next
    case False
    with Cons.prems(1) obtain ib where i: "h = Some i" "u i = Some ib" "rb_ok ib"
      "rb_chain u (rb_next ib) ids" by (auto split: option.splits)
    have "i \<noteq> last ids" using Cons.prems(3) False by (metis distinct.simps(2) last_in_set)
    with i False Cons.IH [OF i(4)] Cons.prems show ?thesis by auto
  qed
qed simp

lemma chain_length_slots:
  assumes "rb_chain (pool_used p) h ids" "distinct ids"
  shows "length ids \<le> length (slots p)"
proof -
  have "set ids \<subseteq> {..<length (slots p)}"
    using rb_chain_used [OF assms(1)] by (fastforce simp: pool_used_def split: if_splits)
  then have "card (set ids) \<le> length (slots p)"
    using card_mono [of "{..<length (slots p)}" "set ids"] by simp
  then show ?thesis using assms(2) by (simp add: distinct_card)
qed

lemma client_chain_Nil: "client_chain u c [] \<Longrightarrow> recv_head c = None"
  by (simp add: client_chain_def)

lemma client_chain_zero [simp]: "client_chain u client_state_zero []"
  by (simp add: client_chain_def client_state_zero_def)

section \<open>Correctness of the operations on a chain\<close>

text \<open>The operations touch only the four fields that describe the chain.\<close>

definition recv_frame :: "client_state \<Rightarrow> client_state \<Rightarrow> bool" where
  "recv_frame c c' \<longleftrightarrow>
     c' = c\<lparr>recv_head := recv_head c', recv_tail := recv_tail c', recv_count := recv_count c',
            recv_len := recv_len c'\<rparr>"

lemma recv_frame_clear:
  "recv_frame c c' \<Longrightarrow>
   c'\<lparr>recv_count := 0, recv_len := 0, recv_head := None, recv_tail := None\<rparr> =
   c\<lparr>recv_head := None, recv_tail := None, recv_count := 0, recv_len := 0\<rparr>"
  by (cases c; cases c') (simp add: recv_frame_def)

lemma recv_new_buffer_chain:
  assumes inv: "pool_inv p" and ch: "client_chain (pool_used p) c ids"
    and b: "pool_used p b = Some rb" "rb_ok rb" "rb_next rb = None" "b \<notin> set ids"
  shows "\<exists>c' p'. recv_new_buffer_body b c p = Inr (c', p') \<and> pool_inv p' \<and>
    client_chain (pool_used p') c' (ids @ [b]) \<and>
    chain_bytes (pool_used p') (ids @ [b]) = chain_bytes (pool_used p) ids @ rb_bytes rb \<and>
    pool_free p' = pool_free p \<and>
    (\<forall>i. i \<notin> set ids \<longrightarrow> pool_used p' i = pool_used p i) \<and>
    recv_frame c c'"
proof (cases "ids = []")
  case True
  with ch have "recv_head c = None" "recv_count c = 0" "recv_len c = 0" by (auto simp: client_chain_def)
  moreover have "MemPool_get p b = Inr rb" using b by (simp add: mp.get_iff)
  ultimately show ?thesis
    using True b inv
    by (intro exI [of _ "c\<lparr>recv_head := Some b, recv_tail := Some b, recv_count := 1,
                        recv_len := ucast (rb_len rb)\<rparr>"] exI [of _ p])
       (auto simp: recv_new_buffer_body_def client_chain_def recv_frame_def length_rb_bytes)
next
  case False
  define t where "t = last ids"
  have t: "recv_tail c = Some t" "t \<in> set ids" "t \<noteq> b"
    using ch False b(4) by (auto simp: client_chain_def t_def dest: last_in_set)
  obtain tb where tb: "pool_used p t = Some tb" "rb_ok tb"
    using rb_chain_used [of "pool_used p" "recv_head c" ids t] ch t(2) by (auto simp: client_chain_def)
  obtain h where h: "recv_head c = Some h" using ch False by (cases ids) (auto simp: client_chain_def)
  from mp.store_used [OF inv tb(1), of "tb\<lparr>rb_next := Some b\<rparr>"]
  obtain p' where p': "MemPool_set p t (tb\<lparr>rb_next := Some b\<rparr>) = Inr p'" "pool_inv p'"
    "pool_free p' = pool_free p" "pool_used p' = (pool_used p)(t \<mapsto> tb\<lparr>rb_next := Some b\<rparr>)" by blast
  let ?c' = "c\<lparr>recv_len := recv_len c + ucast (rb_len rb), recv_count := recv_count c + 1,
               recv_tail := Some b\<rparr>"
  have ex: "recv_new_buffer_body b c p = Inr (?c', p')"
    using p'(1) tb b h t by (simp add: recv_new_buffer_body_def Let_def mp.get_iff [THEN iffD2])
  have bytes: "chain_bytes (pool_used p') (ids @ [b]) = chain_bytes (pool_used p) ids @ rb_bytes rb"
    using tb t b by (auto simp: p'(4) chain_bytes_def rb_bytes_def intro!: arg_cong [where f = concat])
  have ch': "client_chain (pool_used p') ?c' (ids @ [b])"
    using ch b rb_chain_snoc [OF _ False _ tb(1) [unfolded t_def] b(1-3) b(4), of "recv_head c"] bytes
    by (auto simp: client_chain_def p'(4) t_def length_rb_bytes)
  show ?thesis
    using ex p' ch' bytes t by (intro exI [of _ ?c'] exI [of _ p']) (auto simp: recv_frame_def)
qed

lemma clear_loop_chain:
  assumes "pool_inv p" "rb_chain (pool_used p) (recv_head c) ids" "distinct ids"
    and "length ids \<le> rounds" "server_set c"
  shows "\<exists>c' p'. clear_buffer_loop nd rounds c p = Inr (c', p') \<and> pool_inv p' \<and>
    pool_free p' = rev ids @ pool_free p \<and>
    pool_used p' = (\<lambda>i. if i \<in> set ids then None else pool_used p i) \<and> recv_frame c c'"
  using assms
proof (induction ids arbitrary: c p rounds)
  case Nil
  then show ?case by (subst clear_buffer_loop.simps) (simp add: recv_frame_def)
next
  case (Cons i ids)
  from Cons.prems(2) obtain rb where rb: "recv_head c = Some i" "pool_used p i = Some rb"
    "rb_chain (pool_used p) (rb_next rb) ids" by (auto split: option.splits)
  obtain n where n: "rounds = Suc n" "length ids \<le> n" using Cons.prems(4) by (cases rounds) auto
  from mp.release_used [OF Cons.prems(1) rb(2), of nd read_buffer_poison]
  obtain p1 where p1: "MemPool_release nd read_buffer_poison p (Some i) = Inr p1" "pool_inv p1"
    "pool_free p1 = i # pool_free p" "pool_used p1 = (pool_used p)(i := None)" by blast
  let ?c = "c\<lparr>recv_head := rb_next rb, recv_count := recv_count c - 1\<rparr>"
  have "rb_chain (pool_used p1) (recv_head ?c) ids"
    using rb(3) Cons.prems(3) by (subst rb_chain_cong [of ids _ "pool_used p"]) (auto simp: p1(4))
  then obtain c' p' where *: "clear_buffer_loop nd n ?c p1 = Inr (c', p')" "pool_inv p'"
    "pool_free p' = rev ids @ pool_free p1"
    "pool_used p' = (\<lambda>j. if j \<in> set ids then None else pool_used p1 j)" "recv_frame ?c c'"
    using Cons.IH [of p1 ?c n] p1(2) Cons.prems(3,5) n(2) by auto
  have "clear_buffer_loop nd rounds c p = Inr (c', p')"
    using rb n p1(1) *(1) Cons.prems(5)
    by (subst clear_buffer_loop.simps) (simp add: mp.get_iff [THEN iffD2])
  with * p1 show ?case by (auto simp: fun_eq_iff recv_frame_def)
qed

lemma clear_buffer_chain:
  assumes "pool_inv p" "client_chain (pool_used p) c ids" "server_set c"
  shows "\<exists>c' p'. clear_buffer_body nd c p = Inr (c', p') \<and> pool_inv p' \<and>
    pool_free p' = rev ids @ pool_free p \<and>
    pool_used p' = (\<lambda>i. if i \<in> set ids then None else pool_used p i) \<and>
    c' = c\<lparr>recv_head := None, recv_tail := None, recv_count := 0, recv_len := 0\<rparr>"
proof -
  from assms(2) have ch: "rb_chain (pool_used p) (recv_head c) ids" "distinct ids"
    by (auto simp: client_chain_def)
  from clear_loop_chain [OF assms(1) ch chain_length_slots [OF ch] assms(3), of nd]
  show ?thesis by (auto simp: clear_buffer_body_def recv_frame_clear)
qed

lemma flatten_loop_chain:
  assumes "rb_chain (pool_used p) wh ids" "length ids \<le> rounds"
    and "length buff + length (chain_bytes (pool_used p) ids) \<le> room"
  shows "flatten_loop p room rounds wh buff = Inr (buff @ chain_bytes (pool_used p) ids)"
  using assms
proof (induction ids arbitrary: wh buff rounds)
  case Nil
  then show ?case by (subst flatten_loop.simps) simp
next
  case (Cons i ids)
  from Cons.prems(1) obtain rb where rb: "wh = Some i" "pool_used p i = Some rb" "rb_ok rb"
    "rb_chain (pool_used p) (rb_next rb) ids" by (auto split: option.splits)
  obtain n where n: "rounds = Suc n" "length ids \<le> n" using Cons.prems(2) by (cases rounds) auto
  have len: "length (rb_bytes rb) = unat (rb_len rb)" using rb(3) by (rule length_rb_bytes)
  have "flatten_loop p room rounds wh buff = flatten_loop p room n (rb_next rb) (buff @ rb_bytes rb)"
    using rb n Cons.prems(3) len
    by (subst flatten_loop.simps) (auto simp: mp.get_iff [THEN iffD2] rb_ok_def rb_bytes_def)
  also have "\<dots> = Inr ((buff @ rb_bytes rb) @ chain_bytes (pool_used p) ids)"
    using rb(2) Cons.prems(3) by (intro Cons.IH [OF rb(4) n(2)]) simp
  finally show ?case using rb(2) by simp
qed

lemma flatten_buffer_chain:
  assumes "client_chain (pool_used p) c ids" "length (chain_bytes (pool_used p) ids) \<le> room"
  shows "flatten_buffer p c room = Inr (chain_bytes (pool_used p) ids)"
proof -
  from assms(1) have ch: "rb_chain (pool_used p) (recv_head c) ids" "distinct ids"
    by (auto simp: client_chain_def)
  from flatten_loop_chain [OF ch(1) chain_length_slots [OF ch], of "[]" room] assms(2)
  show ?thesis by (simp add: flatten_buffer_def)
qed

text \<open>
  The accumulated length is an \<^verbatim>\<open>int\<close>. With at most \<open>8388607\<close> buffers of 256 bytes it
  cannot wrap (the server's own pool has 4096).
\<close>

lemma sint_recv_len:
  assumes "client_chain (pool_used p) c ids" "length (slots p) \<le> 8388607"
  shows "sint (recv_len c) = int (length (chain_bytes (pool_used p) ids))"
    "length (chain_bytes (pool_used p) ids) < INT_MAX"
proof -
  from assms(1) have ch: "rb_chain (pool_used p) (recv_head c) ids" "distinct ids"
    by (auto simp: client_chain_def)
  have "length (chain_bytes (pool_used p) ids) \<le> 256 * 8388607"
    using chain_bytes_bound [OF ch(1)] chain_length_slots [OF ch] assms(2) by simp
  then have b: "length (chain_bytes (pool_used p) ids) < 2147483647" by simp
  then show "length (chain_bytes (pool_used p) ids) < INT_MAX" by (simp add: INT_MAX_def)
  show "sint (recv_len c) = int (length (chain_bytes (pool_used p) ids))"
    using assms(1) b by (simp add: client_chain_def signed_of_nat signed_take_bit_int_eq_self_iff)
qed

lemma flatten_recv_chain:
  assumes "client_chain (pool_used p) c ids" "length (slots p) \<le> 8388607"
  shows "flatten_recv p c = Inr (chain_bytes (pool_used p) ids)"
  using sint_recv_len [OF assms] flatten_buffer_chain [OF assms(1)] by (simp add: flatten_recv_def)

lemma print_recv_buffer_chain:
  assumes "client_chain (pool_used p) c ids" "length (slots p) \<le> 8388607"
  shows "print_recv_buffer p c = Inr ()"
  using sint_recv_len [OF assms] flatten_buffer_chain [OF assms(1)]
  by (simp add: print_recv_buffer_def nat_add_distrib)

section \<open>Receiving a message in pieces\<close>

text \<open>
  One read event: \<^verbatim>\<open>on_alloc_buffer_cb\<close> takes a buffer from the pool, libuv stores at most
  256 bytes in it, and the request handlers set its length and append it to the chain.
  \<open>None\<close> is the case of an exhausted pool, in which nothing is read.
\<close>

definition receive_chunk ::
    "byte list \<Rightarrow> client_state \<Rightarrow> read_buffer mem_pool \<Rightarrow> (client_state \<times> read_buffer mem_pool) option res" where
  "receive_chunk bs client p =
     res_bind (MemPool_acquire read_buffer_zero p) (\<lambda>(r, p1).
       case r of None \<Rightarrow> Inr None
       | Some b \<Rightarrow> res_bind (MemPool_get p1 b) (\<lambda>rb.
           if length bs > 256 then Inl OutOfBounds
           else res_bind (MemPool_set p1 b (rb\<lparr>read_data := bs @ drop (length bs) (read_data rb),
                                               rb_len := of_nat (length bs)\<rparr>)) (\<lambda>p2.
                  res_bind (recv_new_buffer_body b client p2) (\<lambda>cp. Inr (Some cp)))))"

fun receive_chunks ::
    "byte list list \<Rightarrow> client_state \<Rightarrow> read_buffer mem_pool \<Rightarrow> (client_state \<times> read_buffer mem_pool) option res" where
  "receive_chunks [] client p = Inr (Some (client, p))"
| "receive_chunks (bs # bss) client p =
     res_bind (receive_chunk bs client p) (\<lambda>r.
       case r of None \<Rightarrow> Inr None | Some (client', p') \<Rightarrow> receive_chunks bss client' p')"

lemma receive_chunk_chain:
  assumes inv: "pool_inv p" and ch: "client_chain (pool_used p) c ids"
    and fr: "pool_free p = b # fl" and len: "length bs \<le> 256"
  shows "\<exists>c' p'. receive_chunk bs c p = Inr (Some (c', p')) \<and> pool_inv p' \<and> pool_free p' = fl \<and>
    client_chain (pool_used p') c' (ids @ [b]) \<and> b \<notin> set ids \<and>
    chain_bytes (pool_used p') (ids @ [b]) = chain_bytes (pool_used p) ids @ bs \<and>
    pool_used p b = None \<and>
    (\<forall>i. i \<notin> set (ids @ [b]) \<longrightarrow> pool_used p' i = pool_used p i) \<and> recv_frame c c'"
proof -
  have pb: "pool_used p b = None" using mp.free_unused [OF inv] fr by simp
  have nb: "b \<notin> set ids"
  proof
    assume "b \<in> set ids"
    then have "pool_used p b \<noteq> None"
      using ch rb_chain_used [of "pool_used p" "recv_head c" ids b] by (auto simp: client_chain_def)
    with pb show False by simp
  qed
  from mp.acquire_some [OF inv fr, of read_buffer_zero]
  obtain p1 where p1: "MemPool_acquire read_buffer_zero p = Inr (Some b, p1)" "pool_inv p1"
    "pool_free p1 = fl" "pool_used p1 = (pool_used p)(b \<mapsto> read_buffer_zero)" by blast
  let ?rb = "read_buffer_zero\<lparr>read_data := bs @ drop (length bs) (read_data read_buffer_zero),
              rb_len := of_nat (length bs)\<rparr>"
  have u1: "pool_used p1 b = Some read_buffer_zero" by (simp add: p1(4))
  from mp.store_used [OF p1(2) u1, of ?rb]
  obtain p2 where p2: "MemPool_set p1 b ?rb = Inr p2" "pool_inv p2" "pool_free p2 = pool_free p1"
    "pool_used p2 = (pool_used p1)(b \<mapsto> ?rb)" by blast
  have unat: "unat (of_nat (length bs) :: size_t) = length bs"
    using len by (intro unat_of_nat_64) simp
  have ok: "rb_ok ?rb" "rb_next ?rb = None" "rb_bytes ?rb = bs"
    using len unat by (auto simp: rb_ok_def rb_bytes_def read_buffer_zero_def read_buffer_fill_def)
  have ch2: "client_chain (pool_used p2) c ids"
    using ch nb by (subst client_chain_cong [of ids _ "pool_used p"]) (auto simp: p2(4) p1(4))
  have by2: "chain_bytes (pool_used p2) ids = chain_bytes (pool_used p) ids"
    using nb by (intro chain_bytes_cong) (auto simp: p2(4) p1(4))
  have u2: "pool_used p2 b = Some ?rb" by (simp add: p2(4))
  from recv_new_buffer_chain [OF p2(2) ch2 u2 ok(1,2) nb]
  obtain c' p' where *: "recv_new_buffer_body b c p2 = Inr (c', p')" "pool_inv p'"
    "client_chain (pool_used p') c' (ids @ [b])" "recv_frame c c'"
    "chain_bytes (pool_used p') (ids @ [b]) = chain_bytes (pool_used p2) ids @ rb_bytes ?rb"
    "pool_free p' = pool_free p2" "\<forall>i. i \<notin> set ids \<longrightarrow> pool_used p' i = pool_used p2 i" by blast
  have "receive_chunk bs c p = Inr (Some (c', p'))"
    using p1(1) u1 p2(1) *(1) len by (simp add: receive_chunk_def mp.get_iff [THEN iffD2])
  with * p1 p2 pb nb ok(3) by2 show ?thesis by auto
qed

lemma receive_chunk_length:
  "receive_chunk bs c p = Inr (Some (c', p')) \<Longrightarrow> length (slots p') = length (slots p)"
  by (auto simp: receive_chunk_def recv_new_buffer_body_def res_simps Let_def
      dest!: MemPool_acquire_length MemPool_set_length split: option.splits if_splits)

lemma receive_chunks_length:
  "receive_chunks bss c p = Inr (Some (c', p')) \<Longrightarrow> length (slots p') = length (slots p)"
  by (induction bss arbitrary: c p)
     (auto simp: res_simps split: option.splits dest!: receive_chunk_length)

lemma receive_chunks_chain:
  assumes "pool_inv p" "client_chain (pool_used p) c ids"
    and "length bss \<le> length (pool_free p)" "\<forall>bs \<in> set bss. length bs \<le> 256"
  shows "\<exists>c' p' new. receive_chunks bss c p = Inr (Some (c', p')) \<and> pool_inv p' \<and>
    pool_free p = new @ pool_free p' \<and> length new = length bss \<and>
    client_chain (pool_used p') c' (ids @ new) \<and>
    chain_bytes (pool_used p') (ids @ new) = chain_bytes (pool_used p) ids @ concat bss \<and>
    (\<forall>i \<in> set new. pool_used p i = None) \<and>
    (\<forall>i. i \<notin> set (ids @ new) \<longrightarrow> pool_used p' i = pool_used p i) \<and> recv_frame c c'"
  using assms
proof (induction bss arbitrary: c p ids)
  case Nil
  then show ?case by (intro exI [of _ c] exI [of _ p] exI [of _ "[]"]) (auto simp: recv_frame_def)
next
  case (Cons bs bss)
  from Cons.prems(3) obtain b fl where fr: "pool_free p = b # fl" "length bss \<le> length fl"
    by (cases "pool_free p") auto
  from receive_chunk_chain [OF Cons.prems(1,2) fr(1), of bs] Cons.prems(4)
  obtain c1 p1 where 1: "receive_chunk bs c p = Inr (Some (c1, p1))" "pool_inv p1" "pool_free p1 = fl"
    "client_chain (pool_used p1) c1 (ids @ [b])" "b \<notin> set ids" "pool_used p b = None"
    "chain_bytes (pool_used p1) (ids @ [b]) = chain_bytes (pool_used p) ids @ bs"
    "\<forall>i. i \<notin> set (ids @ [b]) \<longrightarrow> pool_used p1 i = pool_used p i" "recv_frame c c1" by auto
  from Cons.IH [OF 1(2,4)] fr(2) 1(3) Cons.prems(4)
  obtain c' p' new where 2: "receive_chunks bss c1 p1 = Inr (Some (c', p'))" "pool_inv p'"
    "pool_free p1 = new @ pool_free p'" "client_chain (pool_used p') c' ((ids @ [b]) @ new)"
    "length new = length bss"
    "chain_bytes (pool_used p') ((ids @ [b]) @ new) = chain_bytes (pool_used p1) (ids @ [b]) @ concat bss"
    "\<forall>i \<in> set new. pool_used p1 i = None"
    "\<forall>i. i \<notin> set ((ids @ [b]) @ new) \<longrightarrow> pool_used p' i = pool_used p1 i" "recv_frame c1 c'" by auto
  have "\<forall>i \<in> set (b # new). pool_used p i = None"
    using mp.free_unused [OF Cons.prems(1)] fr(1) 1(3) 2(3) by auto
  moreover have "recv_frame c c'" using 1(9) 2(9) by (cases c; cases c1; cases c') (auto simp: recv_frame_def)
  moreover have "\<forall>i. i \<notin> set (ids @ b # new) \<longrightarrow> pool_used p' i = pool_used p i"
    using 1(8) 2(8) by auto
  moreover have "receive_chunks (bs # bss) c p = Inr (Some (c', p'))" using 1(1) 2(1) by simp
  moreover have "pool_free p = (b # new) @ pool_free p'" using fr(1) 1(3) 2(3) by simp
  moreover have "client_chain (pool_used p') c' (ids @ b # new)" using 2(4) by simp
  moreover have "chain_bytes (pool_used p') (ids @ b # new) = chain_bytes (pool_used p) ids @ concat (bs # bss)"
    using 2(6) 1(7) by (simp del: chain_bytes_simps(3) add: chain_bytes_simps(3) [symmetric])
  moreover have "length (b # new) = length (bs # bss)" using 2(5) by simp
  ultimately show ?case using 2(2) by blast
qed

section \<open>Properties\<close>

text \<open>
  C8. Reassembly of a message that arrives in pieces. From a connection with an empty chain, and
  as long as the pool has a free buffer per piece, reading the pieces \<open>bss\<close> (at most 256 bytes
  each) succeeds and \<^verbatim>\<open>flatten_buffer\<close> into a vector of \<^verbatim>\<open>recv_len\<close> bytes yields exactly
  their concatenation, without a read or write out of bounds and without wrapping
  \<^verbatim>\<open>recv_len\<close>. \<^verbatim>\<open>clear_buffer\<close> then terminates, puts every buffer back, leaves every
  other object of the pool as it was, and leaves the connection with an empty chain again.
\<close>

theorem recv_reassembly:
  assumes "pool_inv p" "client_chain (pool_used p) c []" "server_set c"
    and "length bss \<le> length (pool_free p)" "\<forall>bs \<in> set bss. length bs \<le> 256"
    and "length (slots p) \<le> 8388607"
  shows "\<exists>c' p'. receive_chunks bss c p = Inr (Some (c', p')) \<and>
    flatten_recv p' c' = Inr (concat bss) \<and>
    get_recv_packet_len c' = int (length (concat bss)) \<and>
    get_recv_packet_count c' = int (length bss) \<and>
    (\<exists>c'' p''. clear_buffer_body nd c' p' = Inr (c'', p'') \<and> pool_inv p'' \<and>
       pool_used p'' = pool_used p \<and> set (pool_free p'') = set (pool_free p) \<and>
       client_chain (pool_used p'') c'' [] \<and> recv_frame c c'')"
proof -
  from receive_chunks_chain [OF assms(1,2,4,5)]
  obtain c' p' new where r: "receive_chunks bss c p = Inr (Some (c', p'))" "pool_inv p'"
    "pool_free p = new @ pool_free p'" "client_chain (pool_used p') c' new"
    "chain_bytes (pool_used p') new = concat bss" "\<forall>i \<in> set new. pool_used p i = None"
    "\<forall>i. i \<notin> set new \<longrightarrow> pool_used p' i = pool_used p i" "recv_frame c c'" "length new = length bss" by auto
  from receive_chunks_length [OF r(1)] have sl: "length (slots p') \<le> 8388607" using assms(6) by simp
  have srv: "server_set c'" using r(8) assms(3) by (cases c; cases c') (simp add: recv_frame_def)
  from clear_buffer_chain [OF r(2,4) srv, of nd]
  obtain c'' p'' where cl: "clear_buffer_body nd c' p' = Inr (c'', p'')" "pool_inv p''"
    "pool_free p'' = rev new @ pool_free p'"
    "pool_used p'' = (\<lambda>i. if i \<in> set new then None else pool_used p' i)"
    "c'' = c'\<lparr>recv_head := None, recv_tail := None, recv_count := 0, recv_len := 0\<rparr>" by blast
  have "length new \<le> length (slots p')" using r(4) chain_length_slots by (auto simp: client_chain_def)
  then have cnt: "get_recv_packet_count c' = int (length bss)"
    using r(4,9) sl by (simp add: get_recv_packet_count_def client_chain_def unsigned_of_nat
       take_bit_nat_eq_self signed_of_nat signed_take_bit_int_eq_self_iff)
  have "pool_used p'' = pool_used p" using cl(4) r(6,7) by (auto simp: fun_eq_iff)
  moreover have "recv_frame c c''" using r(8) cl(5) by (cases c; cases c') (simp add: recv_frame_def)
  ultimately show ?thesis
    using r cl cnt flatten_recv_chain [OF r(4) sl] sint_recv_len(1) [OF r(4) sl]
    by (auto simp: get_recv_packet_len_def client_chain_def)
qed

theorem recv_reassembly_witness:
  "\<exists>p c' p'. MemPool_new read_buffer_zero 4 ''ReadBufferPool'' = Inr p \<and>
     receive_chunks [[71, 69], [84], []] (client_state_zero\<lparr>server_set := True\<rparr>) p = Inr (Some (c', p')) \<and>
     flatten_recv p' c' = Inr [71, 69, 84]"
proof -
  have "unat (4 :: size_t) \<le> INT_MAX" by (simp add: INT_MAX_def)
  from MemPool_new_rep [OF this, of read_buffer_zero "''ReadBufferPool''"]
  obtain p where p: "MemPool_new read_buffer_zero 4 ''ReadBufferPool'' = Inr p" "pool_rep p [0..<4]"
    "mp_capacity p = 4" by auto
  have inv: "pool_inv p" and fr: "length (pool_free p) = 4" and sl: "length (slots p) \<le> 8388607"
    using p(2) pool_rep_free [OF p(2)] by (auto simp: pool_inv_iff) (simp add: pool_rep_def p(3))
  have ch: "client_chain (pool_used p) (client_state_zero\<lparr>server_set := True\<rparr>) []"
    by (simp add: client_chain_def client_state_zero_def)
  from recv_reassembly [OF inv ch, of "[[71, 69], [84], []]" True] fr sl p(1)
  show ?thesis by (auto simp del: receive_chunks.simps)
qed

end
