(* ===== verification/Http_Parser.thy ===== *)
theory Http_Parser
  imports Prelude
begin

text \<open>
  The HTTP parser \<^verbatim>\<open>deps/picohttpparser/picohttpparser.c\<close>, which
  \<^verbatim>\<open>Server::process_http_1_request\<close> calls on the bytes received so far.

  The pointer pair \<^verbatim>\<open>buf\<close>, \<^verbatim>\<open>buf_end\<close> is the list of the bytes that are left; a token
  (pointer and length) is the list of its bytes. A function returns \<open>Parsed\<close> with the
  rest of the input, \<open>Ret r\<close> for \<^verbatim>\<open>*ret = r; return NULL\<close>, or \<open>OobRead\<close> when the code
  would dereference \<^verbatim>\<open>buf\<close> at or after \<^verbatim>\<open>buf_end\<close>.

  The argument \<open>sse\<close> chooses between the code with and without \<^verbatim>\<open>__SSE4_2__\<close>.
\<close>

section \<open>Results and characters\<close>

datatype 'a parsed = Parsed 'a | Ret int | OobRead

fun pbind :: "'a parsed \<Rightarrow> ('a \<Rightarrow> 'b parsed) \<Rightarrow> 'b parsed" where
  "pbind (Parsed x) f = f x"
| "pbind (Ret r) f = Ret r"
| "pbind OobRead f = OobRead"

lemma pbind_cong [fundef_cong]:
  "m = m' \<Longrightarrow> (\<And>x. m' = Parsed x \<Longrightarrow> f x = f' x) \<Longrightarrow> pbind m f = pbind m' f'"
  by (cases m') auto

lemma pbind_eq_Parsed: "pbind m f = Parsed y \<longleftrightarrow> (\<exists>x. m = Parsed x \<and> f x = Parsed y)"
  by (cases m) auto

lemma pbind_eq_Ret: "pbind m f = Ret r \<longleftrightarrow> m = Ret r \<or> (\<exists>x. m = Parsed x \<and> f x = Ret r)"
  by (cases m) auto

lemma pbind_eq_Oob: "pbind m f = OobRead \<longleftrightarrow> m = OobRead \<or> (\<exists>x. m = Parsed x \<and> f x = OobRead)"
  by (cases m) auto

lemmas pbind_eqs = pbind_eq_Parsed pbind_eq_Ret pbind_eq_Oob

abbreviation CR :: byte where "CR \<equiv> 13"
abbreviation LF :: byte where "LF \<equiv> 10"
abbreviation SP :: byte where "SP \<equiv> 32"
abbreviation HT :: byte where "HT \<equiv> 9"

definition IS_PRINTABLE_ASCII :: "byte \<Rightarrow> bool" where
  "IS_PRINTABLE_ASCII c \<longleftrightarrow> (uint c - 32) mod 2 ^ 32 < 95"

definition token_char_map :: "nat list" where
  "token_char_map = [
     0, 0, 0, 0, 0, 0, 0, 0, 0, 0, 0, 0, 0, 0, 0, 0, 0, 0, 0, 0, 0, 0, 0, 0, 0, 0, 0, 0, 0, 0, 0, 0,
     0, 1, 0, 1, 1, 1, 1, 1, 0, 0, 1, 1, 0, 1, 1, 0, 1, 1, 1, 1, 1, 1, 1, 1, 1, 1, 0, 0, 0, 0, 0, 0,
     0, 1, 1, 1, 1, 1, 1, 1, 1, 1, 1, 1, 1, 1, 1, 1, 1, 1, 1, 1, 1, 1, 1, 1, 1, 1, 1, 0, 0, 0, 1, 1,
     1, 1, 1, 1, 1, 1, 1, 1, 1, 1, 1, 1, 1, 1, 1, 1, 1, 1, 1, 1, 1, 1, 1, 1, 1, 1, 1, 0, 1, 0, 1, 0,
     0, 0, 0, 0, 0, 0, 0, 0, 0, 0, 0, 0, 0, 0, 0, 0, 0, 0, 0, 0, 0, 0, 0, 0, 0, 0, 0, 0, 0, 0, 0, 0,
     0, 0, 0, 0, 0, 0, 0, 0, 0, 0, 0, 0, 0, 0, 0, 0, 0, 0, 0, 0, 0, 0, 0, 0, 0, 0, 0, 0, 0, 0, 0, 0,
     0, 0, 0, 0, 0, 0, 0, 0, 0, 0, 0, 0, 0, 0, 0, 0, 0, 0, 0, 0, 0, 0, 0, 0, 0, 0, 0, 0, 0, 0, 0, 0,
     0, 0, 0, 0, 0, 0, 0, 0, 0, 0, 0, 0, 0, 0, 0, 0, 0, 0, 0, 0, 0, 0, 0, 0, 0, 0, 0, 0, 0, 0, 0, 0]"

definition is_token_char :: "byte \<Rightarrow> bool" where
  "is_token_char c \<longleftrightarrow> token_char_map ! unat c \<noteq> 0"

definition EXPECT_CHAR_NO_CHECK :: "byte \<Rightarrow> byte list \<Rightarrow> byte list parsed" where
  "EXPECT_CHAR_NO_CHECK ch buf =
     (case buf of [] \<Rightarrow> OobRead | c # rest \<Rightarrow> if c \<noteq> ch then Ret (-1) else Parsed rest)"

definition EXPECT_CHAR :: "byte \<Rightarrow> byte list \<Rightarrow> byte list parsed" where
  "EXPECT_CHAR ch buf = (if buf = [] then Ret (-2) else EXPECT_CHAR_NO_CHECK ch buf)"

section \<open>\<^verbatim>\<open>findchar_fast\<close>\<close>

text \<open>
  \<^verbatim>\<open>_mm_cmpestri\<close> with \<^verbatim>\<open>_SIDD_CMP_RANGES\<close> gives the index of the first byte of a block
  that lies in one of the ranges, or the length of the block.
\<close>

definition in_ranges :: "(byte \<times> byte) list \<Rightarrow> byte \<Rightarrow> bool" where
  "in_ranges ranges c \<longleftrightarrow> (\<exists>(lo, hi) \<in> set ranges. lo \<le> c \<and> c \<le> hi)"

definition cmpestri :: "(byte \<times> byte) list \<Rightarrow> byte list \<Rightarrow> nat" where
  "cmpestri ranges blk = length (takeWhile (\<lambda>c. \<not> in_ranges ranges c) blk)"

function findchar_blocks :: "(byte \<times> byte) list \<Rightarrow> byte list \<Rightarrow> nat \<times> bool" where
  "findchar_blocks ranges buf =
     (if 16 \<le> length buf then
        let r = cmpestri ranges (take 16 buf)
        in if r \<noteq> 16 then (r, True)
           else let (k, found) = findchar_blocks ranges (drop 16 buf) in (16 + k, found)
      else (0, False))"
  by pat_completeness auto
termination by (relation "measure (\<lambda>(ranges, buf). length buf)") auto

declare findchar_blocks.simps [simp del]

text \<open>How many bytes are skipped, and whether the byte after them is in a range.\<close>

definition findchar_fast :: "bool \<Rightarrow> (byte \<times> byte) list \<Rightarrow> byte list \<Rightarrow> nat \<times> bool" where
  "findchar_fast sse ranges buf = (if sse then findchar_blocks ranges buf else (0, False))"

section \<open>Tokens\<close>

definition parse_token_ranges :: "(byte \<times> byte) list" where
  "parse_token_ranges =
     [(0, 32), (0x22, 0x22), (0x28, 0x29), (0x2c, 0x2c), (0x2f, 0x2f), (0x3a, 0x40), (0x5b, 0x5d),
      (0x7b, 0xff)]"

fun token_loop :: "byte \<Rightarrow> byte list \<Rightarrow> byte list \<Rightarrow> (byte list \<times> byte list) parsed" where
  "token_loop next_char tok [] = OobRead"
| "token_loop next_char tok (c # buf) =
     (if c = next_char then Parsed (tok, c # buf)
      else if \<not> is_token_char c then Ret (-1)
      else if buf = [] then Ret (-2)
      else token_loop next_char (tok @ [c]) buf)"

definition parse_token :: "bool \<Rightarrow> byte \<Rightarrow> byte list \<Rightarrow> (byte list \<times> byte list) parsed" where
  "parse_token sse next_char buf =
     (let (k, found) = findchar_fast sse parse_token_ranges buf
      in if \<not> found \<and> drop k buf = [] then Ret (-2)
         else token_loop next_char (take k buf) (drop k buf))"

definition ADVANCE_TOKEN_ranges :: "(byte \<times> byte) list" where
  "ADVANCE_TOKEN_ranges = [(0, 32), (127, 127)]"

fun advance_loop :: "byte list \<Rightarrow> byte list \<Rightarrow> (byte list \<times> byte list) parsed" where
  "advance_loop tok [] = OobRead"
| "advance_loop tok (c # buf) =
     (if c = SP then Parsed (tok, c # buf)
      else if \<not> IS_PRINTABLE_ASCII c \<and> (c < 32 \<or> c = 127) then Ret (-1)
      else if buf = [] then Ret (-2)
      else advance_loop (tok @ [c]) buf)"

definition ADVANCE_TOKEN :: "bool \<Rightarrow> byte list \<Rightarrow> (byte list \<times> byte list) parsed" where
  "ADVANCE_TOKEN sse buf =
     (let (k, found) = findchar_fast sse ADVANCE_TOKEN_ranges buf
      in if \<not> found \<and> drop k buf = [] then Ret (-2)
         else advance_loop (take k buf) (drop k buf))"

text \<open>\<^verbatim>\<open>do { ++buf; CHECK_EOF(); } while (*buf == ' ')\<close>\<close>

fun skip_spaces :: "byte list \<Rightarrow> byte list parsed" where
  "skip_spaces [] = OobRead"
| "skip_spaces (c # buf) =
     (case buf of [] \<Rightarrow> Ret (-2) | d # _ \<Rightarrow> if d = SP then skip_spaces buf else Parsed buf)"

section \<open>Lines\<close>

definition eol_ranges :: "(byte \<times> byte) list" where
  "eol_ranges = [(0, 8), (10, 31), (127, 127)]"

text \<open>\<^verbatim>\<open>((unsigned char)*buf < ' ' && *buf != TAB) || *buf == DEL\<close>\<close>

definition is_ctl :: "byte \<Rightarrow> bool" where
  "is_ctl c \<longleftrightarrow> (c < 32 \<and> c \<noteq> HT) \<or> c = 127"

text \<open>
  The loop unrolled by hand, which runs while eight bytes are left: the eight \<^verbatim>\<open>DOIT\<close>s stop
  at the first byte that is not printable.
\<close>

function eol_unrolled :: "byte list \<Rightarrow> nat \<times> bool" where
  "eol_unrolled buf =
     (if 8 \<le> length buf then
        let k = length (takeWhile IS_PRINTABLE_ASCII (take 8 buf))
        in if k = 8 then let (n, found) = eol_unrolled (drop 8 buf) in (8 + n, found)
           else if is_ctl (buf ! k) then (k, True)
           else let (n, found) = eol_unrolled (drop (Suc k) buf) in (Suc k + n, found)
      else (0, False))"
  by pat_completeness auto
termination by (relation "measure length") auto

declare eol_unrolled.simps [simp del]

text \<open>The byte-wise loop, up to \<^verbatim>\<open>FOUND_CTL\<close>.\<close>

fun eol_loop :: "byte list \<Rightarrow> byte list \<Rightarrow> (byte list \<times> byte list) parsed" where
  "eol_loop tok [] = Ret (-2)"
| "eol_loop tok (c # buf) =
     (if \<not> IS_PRINTABLE_ASCII c \<and> is_ctl c then Parsed (tok, c # buf)
      else eol_loop (tok @ [c]) buf)"

definition get_token_to_eol :: "bool \<Rightarrow> byte list \<Rightarrow> (byte list \<times> byte list) parsed" where
  "get_token_to_eol sse buf =
     (let (k, found) = (if sse then findchar_fast sse eol_ranges buf else eol_unrolled buf)
      in pbind (if found then Parsed (take k buf, drop k buf) else eol_loop (take k buf) (drop k buf))
           (\<lambda>(tok, buf'). case buf' of
              [] \<Rightarrow> OobRead
            | c # rest \<Rightarrow>
                if c = CR then pbind (EXPECT_CHAR LF rest) (\<lambda>rest'. Parsed (tok, rest'))
                else if c = LF then Parsed (tok, rest)
                else Ret (-1)))"

section \<open>Completeness check\<close>

fun is_complete_loop :: "nat \<Rightarrow> byte list \<Rightarrow> byte list parsed" where
  "is_complete_loop ret_cnt [] = Ret (-2)"
| "is_complete_loop ret_cnt (c # buf) =
     (if c = CR then
        (case buf of [] \<Rightarrow> Ret (-2)
         | d # buf' \<Rightarrow>
             if d \<noteq> LF then Ret (-1)
             else if Suc ret_cnt = 2 then Parsed buf' else is_complete_loop (Suc ret_cnt) buf')
      else if c = LF then
        (if Suc ret_cnt = 2 then Parsed buf else is_complete_loop (Suc ret_cnt) buf)
      else is_complete_loop 0 buf)"

definition is_complete :: "byte list \<Rightarrow> nat \<Rightarrow> byte list parsed" where
  "is_complete buf last_len =
     (if last_len < 3 then is_complete_loop 0 buf
      else if length buf < last_len - 3 then OobRead
      else is_complete_loop 0 (drop (last_len - 3) buf))"

section \<open>Version and status\<close>

definition PARSE_INT :: "int \<Rightarrow> byte list \<Rightarrow> (int \<times> byte list) parsed" where
  "PARSE_INT mul buf =
     (case buf of [] \<Rightarrow> OobRead
      | c # rest \<Rightarrow> if c < 48 \<or> 57 < c then Ret (-1) else Parsed (mul * (uint c - 48), rest))"

definition PARSE_INT_3 :: "byte list \<Rightarrow> (int \<times> byte list) parsed" where
  "PARSE_INT_3 buf =
     pbind (PARSE_INT 100 buf) (\<lambda>(a, buf1).
     pbind (PARSE_INT 10 buf1) (\<lambda>(b, buf2).
     pbind (PARSE_INT 1 buf2) (\<lambda>(c, buf3). Parsed (a + b + c, buf3))))"

fun expect_all :: "byte list \<Rightarrow> byte list \<Rightarrow> byte list parsed" where
  "expect_all [] buf = Parsed buf"
| "expect_all (ch # chs) buf = pbind (EXPECT_CHAR_NO_CHECK ch buf) (expect_all chs)"

definition parse_http_version :: "byte list \<Rightarrow> (int \<times> byte list) parsed" where
  "parse_http_version buf =
     (if length buf < 9 then Ret (-2)
      else pbind (expect_all [72, 84, 84, 80, 47, 49, 46] buf) (PARSE_INT 1))"

section \<open>Headers\<close>

record phr_header =
  hname :: "byte list option"
  hvalue :: "byte list"

text \<open>
  A header line, after the two tests for the empty line and the header limit. \<open>n\<close> is
  \<^verbatim>\<open>*num_headers\<close>. A continuation line of a multi-line header has the name \<^verbatim>\<open>NULL\<close>.
\<close>

fun skip_blanks :: "byte list \<Rightarrow> byte list parsed" where
  "skip_blanks [] = Ret (-2)"
| "skip_blanks (c # buf) = (if c = SP \<or> c = HT then skip_blanks buf else Parsed (c # buf))"

definition trim_trailing :: "byte list \<Rightarrow> byte list" where
  "trim_trailing value = rev (dropWhile (\<lambda>c. c = SP \<or> c = HT) (rev value))"

definition parse_header_name :: "bool \<Rightarrow> nat \<Rightarrow> byte list \<Rightarrow> (byte list option \<times> byte list) parsed" where
  "parse_header_name sse n buf =
     (case buf of [] \<Rightarrow> OobRead
      | c # _ \<Rightarrow>
          if \<not> (n \<noteq> 0 \<and> (c = SP \<or> c = HT)) then
            pbind (parse_token sse 58 buf) (\<lambda>(name, buf1).
              if name = [] then Ret (-1)
              else case buf1 of [] \<Rightarrow> OobRead
                   | _ # buf2 \<Rightarrow> pbind (skip_blanks buf2) (\<lambda>buf3. Parsed (Some name, buf3)))
          else Parsed (None, buf))"

definition parse_header_line :: "bool \<Rightarrow> nat \<Rightarrow> byte list \<Rightarrow> (phr_header \<times> byte list) parsed" where
  "parse_header_line sse n buf =
     pbind (parse_header_name sse n buf) (\<lambda>(name, buf1).
     pbind (get_token_to_eol sse buf1) (\<lambda>(value, buf2).
       Parsed (\<lparr>hname = name, hvalue = trim_trailing value\<rparr>, buf2)))"

section \<open>Character classes\<close>

lemma IS_PRINTABLE_ASCII_iff: "IS_PRINTABLE_ASCII c \<longleftrightarrow> 32 \<le> unat c \<and> unat c < 127"
proof -
  define x where "x = uint c"
  have u: "int (unat c) = x" by (simp add: x_def)
  then have x: "0 \<le> x" "x < 256" using unat_byte [of c] by linarith+
  have "(x - 32) mod 4294967296 = (if 32 \<le> x then x - 32 else x - 32 + 4294967296)"
  proof (cases "32 \<le> x")
    case False
    have "(x - 32) mod 4294967296 = (x - 32 + 4294967296) mod 4294967296"
      by (rule mod_add_self2 [symmetric])
    also have "\<dots> = x - 32 + 4294967296" using False x by (intro mod_pos_pos_trivial) linarith+
    finally show ?thesis using False by simp
  qed (use x in \<open>simp add: mod_pos_pos_trivial\<close>)
  then have "(x - 32) mod 4294967296 < 95 \<longleftrightarrow> 32 \<le> x \<and> x < 127" using x by auto
  moreover have "32 \<le> unat c \<longleftrightarrow> 32 \<le> x" "unat c < 127 \<longleftrightarrow> x < 127" using u by linarith+
  ultimately show ?thesis unfolding IS_PRINTABLE_ASCII_def x_def [symmetric] by simp
qed

lemma upt_256: "[0..<256] = 0 # 1 # [2..<256]"
  using upt_conv_Cons [of 0 256] upt_conv_Cons [of 1 256]
  by (simp del: upt_rec_numeral add: numeral_2_eq_2)

lemma token_char_map_eq:
  "token_char_map = map (\<lambda>n. if n = 33 \<or> 35 \<le> n \<and> n \<le> 39 \<or> n = 42 \<or> n = 43 \<or> n = 45 \<or> n = 46 \<or>
      48 \<le> n \<and> n \<le> 57 \<or> 65 \<le> n \<and> n \<le> 90 \<or> 94 \<le> n \<and> n \<le> 122 \<or> n = 124 \<or> n = 126 then 1 else 0) [0..<256]"
  by (simp add: token_char_map_def upt_256 upt_rec_numeral)

lemma is_token_char_iff:
  "is_token_char c \<longleftrightarrow> (let n = unat c in n = 33 \<or> 35 \<le> n \<and> n \<le> 39 \<or> n = 42 \<or> n = 43 \<or> n = 45 \<or> n = 46 \<or>
      48 \<le> n \<and> n \<le> 57 \<or> 65 \<le> n \<and> n \<le> 90 \<or> 94 \<le> n \<and> n \<le> 122 \<or> n = 124 \<or> n = 126)"
  using unat_byte [of c] unfolding is_token_char_def token_char_map_eq by (simp add: Let_def nth_upt)

lemma is_ctl_iff: "is_ctl c \<longleftrightarrow> (unat c < 32 \<and> unat c \<noteq> 9) \<or> unat c = 127"
  by (simp add: is_ctl_def word_less_nat_alt word_unat_eq_iff)

lemma is_ctl_not_printable: "is_ctl c \<Longrightarrow> \<not> IS_PRINTABLE_ASCII c"
  by (auto simp: is_ctl_iff IS_PRINTABLE_ASCII_iff)

lemma token_ranges_table:
  "list_all (\<lambda>n. n \<le> 32 \<or> n = 34 \<or> 40 \<le> n \<and> n \<le> 41 \<or> n = 44 \<or> n = 47 \<or> 58 \<le> n \<and> n \<le> 64 \<or>
     91 \<le> n \<and> n \<le> 93 \<or> 123 \<le> n \<or> token_char_map ! n \<noteq> 0) [0..<256]"
  unfolding token_char_map_eq by (simp add: upt_256 upt_rec_numeral del: nth_upt)

lemma in_token_ranges:
  assumes "\<not> in_ranges parse_token_ranges c" shows "is_token_char c" "c \<noteq> 32" "c \<noteq> 58"
proof -
  have n: "\<not> unat c \<le> 32" "unat c \<noteq> 34" "\<not> (40 \<le> unat c \<and> unat c \<le> 41)" "unat c \<noteq> 44" "unat c \<noteq> 47"
    "\<not> (58 \<le> unat c \<and> unat c \<le> 64)" "\<not> (91 \<le> unat c \<and> unat c \<le> 93)" "\<not> 123 \<le> unat c"
    using assms unat_byte [of c] by (simp_all add: in_ranges_def parse_token_ranges_def word_le_nat_alt)
       (metis order_refl)+
  then show "is_token_char c"
    using token_ranges_table unat_byte [of c] by (auto simp: list_all_iff is_token_char_def)
  show "c \<noteq> 32" "c \<noteq> 58" using n(1,6) by auto
qed

lemma in_advance_ranges:
  "\<not> in_ranges ADVANCE_TOKEN_ranges c \<Longrightarrow> c \<noteq> 32 \<and> \<not> (c < 32 \<or> c = 127)"
  by (auto simp: in_ranges_def ADVANCE_TOKEN_ranges_def word_le_nat_alt word_less_nat_alt word_unat_eq_iff)

lemma in_eol_ranges: "in_ranges eol_ranges c \<longleftrightarrow> is_ctl c"
  by (auto simp: in_ranges_def eol_ranges_def is_ctl_iff word_le_nat_alt)

section \<open>Scanning\<close>

text \<open>
  What the fast loops compute: the longest prefix of bytes that satisfy \<open>P\<close>, and a look at the
  byte that ends it.
\<close>

definition scan :: "(byte \<Rightarrow> bool) \<Rightarrow> (byte \<Rightarrow> bool) \<Rightarrow> byte list \<Rightarrow> (byte list \<times> byte list) parsed" where
  "scan P good buf =
     (case dropWhile P buf of [] \<Rightarrow> Ret (-2)
      | c # rest \<Rightarrow> if good c then Parsed (takeWhile P buf, c # rest) else Ret (-1))"

lemma dropWhile_take_all: "\<forall>c \<in> set (take k buf). P c \<Longrightarrow> dropWhile P buf = dropWhile P (drop k buf)"
  by (metis append_take_drop_id dropWhile_append2)

lemma takeWhile_take_all:
  "\<forall>c \<in> set (take k buf). P c \<Longrightarrow> takeWhile P buf = take k buf @ takeWhile P (drop k buf)"
  by (metis append_take_drop_id takeWhile_append2)

lemma cmpestri_16:
  assumes "16 \<le> length buf" "cmpestri ranges (take 16 buf) = k"
  shows "k \<le> 16" "\<forall>c \<in> set (take k buf). \<not> in_ranges ranges c" "k \<noteq> 16 \<Longrightarrow> in_ranges ranges (buf ! k)"
proof -
  let ?t = "take 16 buf" and ?P = "\<lambda>c. \<not> in_ranges ranges c"
  have k: "k = length (takeWhile ?P ?t)" using assms(2) by (simp add: cmpestri_def)
  then show le: "k \<le> 16" using length_takeWhile_le [of ?P ?t] by simp
  have "take k buf = takeWhile ?P ?t"
    using le takeWhile_eq_take [of ?P ?t] by (simp add: k [symmetric] min_def)
  then show "\<forall>c \<in> set (take k buf). ?P c" using set_takeWhileD [of _ ?P ?t] by auto
  assume "k \<noteq> 16"
  with le have "length (takeWhile ?P ?t) < length ?t" using assms(1) k by simp
  from nth_length_takeWhile [OF this] show "in_ranges ranges (buf ! k)"
    using le \<open>k \<noteq> 16\<close> by (simp add: k [symmetric])
qed

lemma findchar_blocks_spec:
  "findchar_blocks ranges buf = (k, found) \<Longrightarrow>
   k \<le> length buf \<and> (\<forall>c \<in> set (take k buf). \<not> in_ranges ranges c) \<and>
   (found \<longrightarrow> k < length buf \<and> in_ranges ranges (buf ! k))"
proof (induction ranges buf arbitrary: k found rule: findchar_blocks.induct)
  case (1 ranges buf)
  show ?case
  proof (cases "16 \<le> length buf")
    case False
    with 1(2) show ?thesis by (subst (asm) findchar_blocks.simps) auto
  next
    case True
    define r where "r = cmpestri ranges (take 16 buf)"
    note r = cmpestri_16 [OF True r_def [symmetric]]
    show ?thesis
    proof (cases "r = 16")
      case False
      then have "k = r" "found" using 1(2) True by (auto simp: findchar_blocks.simps [of ranges buf] r_def)
      with False r True show ?thesis by auto
    next
      case r16: True
      obtain k' where k': "findchar_blocks ranges (drop 16 buf) = (k', found)" "k = 16 + k'"
        using 1(2) True r16 by (auto simp: findchar_blocks.simps [of ranges buf] r_def split: prod.splits)
      from 1(1) [OF True r_def _ k'(1)] r16
      have "k' \<le> length buf - 16" "\<forall>c \<in> set (take k' (drop 16 buf)). \<not> in_ranges ranges c"
        "found \<longrightarrow> k' < length buf - 16 \<and> in_ranges ranges (drop 16 buf ! k')" by auto
      moreover have "take k buf = take 16 buf @ take k' (drop 16 buf)" by (simp add: k'(2) take_add)
      ultimately show ?thesis using r(2) r16 True k'(2) by auto
    qed
  qed
qed


lemma eol_unrolled_spec:
  "eol_unrolled buf = (k, found) \<Longrightarrow>
   k \<le> length buf \<and> (\<forall>c \<in> set (take k buf). \<not> is_ctl c) \<and>
   (found \<longrightarrow> k < length buf \<and> is_ctl (buf ! k))"
proof (induction buf arbitrary: k found rule: eol_unrolled.induct)
  case (1 buf)
  show ?case
  proof (cases "8 \<le> length buf")
    case False
    with 1(3) show ?thesis by (subst (asm) eol_unrolled.simps) auto
  next
    case True
    define r where "r = length (takeWhile IS_PRINTABLE_ASCII (take 8 buf))"
    have r8: "r \<le> 8" using length_takeWhile_le [of IS_PRINTABLE_ASCII "take 8 buf"] by (simp add: r_def)
    have "take r buf = takeWhile IS_PRINTABLE_ASCII (take 8 buf)"
      using r8 takeWhile_eq_take [of IS_PRINTABLE_ASCII "take 8 buf"] by (simp add: r_def [symmetric] min_def)
    then have tk: "\<forall>c \<in> set (take r buf). \<not> is_ctl c"
      using is_ctl_not_printable by (auto dest: set_takeWhileD)
    consider (all) "r = 8" | (ctl) "r < 8" "is_ctl (buf ! r)" | (skip) "r < 8" "\<not> is_ctl (buf ! r)"
      using r8 by fastforce
    then show ?thesis
    proof cases
      case all
      obtain k' where k': "eol_unrolled (drop 8 buf) = (k', found)" "k = 8 + k'"
        using 1(3) True all by (auto simp: eol_unrolled.simps [of buf] r_def split: prod.splits)
      from 1(1) [OF True r_def all k'(1)] tk all True k'(2)
      show ?thesis by (auto simp: take_add)
    next
      case ctl
      then have "k = r" "found" using 1(3) True by (auto simp: eol_unrolled.simps [of buf] r_def)
      with ctl tk True show ?thesis by auto
    next
      case skip
      obtain k' where k': "eol_unrolled (drop (Suc r) buf) = (k', found)" "k = Suc r + k'"
        using 1(3) True skip by (auto simp: eol_unrolled.simps [of buf] r_def Let_def split: prod.splits)
      have s: "take (Suc r) buf = take r buf @ [buf ! r]" using skip True by (simp add: take_Suc_conv_app_nth)
      have t: "take k buf = take (Suc r) buf @ take k' (drop (Suc r) buf)" by (simp only: k'(2) take_add)
      from 1(2) [OF True r_def _ skip(2) k'(1)] skip
      have "k' \<le> length buf - Suc r" "\<forall>c \<in> set (take k' (drop (Suc r) buf)). \<not> is_ctl c"
        "found \<longrightarrow> k' < length buf - Suc r \<and> is_ctl (drop (Suc r) buf ! k')" by auto
      moreover from this(2) tk skip(2) have "\<forall>c \<in> set (take k buf). \<not> is_ctl c"
        unfolding t s set_append by auto
      ultimately show ?thesis using skip(1) True k'(2) by auto
    qed
  qed
qed


section \<open>The fast loops compute a scan\<close>

definition bad_path_char :: "byte \<Rightarrow> bool" where
  "bad_path_char c \<longleftrightarrow> c < 32 \<or> c = 127"

lemma scan_Nil [simp]: "scan P good [] = Ret (-2)"
  by (simp add: scan_def)

lemma scan_Cons:
  "scan P good (c # buf) =
     (if P c then pbind (scan P good buf) (\<lambda>(tok, r). Parsed (c # tok, r))
      else if good c then Parsed ([], c # buf) else Ret (-1))"
  by (cases "dropWhile P buf") (auto simp: scan_def simp del: dropWhile_eq_Nil_conv)

lemma scan_skip:
  assumes "\<forall>c \<in> set (take k buf). P c"
  shows "scan P good buf = pbind (scan P good (drop k buf)) (\<lambda>(tok, r). Parsed (take k buf @ tok, r))"
  using dropWhile_take_all [OF assms] takeWhile_take_all [OF assms]
  by (cases "dropWhile P (drop k buf)") (auto simp: scan_def simp del: dropWhile_eq_Nil_conv)

lemma token_loop_scan:
  "buf \<noteq> [] \<Longrightarrow> token_loop nx tok buf =
     pbind (scan (\<lambda>c. c \<noteq> nx \<and> is_token_char c) (\<lambda>c. c = nx) buf) (\<lambda>(t, r). Parsed (tok @ t, r))"
proof (induction buf arbitrary: tok)
  case (Cons c buf)
  show ?case
  proof (cases "buf = []")
    case True
    then show ?thesis by (auto simp: scan_Cons)
  next
    case False
    with Cons show ?thesis by (cases "scan (\<lambda>c. c \<noteq> nx \<and> is_token_char c) (\<lambda>c. c = nx) buf") (auto simp: scan_Cons)
  qed
qed simp

lemma advance_loop_scan:
  "buf \<noteq> [] \<Longrightarrow> advance_loop tok buf =
     pbind (scan (\<lambda>c. c \<noteq> SP \<and> \<not> bad_path_char c) (\<lambda>c. c = SP) buf) (\<lambda>(t, r). Parsed (tok @ t, r))"
proof (induction buf arbitrary: tok)
  case (Cons c buf)
  have pr: "bad_path_char c \<Longrightarrow> \<not> IS_PRINTABLE_ASCII c"
    by (auto simp: bad_path_char_def IS_PRINTABLE_ASCII_iff word_less_nat_alt)
  show ?case
  proof (cases "buf = []")
    case True
    then show ?thesis using pr by (auto simp: scan_Cons bad_path_char_def)
  next
    case False
    with Cons pr show ?thesis
      by (cases "scan (\<lambda>c. c \<noteq> SP \<and> \<not> bad_path_char c) (\<lambda>c. c = SP) buf")
         (auto simp: scan_Cons bad_path_char_def)
  qed
qed simp

lemma eol_loop_scan:
  "eol_loop tok buf = pbind (scan (\<lambda>c. \<not> is_ctl c) (\<lambda>_. True) buf) (\<lambda>(t, r). Parsed (tok @ t, r))"
proof (induction buf arbitrary: tok)
  case (Cons c buf)
  then show ?case
    using is_ctl_not_printable [of c]
    by (cases "scan (\<lambda>c. \<not> is_ctl c) (\<lambda>_. True) buf") (auto simp: scan_Cons)
qed simp

lemma findchar_fast_spec:
  assumes "findchar_fast sse ranges buf = (k, found)"
  shows "k \<le> length buf" "\<forall>c \<in> set (take k buf). \<not> in_ranges ranges c"
    "found \<Longrightarrow> k < length buf \<and> in_ranges ranges (buf ! k)"
  using findchar_blocks_spec [of ranges buf k found] assms
  by (auto simp: findchar_fast_def split: if_splits)

lemma parse_token_scan:
  assumes "nx = 32 \<or> nx = 58"
  shows "parse_token sse nx buf = scan (\<lambda>c. c \<noteq> nx \<and> is_token_char c) (\<lambda>c. c = nx) buf"
proof -
  obtain k found where f: "findchar_fast sse parse_token_ranges buf = (k, found)" by fastforce
  note s = findchar_fast_spec [OF f]
  have P: "\<forall>c \<in> set (take k buf). c \<noteq> nx \<and> is_token_char c"
    using s(2) in_token_ranges assms by blast
  show ?thesis
  proof (cases "drop k buf = []")
    case True
    with s have "\<not> found" by auto
    with True show ?thesis by (simp add: parse_token_def f scan_skip [OF P])
  next
    case False
    then show ?thesis by (simp add: parse_token_def f scan_skip [OF P] token_loop_scan)
  qed
qed

lemma ADVANCE_TOKEN_scan:
  "ADVANCE_TOKEN sse buf = scan (\<lambda>c. c \<noteq> SP \<and> \<not> bad_path_char c) (\<lambda>c. c = SP) buf"
proof -
  obtain k found where f: "findchar_fast sse ADVANCE_TOKEN_ranges buf = (k, found)" by fastforce
  note s = findchar_fast_spec [OF f]
  have P: "\<forall>c \<in> set (take k buf). c \<noteq> SP \<and> \<not> bad_path_char c"
    using s(2) in_advance_ranges unfolding bad_path_char_def by blast
  show ?thesis
  proof (cases "drop k buf = []")
    case True
    with s have "\<not> found" by auto
    with True show ?thesis by (simp add: ADVANCE_TOKEN_def f scan_skip [OF P])
  next
    case False
    then show ?thesis by (simp add: ADVANCE_TOKEN_def f scan_skip [OF P] advance_loop_scan)
  qed
qed

text \<open>The end of a line after the scanned text.\<close>

definition line_end :: "byte list \<Rightarrow> byte list \<Rightarrow> (byte list \<times> byte list) parsed" where
  "line_end tok buf =
     (case buf of [] \<Rightarrow> OobRead
      | c # rest \<Rightarrow>
          if c = CR then pbind (EXPECT_CHAR LF rest) (\<lambda>rest'. Parsed (tok, rest'))
          else if c = LF then Parsed (tok, rest)
          else Ret (-1))"

lemma get_token_to_eol_scan:
  "get_token_to_eol sse buf =
     pbind (scan (\<lambda>c. \<not> is_ctl c) (\<lambda>_. True) buf) (\<lambda>(tok, buf'). line_end tok buf')"
proof -
  obtain k found where f: "(if sse then findchar_fast sse eol_ranges buf else eol_unrolled buf) = (k, found)"
    by fastforce
  have s: "\<forall>c \<in> set (take k buf). \<not> is_ctl c" "found \<Longrightarrow> k < length buf \<and> is_ctl (buf ! k)"
    using f findchar_fast_spec [of sse eol_ranges buf k found] eol_unrolled_spec [of buf k found]
    by (auto simp: in_eol_ranges split: if_splits)
  have sc: "(if found then Parsed (take k buf, drop k buf) else eol_loop (take k buf) (drop k buf)) =
      scan (\<lambda>c. \<not> is_ctl c) (\<lambda>_. True) buf"
  proof (cases found)
    case True
    with s(2) have "drop k buf = buf ! k # drop (Suc k) buf" by (simp add: Cons_nth_drop_Suc)
    with True s show ?thesis by (simp add: scan_skip [OF s(1)] scan_Cons)
  next
    case False
    then show ?thesis by (simp add: scan_skip [OF s(1)] eol_loop_scan)
  qed
  show ?thesis unfolding get_token_to_eol_def f Let_def prod.case sc line_end_def ..
qed

lemma scan_Parsed:
  assumes "scan P good buf = Parsed (tok, r)"
  shows "buf = tok @ r" "\<forall>c \<in> set tok. P c" "\<exists>c r'. r = c # r' \<and> good c \<and> \<not> P c"
proof -
  from assms obtain c r' where c: "dropWhile P buf = c # r'" "good c" "tok = takeWhile P buf" "r = c # r'"
    by (auto simp: scan_def split: list.splits if_splits)
  then show "buf = tok @ r" using takeWhile_dropWhile_id [of P buf] by simp
  show "\<forall>c \<in> set tok. P c" using c by (auto dest: set_takeWhileD)
  show "\<exists>c r'. r = c # r' \<and> good c \<and> \<not> P c"
    using c hd_dropWhile [of P buf] by (auto simp del: dropWhile_eq_Nil_conv)
qed

lemma scan_Ret: "scan P good buf = Ret e \<Longrightarrow> e = -1 \<or> e = -2"
  by (auto simp: scan_def split: list.splits if_splits)

lemma scan_not_Oob [simp]: "scan P good buf \<noteq> OobRead"
  by (auto simp: scan_def split: list.splits)

lemma EXPECT_CHAR_Parsed: "EXPECT_CHAR ch buf = Parsed r \<longleftrightarrow> buf = ch # r"
  by (auto simp: EXPECT_CHAR_def EXPECT_CHAR_NO_CHECK_def split: list.splits)

lemma line_end_Parsed: "line_end tok buf = Parsed (t, r) \<Longrightarrow> t = tok \<and> (buf = CR # LF # r \<or> buf = LF # r)"
  by (auto simp: line_end_def pbind_eqs EXPECT_CHAR_Parsed split: list.splits if_splits)

lemma get_token_to_eol_Parsed:
  assumes "get_token_to_eol sse buf = Parsed (tok, r)"
  shows "(\<forall>c \<in> set tok. \<not> is_ctl c) \<and> (buf = tok @ CR # LF # r \<or> buf = tok @ LF # r)"
proof -
  from assms obtain t b where s: "scan (\<lambda>c. \<not> is_ctl c) (\<lambda>_. True) buf = Parsed (t, b)"
    "line_end t b = Parsed (tok, r)" by (auto simp: get_token_to_eol_scan pbind_eqs)
  with line_end_Parsed [OF s(2)] scan_Parsed [OF s(1)] show ?thesis by auto
qed

lemma skip_blanks_Parsed: "skip_blanks buf = Parsed r \<Longrightarrow> \<exists>b. buf = b @ r \<and> (\<forall>c \<in> set b. c = SP \<or> c = HT)"
proof (induction buf)
  case (Cons c buf)
  then show ?case
    by (cases "c = SP \<or> c = HT") (auto intro: exI [of _ "c # _"] exI [of _ "[]"])
qed simp

lemma parse_header_name_Parsed:
  assumes "parse_header_name sse n buf = Parsed (nm, r)"
  shows "(nm = None \<and> r = buf) \<or>
    (\<exists>name b. nm = Some name \<and> name \<noteq> [] \<and> (\<forall>c \<in> set name. is_token_char c) \<and> buf = name @ 58 # b @ r)"
proof (cases nm)
  case None
  with assms show ?thesis
    by (auto simp: parse_header_name_def pbind_eqs neq_Nil_conv split: list.splits if_splits)
next
  case (Some name)
  with assms obtain c buf2 where s: "scan (\<lambda>c. c \<noteq> 58 \<and> is_token_char c) (\<lambda>c. c = 58) buf = Parsed (name, c # buf2)"
    "name \<noteq> []" "skip_blanks buf2 = Parsed r"
    by (auto simp: parse_header_name_def parse_token_scan pbind_eqs neq_Nil_conv
        split: list.splits if_splits)
  from scan_Parsed [OF s(1)] skip_blanks_Parsed [OF s(3)] s(2) Some show ?thesis by auto
qed

lemma parse_header_line_shorter:
  assumes "parse_header_line sse n buf = Parsed (h, r)"
  shows "length r < length buf"
  using assms by (auto simp: parse_header_line_def pbind_eqs dest!: parse_header_name_Parsed get_token_to_eol_Parsed)

function parse_headers :: "bool \<Rightarrow> nat \<Rightarrow> nat \<Rightarrow> byte list \<Rightarrow> (phr_header list \<times> byte list) parsed" where
  "parse_headers sse max_headers n buf =
     (case buf of [] \<Rightarrow> Ret (-2)
      | c # rest \<Rightarrow>
          if c = CR then pbind (EXPECT_CHAR LF rest) (\<lambda>r. Parsed ([], r))
          else if c = LF then Parsed ([], rest)
          else if n = max_headers then Ret (-1)
          else pbind (parse_header_line sse n buf) (\<lambda>(h, buf').
               pbind (parse_headers sse max_headers (Suc n) buf') (\<lambda>(hs, r). Parsed (h # hs, r))))"
  by pat_completeness auto
termination
  by (relation "measure (\<lambda>(sse, mx, n, buf). length buf)") (auto dest: parse_header_line_shorter)

declare parse_headers.simps [simp del]

section \<open>Requests, responses and header blocks\<close>

record phr_request =
  req_method :: "byte list"
  path :: "byte list"
  minor_version :: int
  headers :: "phr_header list"

definition skip_empty_line :: "byte list \<Rightarrow> byte list parsed" where
  "skip_empty_line buf =
     (case buf of [] \<Rightarrow> Ret (-2)
      | c # rest \<Rightarrow> if c = CR then EXPECT_CHAR LF rest else if c = LF then Parsed rest else Parsed buf)"

definition expect_eol :: "byte list \<Rightarrow> byte list parsed" where
  "expect_eol buf =
     (case buf of [] \<Rightarrow> OobRead
      | c # rest \<Rightarrow> if c = CR then EXPECT_CHAR LF rest else if c = LF then Parsed rest else Ret (-1))"

definition parse_request :: "bool \<Rightarrow> nat \<Rightarrow> byte list \<Rightarrow> (phr_request \<times> byte list) parsed" where
  "parse_request sse max_headers buf =
     pbind (skip_empty_line buf) (\<lambda>buf1.
     pbind (parse_token sse SP buf1) (\<lambda>(meth, buf2).
     pbind (skip_spaces buf2) (\<lambda>buf3.
     pbind (ADVANCE_TOKEN sse buf3) (\<lambda>(pth, buf4).
     pbind (skip_spaces buf4) (\<lambda>buf5.
       if meth = [] \<or> pth = [] then Ret (-1)
       else pbind (parse_http_version buf5) (\<lambda>(ver, buf6).
            pbind (expect_eol buf6) (\<lambda>buf7.
            pbind (parse_headers sse max_headers 0 buf7) (\<lambda>(hs, r).
              Parsed (\<lparr>req_method = meth, path = pth, minor_version = ver, headers = hs\<rparr>, r)))))))))"

text \<open>
  \<^verbatim>\<open>(int)(buf - buf_start)\<close>: how many bytes were consumed, narrowed to 32 bits.
\<close>

definition consumed :: "byte list \<Rightarrow> byte list \<Rightarrow> int" where
  "consumed buf_start buf = sint (of_nat (length buf_start - length buf) :: 32 word)"

definition phr_parse_with ::
    "(byte list \<Rightarrow> ('a \<times> byte list) parsed) \<Rightarrow> byte list \<Rightarrow> nat \<Rightarrow> (int \<times> 'a) parsed" where
  "phr_parse_with f buf_start last_len =
     pbind (if last_len \<noteq> 0 then is_complete buf_start last_len else Parsed buf_start) (\<lambda>_.
     pbind (f buf_start) (\<lambda>(x, buf). Parsed (consumed buf_start buf, x)))"

definition phr_parse_request :: "bool \<Rightarrow> byte list \<Rightarrow> nat \<Rightarrow> nat \<Rightarrow> (int \<times> phr_request) parsed" where
  "phr_parse_request sse buf_start max_headers last_len =
     phr_parse_with (parse_request sse max_headers) buf_start last_len"

record phr_response =
  resp_minor_version :: int
  status :: int
  msg :: "byte list"
  resp_headers :: "phr_header list"

definition parse_response :: "bool \<Rightarrow> nat \<Rightarrow> byte list \<Rightarrow> (phr_response \<times> byte list) parsed" where
  "parse_response sse max_headers buf =
     pbind (parse_http_version buf) (\<lambda>(ver, buf1).
       case buf1 of [] \<Rightarrow> OobRead
       | c # _ \<Rightarrow>
           if c \<noteq> SP then Ret (-1)
           else pbind (skip_spaces buf1) (\<lambda>buf2.
             if length buf2 < 4 then Ret (-2)
             else pbind (PARSE_INT_3 buf2) (\<lambda>(st, buf3).
                  pbind (get_token_to_eol sse buf3) (\<lambda>(m, buf4).
                    if m \<noteq> [] \<and> hd m \<noteq> SP then Ret (-1)
                    else pbind (parse_headers sse max_headers 0 buf4) (\<lambda>(hs, r).
                           Parsed (\<lparr>resp_minor_version = ver, status = st,
                                    msg = dropWhile (\<lambda>c. c = SP) m, resp_headers = hs\<rparr>, r))))))"

definition phr_parse_response :: "bool \<Rightarrow> byte list \<Rightarrow> nat \<Rightarrow> nat \<Rightarrow> (int \<times> phr_response) parsed" where
  "phr_parse_response sse buf_start max_headers last_len =
     phr_parse_with (parse_response sse max_headers) buf_start last_len"

definition phr_parse_headers :: "bool \<Rightarrow> byte list \<Rightarrow> nat \<Rightarrow> nat \<Rightarrow> (int \<times> phr_header list) parsed" where
  "phr_parse_headers sse buf_start max_headers last_len =
     phr_parse_with (parse_headers sse max_headers 0) buf_start last_len"

section \<open>Incremental parsing\<close>

text \<open>
  The contract the server relies on when it parses again after every read: a parser consumes a
  prefix of its input, and once it has accepted or rejected (\<^verbatim>\<open>-1\<close>), more input does not
  change the verdict. Only \<^verbatim>\<open>-2\<close> asks for more.
\<close>

locale incremental_parser =
  fixes f :: "byte list \<Rightarrow> ('a \<times> byte list) parsed"
  assumes rest_suffix: "f s = Parsed (x, r) \<Longrightarrow> \<exists>c. s = c @ r"
    and extend: "f s = Parsed (x, r) \<Longrightarrow> f (s @ t) = Parsed (x, r @ t)"
    and reject: "f s = Ret (-1) \<Longrightarrow> f (s @ t) = Ret (-1)"
    and verdicts: "f s = Ret e \<Longrightarrow> e = -1 \<or> e = -2"
begin

lemma undecided_prefix:
  assumes "f (s @ t) = Ret (-2)" "f s \<noteq> OobRead"
  shows "f s = Ret (-2)"
proof (cases "f s")
  case (Parsed p)
  then show ?thesis using assms extend [of s "fst p" "snd p" t] by (cases p) simp
next
  case (Ret e)
  then show ?thesis using assms verdicts [of s e] reject [of s t] by auto
qed (use assms in simp)

lemma length_rest: "f s = Parsed (x, r) \<Longrightarrow> length r \<le> length s"
  using rest_suffix by fastforce

text \<open>Parsing piece by piece: the first prefix that is decided gives the verdict on the whole.\<close>

lemma decided_prefix:
  assumes "f s \<noteq> Ret (-2)" "f s \<noteq> OobRead"
  shows "f (s @ t) = (case f s of Parsed (x, r) \<Rightarrow> Parsed (x, r @ t) | e \<Rightarrow> e)"
proof (cases "f s")
  case (Parsed p)
  then show ?thesis using extend [of s "fst p" "snd p" t] by (cases p) simp
next
  case (Ret e)
  then show ?thesis using assms verdicts [of s e] reject [of s t] by auto
qed (use assms in simp)

end

text \<open>A parser without a result.\<close>

definition unit_parser :: "(byte list \<Rightarrow> byte list parsed) \<Rightarrow> byte list \<Rightarrow> (unit \<times> byte list) parsed" where
  "unit_parser f s = pbind (f s) (\<lambda>r. Parsed ((), r))"

named_theorems incr_intros

lemma incremental_Parsed [incr_intros]: "incremental_parser (\<lambda>s. Parsed (x, s))"
  by unfold_locales auto

lemma incremental_Ret [incr_intros]: "incremental_parser (\<lambda>s. Ret (-1))"
  by unfold_locales auto

lemma incremental_bind [incr_intros]:
  assumes "incremental_parser f" "\<And>x. incremental_parser (g x)"
  shows "incremental_parser (\<lambda>s. pbind (f s) (\<lambda>(x, r). g x r))"
proof
  note f = assms(1) [unfolded incremental_parser_def] and g = assms(2) [unfolded incremental_parser_def]
  fix s x r t e
  show "pbind (f s) (\<lambda>(x, r). g x r) = Parsed (x, r) \<Longrightarrow> \<exists>c. s = c @ r"
    using f g by (fastforce simp: pbind_eqs)
  show "pbind (f s) (\<lambda>(x, r). g x r) = Parsed (x, r) \<Longrightarrow> pbind (f (s @ t)) (\<lambda>(x, r). g x r) = Parsed (x, r @ t)"
    using f g by (fastforce simp: pbind_eqs)
  show "pbind (f s) (\<lambda>(x, r). g x r) = Ret (-1) \<Longrightarrow> pbind (f (s @ t)) (\<lambda>(x, r). g x r) = Ret (-1)"
    using f g by (fastforce simp: pbind_eqs)
  show "pbind (f s) (\<lambda>(x, r). g x r) = Ret e \<Longrightarrow> e = -1 \<or> e = -2"
    using f g by (fastforce simp: pbind_eqs)
qed

lemma incremental_bind0 [incr_intros]:
  assumes "incremental_parser (unit_parser f)" "incremental_parser g"
  shows "incremental_parser (\<lambda>s. pbind (f s) g)"
proof -
  have "(\<lambda>s. pbind (f s) g) = (\<lambda>s. pbind (unit_parser f s) (\<lambda>(x, r). g r))"
    by (rule ext, case_tac "f s") (auto simp: unit_parser_def)
  with incremental_bind [OF assms(1), of "\<lambda>_. g"] assms(2) show ?thesis by simp
qed

lemma scan_extend: "scan P good s = Parsed (x, r) \<Longrightarrow> scan P good (s @ t) = Parsed (x, r @ t)"
proof -
  assume a: "scan P good s = Parsed (x, r)"
  from scan_Parsed [OF this] obtain c r' where "s = x @ c # r'" "r = c # r'" "\<forall>c\<in>set x. P c" "good c" "\<not> P c" by auto
  then show ?thesis by (simp add: scan_def takeWhile_append2 dropWhile_append2)
qed

lemma scan_reject: "scan P good s = Ret (-1) \<Longrightarrow> scan P good (s @ t) = Ret (-1)"
proof -
  assume a: "scan P good s = Ret (-1)"
  then obtain c r' where c: "dropWhile P s = c # r'" "\<not> good c"
    by (auto simp: scan_def split: list.splits if_splits)
  then have "dropWhile P (s @ t) = c # r' @ t" by (induction s) (auto split: if_splits)
  then show ?thesis using c(2) by (simp add: scan_def)
qed

lemma incremental_scan [incr_intros]: "incremental_parser (scan P good)"
  by unfold_locales (auto dest: scan_Parsed(1) scan_extend scan_reject scan_Ret)

lemma incremental_token [incr_intros]:
  assumes "nx = 32 \<or> nx = 58"
  shows "incremental_parser (parse_token sse nx)"
proof -
  have "parse_token sse nx = scan (\<lambda>c. c \<noteq> nx \<and> is_token_char c) (\<lambda>c. c = nx)"
    by (rule ext) (rule parse_token_scan [OF assms])
  then show ?thesis by (simp add: incremental_scan)
qed

lemma incremental_advance [incr_intros]: "incremental_parser (ADVANCE_TOKEN sse)"
  using incremental_scan by (simp add: ADVANCE_TOKEN_scan [abs_def])

lemma incremental_expect_no_check [incr_intros]: "incremental_parser (unit_parser (EXPECT_CHAR_NO_CHECK ch))"
  by unfold_locales (auto simp: unit_parser_def EXPECT_CHAR_NO_CHECK_def split: list.splits if_splits)

lemma incremental_expect [incr_intros]: "incremental_parser (unit_parser (EXPECT_CHAR ch))"
  by unfold_locales (auto simp: unit_parser_def EXPECT_CHAR_def EXPECT_CHAR_NO_CHECK_def split: list.splits if_splits)

text \<open>A parser that looks at its first byte.\<close>

lemma incremental_first [incr_intros]:
  assumes "\<And>c. incremental_parser (g c)" "nil = Ret (-2) \<or> nil = OobRead"
  shows "incremental_parser (\<lambda>s. case s of [] \<Rightarrow> nil | c # rest \<Rightarrow> g c rest)"
  using assms unfolding incremental_parser_def
  by (auto split: list.splits) (metis append_Cons)+

lemma incremental_peek [incr_intros]:
  assumes "\<And>c. incremental_parser (g c)" "nil = Ret (-2) \<or> nil = OobRead"
  shows "incremental_parser (\<lambda>s. case s of [] \<Rightarrow> nil | c # rest \<Rightarrow> g c s)"
  using assms unfolding incremental_parser_def
  by (auto split: list.splits) (metis append_Cons)+


lemma incremental_if [incr_intros]:
  "(b \<Longrightarrow> incremental_parser f) \<Longrightarrow> (\<not> b \<Longrightarrow> incremental_parser g) \<Longrightarrow>
   incremental_parser (\<lambda>s. if b then f s else g s)"
  by (cases b) simp_all

lemma incremental_guard [incr_intros]:
  assumes "incremental_parser f"
  shows "incremental_parser (\<lambda>s. if length s < n then Ret (-2) else f s)"
  using assms unfolding incremental_parser_def by auto

lemma incremental_line_end [incr_intros]: "incremental_parser (line_end tok)"
  unfolding line_end_def by (intro incr_intros) auto

lemma incremental_eol [incr_intros]: "incremental_parser (get_token_to_eol sse)"
  unfolding get_token_to_eol_scan [abs_def] by (intro incr_intros)

lemma skip_spaces_cases:
  "skip_spaces (c # buf) = (case dropWhile (\<lambda>c. c = SP) buf of [] \<Rightarrow> Ret (-2) | d # r \<Rightarrow> Parsed (d # r))"
  by (induction buf arbitrary: c) auto

lemma incremental_skip_spaces [incr_intros]: "incremental_parser (unit_parser skip_spaces)"
proof -
  have "unit_parser skip_spaces = (\<lambda>s. case s of [] \<Rightarrow> OobRead | c # buf \<Rightarrow>
      pbind (scan (\<lambda>c. c = SP) (\<lambda>_. True) buf) (\<lambda>(x, r). Parsed ((), r)))"
  proof
    fix s
    show "unit_parser skip_spaces s = (case s of [] \<Rightarrow> OobRead | c # buf \<Rightarrow>
      pbind (scan (\<lambda>c. c = SP) (\<lambda>_. True) buf) (\<lambda>(x, r). Parsed ((), r)))"
    proof (cases s)
      case (Cons c buf)
      then show ?thesis
        by (cases "dropWhile (\<lambda>c. c = SP) buf")
           (simp_all add: unit_parser_def skip_spaces_cases scan_def
               del: dropWhile_eq_Nil_conv skip_spaces.simps)
    qed (simp add: unit_parser_def)
  qed
  moreover have "incremental_parser \<dots>" by (intro incr_intros) auto
  ultimately show ?thesis by simp
qed

lemma skip_blanks_scan:
  "skip_blanks buf = pbind (scan (\<lambda>c. c = SP \<or> c = HT) (\<lambda>_. True) buf) (\<lambda>(x, r). Parsed r)"
proof (induction buf)
  case (Cons c buf)
  then show ?case by (cases "scan (\<lambda>c. c = SP \<or> c = HT) (\<lambda>_. True) buf") (auto simp: scan_Cons)
qed simp

lemma incremental_skip_blanks [incr_intros]: "incremental_parser (unit_parser skip_blanks)"
proof -
  have "unit_parser skip_blanks = (\<lambda>buf. pbind (scan (\<lambda>c. c = SP \<or> c = HT) (\<lambda>_. True) buf) (\<lambda>(x, r). Parsed ((), r)))"
    by (rule ext) (simp add: unit_parser_def skip_blanks_scan scan_def split: list.split)
  moreover have "incremental_parser \<dots>" by (intro incr_intros)
  ultimately show ?thesis by simp
qed

lemma incremental_PARSE_INT [incr_intros]: "incremental_parser (PARSE_INT mul)"
  unfolding PARSE_INT_def by (intro incr_intros) auto

lemma incremental_PARSE_INT_3 [incr_intros]: "incremental_parser PARSE_INT_3"
  unfolding PARSE_INT_3_def [abs_def] by (intro incr_intros)

lemma incremental_expect_all [incr_intros]: "incremental_parser (unit_parser (expect_all chs))"
proof (induction chs)
  case (Cons ch chs)
  have "unit_parser (expect_all (ch # chs)) = (\<lambda>s. pbind (EXPECT_CHAR_NO_CHECK ch s) (unit_parser (expect_all chs)))"
    by (rule ext, case_tac "EXPECT_CHAR_NO_CHECK ch s") (auto simp: unit_parser_def)
  moreover have "incremental_parser \<dots>" by (intro incr_intros Cons)
  ultimately show ?case by (simp only:)
qed (simp add: unit_parser_def [abs_def] incremental_Parsed)

lemma incremental_version [incr_intros]: "incremental_parser parse_http_version"
  unfolding parse_http_version_def [abs_def] by (intro incr_intros)

lemma incremental_header_name [incr_intros]: "incremental_parser (parse_header_name sse n)"
  unfolding parse_header_name_def by (intro incr_intros) auto

lemma incremental_header_line [incr_intros]: "incremental_parser (parse_header_line sse n)"
  unfolding parse_header_line_def [abs_def] by (intro incr_intros)

lemma parse_headers_step:
  "parse_headers sse mx n = (\<lambda>buf. case buf of [] \<Rightarrow> Ret (-2) | c # rest \<Rightarrow>
     (\<lambda>c buf. if c = CR then (case buf of [] \<Rightarrow> OobRead | _ # rest \<Rightarrow> pbind (EXPECT_CHAR LF rest) (\<lambda>r. Parsed ([], r)))
      else if c = LF then (case buf of [] \<Rightarrow> OobRead | _ # rest \<Rightarrow> Parsed ([], rest))
      else if n = mx then Ret (-1)
      else pbind (parse_header_line sse n buf) (\<lambda>(h, buf').
           pbind (parse_headers sse mx (Suc n) buf') (\<lambda>(hs, r). Parsed (h # hs, r)))) c buf)"
  by (rule ext, subst parse_headers.simps) (simp split: list.split)

lemma incremental_headers: "n \<le> mx \<Longrightarrow> incremental_parser (parse_headers sse mx n)"
proof (induction "mx - n" arbitrary: n)
  case 0
  then show ?case by (subst parse_headers_step, intro incr_intros) auto
next
  case (Suc k)
  then have "incremental_parser (parse_headers sse mx (Suc n))" by simp
  then show ?case by (subst parse_headers_step, intro incr_intros) auto
qed

lemma incremental_headers_0 [incr_intros]: "incremental_parser (parse_headers sse mx 0)"
  by (simp add: incremental_headers)

lemma incremental_skip_empty_line [incr_intros]: "incremental_parser (unit_parser skip_empty_line)"
  unfolding incremental_parser_def unit_parser_def skip_empty_line_def
  by (auto simp: pbind_eqs EXPECT_CHAR_def EXPECT_CHAR_NO_CHECK_def split: list.splits if_splits)

lemma incremental_expect_eol [incr_intros]: "incremental_parser (unit_parser expect_eol)"
  unfolding incremental_parser_def unit_parser_def expect_eol_def
  by (auto simp: pbind_eqs EXPECT_CHAR_def EXPECT_CHAR_NO_CHECK_def split: list.splits if_splits)

lemma incremental_request: "incremental_parser (parse_request sse mx)"
  unfolding parse_request_def [abs_def] by (intro incr_intros) auto

lemma incremental_response: "incremental_parser (parse_response sse mx)"
  unfolding parse_response_def [abs_def] by (intro incr_intros) auto

section \<open>No read past the end\<close>

lemma EXPECT_CHAR_not_Oob [simp]: "EXPECT_CHAR ch buf \<noteq> OobRead"
  by (auto simp: EXPECT_CHAR_def EXPECT_CHAR_NO_CHECK_def split: list.splits)

lemma get_token_to_eol_not_Oob [simp]: "get_token_to_eol sse buf \<noteq> OobRead"
  by (auto simp: get_token_to_eol_scan pbind_eqs line_end_def split: list.splits if_splits dest: scan_Parsed(3))

lemma parse_token_not_Oob: "nx = 32 \<or> nx = 58 \<Longrightarrow> parse_token sse nx buf \<noteq> OobRead"
  by (simp add: parse_token_scan)

lemma parse_token_rest: "nx = 32 \<or> nx = 58 \<Longrightarrow> parse_token sse nx buf = Parsed (tok, r) \<Longrightarrow> r \<noteq> []"
  by (auto simp: parse_token_scan dest: scan_Parsed(3))

lemma ADVANCE_TOKEN_rest: "ADVANCE_TOKEN sse buf = Parsed (tok, r) \<Longrightarrow> r \<noteq> []"
  by (auto simp: ADVANCE_TOKEN_scan dest: scan_Parsed(3))

lemma ADVANCE_TOKEN_not_Oob [simp]: "ADVANCE_TOKEN sse buf \<noteq> OobRead"
  by (simp add: ADVANCE_TOKEN_scan)

lemma skip_blanks_not_Oob [simp]: "skip_blanks buf \<noteq> OobRead"
  by (simp add: skip_blanks_scan pbind_eqs split_beta)

lemma skip_spaces_not_Oob: "buf \<noteq> [] \<Longrightarrow> skip_spaces buf \<noteq> OobRead"
  by (cases buf) (auto simp: skip_spaces_cases simp del: skip_spaces.simps split: list.splits)

lemma parse_header_name_not_Oob: "buf \<noteq> [] \<Longrightarrow> parse_header_name sse n buf \<noteq> OobRead"
  by (auto simp: parse_header_name_def pbind_eqs parse_token_not_Oob split: list.splits
      dest: parse_token_rest [rotated])

lemma parse_header_line_not_Oob: "buf \<noteq> [] \<Longrightarrow> parse_header_line sse n buf \<noteq> OobRead"
  by (auto simp: parse_header_line_def pbind_eqs parse_header_name_not_Oob)

lemma parse_headers_not_Oob: "parse_headers sse mx n buf \<noteq> OobRead"
proof (induction sse mx n buf rule: parse_headers.induct)
  case (1 sse mx n buf)
  then show ?case
    by (subst parse_headers.simps) (auto simp: pbind_eqs parse_header_line_not_Oob split: list.split)
qed

lemma expect_all_Parsed: "expect_all chs buf = Parsed r \<longleftrightarrow> buf = chs @ r"
  by (induction chs arbitrary: buf)
     (auto simp: pbind_eqs EXPECT_CHAR_NO_CHECK_def split: list.splits)

lemma expect_all_not_Oob: "length chs \<le> length buf \<Longrightarrow> expect_all chs buf \<noteq> OobRead"
  by (induction chs arbitrary: buf)
     (auto simp: pbind_eqs EXPECT_CHAR_NO_CHECK_def split: list.splits)

lemma PARSE_INT_Parsed: "PARSE_INT mul buf = Parsed (v, r) \<Longrightarrow> \<exists>c. buf = c # r \<and> 48 \<le> c \<and> c \<le> 57 \<and> v = mul * (uint c - 48)"
  by (auto simp: PARSE_INT_def not_less split: list.splits if_splits)

lemma PARSE_INT_not_Oob: "buf \<noteq> [] \<Longrightarrow> PARSE_INT mul buf \<noteq> OobRead"
  by (auto simp: PARSE_INT_def split: list.splits)

lemma parse_http_version_Parsed:
  assumes "parse_http_version buf = Parsed (v, r)"
  shows "\<exists>c. buf = [72, 84, 84, 80, 47, 49, 46, c] @ r \<and> 48 \<le> c \<and> c \<le> 57 \<and> v = uint c - 48 \<and> r \<noteq> []"
  using assms
  by (auto simp: parse_http_version_def pbind_eqs expect_all_Parsed simp del: expect_all.simps
      split: if_splits dest!: PARSE_INT_Parsed)

lemma parse_http_version_not_Oob: "parse_http_version buf \<noteq> OobRead"
proof -
  have "9 \<le> length buf \<Longrightarrow> expect_all [72, 84, 84, 80, 47, 49, 46] buf = Parsed r \<Longrightarrow> r \<noteq> []" for r
    by (auto simp: expect_all_Parsed simp del: expect_all.simps)
  then show ?thesis
    using expect_all_not_Oob [of "[72, 84, 84, 80, 47, 49, 46]" buf] PARSE_INT_not_Oob
    by (auto simp: parse_http_version_def pbind_eqs not_less simp del: expect_all.simps)
qed

lemma skip_empty_line_not_Oob [simp]: "skip_empty_line buf \<noteq> OobRead"
  by (auto simp: skip_empty_line_def split: list.splits)

lemma expect_eol_not_Oob: "buf \<noteq> [] \<Longrightarrow> expect_eol buf \<noteq> OobRead"
  by (auto simp: expect_eol_def split: list.splits)

lemma parse_request_not_Oob: "parse_request sse mx buf \<noteq> OobRead"
proof
  assume "parse_request sse mx buf = OobRead"
  then show False
    by (auto simp: parse_request_def pbind_eqs parse_token_not_Oob skip_spaces_not_Oob
        parse_http_version_not_Oob parse_headers_not_Oob expect_eol_not_Oob split: if_splits
        dest!: parse_token_rest [rotated] ADVANCE_TOKEN_rest parse_http_version_Parsed)
qed

lemma PARSE_INT_3_not_Oob: "\<not> length buf < 4 \<Longrightarrow> PARSE_INT_3 buf \<noteq> OobRead"
  by (cases buf; cases "tl buf"; cases "tl (tl buf)") (auto simp: PARSE_INT_3_def PARSE_INT_def pbind_eqs)

lemma parse_response_not_Oob: "parse_response sse mx buf \<noteq> OobRead"
proof (cases "parse_http_version buf")
  case (Parsed p)
  obtain v c b where p: "p = (v, c # b)" using parse_http_version_Parsed [of buf "fst p" "snd p"] Parsed
    by (cases p) (auto simp: neq_Nil_conv)
  have "skip_spaces (c # b) \<noteq> OobRead" by (rule skip_spaces_not_Oob) simp
  then show ?thesis
    using Parsed p
    by (auto simp: parse_response_def pbind_eqs PARSE_INT_3_not_Oob parse_headers_not_Oob
        simp del: skip_spaces.simps split: if_splits)
qed (auto simp: parse_response_def parse_http_version_not_Oob)

lemma is_complete_loop_not_Oob [simp]: "is_complete_loop n buf \<noteq> OobRead"
  by (induction n buf rule: is_complete_loop.induct) (auto split: list.splits)

lemma is_complete_not_Oob: "last_len \<le> length buf + 3 \<Longrightarrow> is_complete buf last_len \<noteq> OobRead"
  by (auto simp: is_complete_def)

lemma is_complete_Ret: "is_complete_loop n buf = Ret e \<Longrightarrow> e = -1 \<or> e = -2"
proof (induction n buf rule: is_complete_loop.induct)
  case (2 n c buf)
  consider "c = CR" "buf = []" | d b where "c = CR" "buf = d # b" | "c = LF" | "c \<noteq> CR" "c \<noteq> LF" by (cases buf) auto
  then show ?case
  proof cases
    case 1 with "2.prems" show ?thesis by simp
  next
    case (2 d b) with "2.prems" "2.IH"(1) [OF _ 2(2)] show ?thesis by (simp split: if_splits)
  next
    case 3 with "2.prems" "2.IH"(2) show ?thesis by (simp split: if_splits)
  next
    case 4 with "2.prems" "2.IH"(3) show ?thesis by simp
  qed
qed simp

lemma phr_parse_with_not_Oob:
  assumes "\<And>b. f b \<noteq> OobRead" "last_len \<le> length buf + 3"
  shows "phr_parse_with f buf last_len \<noteq> OobRead"
  using assms is_complete_not_Oob [of last_len buf] by (auto simp: phr_parse_with_def pbind_eq_Oob)

section \<open>What an accepted request looks like\<close>

definition wf_header :: "phr_header \<Rightarrow> bool" where
  "wf_header h \<longleftrightarrow>
     (case hname h of None \<Rightarrow> True
      | Some nm \<Rightarrow> nm \<noteq> [] \<and> (\<forall>c \<in> set nm. is_token_char c)) \<and>
     (\<forall>c \<in> set (hvalue h). \<not> is_ctl c) \<and>
     (hvalue h \<noteq> [] \<longrightarrow> last (hvalue h) \<noteq> SP \<and> last (hvalue h) \<noteq> HT)"

definition wf_request :: "nat \<Rightarrow> phr_request \<Rightarrow> bool" where
  "wf_request mx q \<longleftrightarrow>
     req_method q \<noteq> [] \<and> (\<forall>c \<in> set (req_method q). is_token_char c) \<and>
     path q \<noteq> [] \<and> (\<forall>c \<in> set (path q). c \<noteq> SP \<and> \<not> bad_path_char c) \<and>
     minor_version q \<in> {0..9} \<and> length (headers q) \<le> mx \<and>
     (\<forall>h \<in> set (headers q). wf_header h) \<and>
     (headers q \<noteq> [] \<longrightarrow> hname (hd (headers q)) \<noteq> None)"

lemma set_trim_trailing: "set (trim_trailing v) \<subseteq> set v"
  by (auto simp: trim_trailing_def dest: set_dropWhileD)

lemma last_trim_trailing: "trim_trailing v \<noteq> [] \<Longrightarrow> last (trim_trailing v) \<noteq> SP \<and> last (trim_trailing v) \<noteq> HT"
  using hd_dropWhile [of "\<lambda>c. c = SP \<or> c = HT" "rev v"]
  by (auto simp: trim_trailing_def last_rev simp del: dropWhile_eq_Nil_conv)

lemma parse_header_line_wf:
  assumes "parse_header_line sse n buf = Parsed (h, r)"
  shows "wf_header h" "n = 0 \<Longrightarrow> hname h \<noteq> None"
proof -
  from assms obtain nm b v where s: "parse_header_name sse n buf = Parsed (nm, b)"
    "get_token_to_eol sse b = Parsed (v, r)" "h = \<lparr>hname = nm, hvalue = trim_trailing v\<rparr>"
    by (auto simp: parse_header_line_def pbind_eqs)
  from parse_header_name_Parsed [OF s(1)] get_token_to_eol_Parsed [OF s(2)] set_trim_trailing [of v]
    last_trim_trailing [of v]
  show "wf_header h" by (auto simp: wf_header_def s(3) split: option.splits)
  show "n = 0 \<Longrightarrow> hname h \<noteq> None"
    using s(1) by (auto simp: s(3) parse_header_name_def pbind_eqs neq_Nil_conv split: list.splits if_splits)
qed

lemma parse_headers_wf:
  "parse_headers sse mx n buf = Parsed (hs, r) \<Longrightarrow> n \<le> mx \<Longrightarrow>
   n + length hs \<le> mx \<and> (\<forall>h \<in> set hs. wf_header h) \<and> (n = 0 \<longrightarrow> hs \<noteq> [] \<longrightarrow> hname (hd hs) \<noteq> None)"
proof (induction sse mx n buf arbitrary: hs rule: parse_headers.induct)
  case (1 sse mx n buf)
  show ?case
  proof (cases hs)
    case (Cons h hs')
    from "1.prems"(1) Cons obtain c rest b where s: "buf = c # rest" "c \<noteq> CR" "c \<noteq> LF" "n \<noteq> mx"
      "parse_header_line sse n buf = Parsed (h, b)" "parse_headers sse mx (Suc n) b = Parsed (hs', r)"
      by (subst (asm) parse_headers.simps) (auto simp: pbind_eqs split: list.splits if_splits)
    from "1.IH" [OF s(1-4) s(5) refl s(6)] "1.prems"(2) s(4) parse_header_line_wf [OF s(5)] Cons
    show ?thesis by auto
  qed (use "1.prems" in auto)
qed

lemma parse_request_wf:
  assumes "parse_request sse mx buf = Parsed (q, r)"
  shows "wf_request mx q"
proof -
  from assms obtain b1 b2 b3 b4 b5 b6 b7 where
    s: "parse_token sse SP b1 = Parsed (req_method q, b2)" "ADVANCE_TOKEN sse b3 = Parsed (path q, b4)"
      "req_method q \<noteq> []" "path q \<noteq> []" "parse_http_version b5 = Parsed (minor_version q, b6)"
      "parse_headers sse mx 0 b7 = Parsed (headers q, r)"
    by (auto simp: parse_request_def pbind_eqs split: if_splits)
  from scan_Parsed(2) [OF s(1) [unfolded parse_token_scan [OF disjI1 [OF refl]]]]
    scan_Parsed(2) [OF s(2) [unfolded ADVANCE_TOKEN_scan]] s(3,4)
    parse_http_version_Parsed [OF s(5)] parse_headers_wf [OF s(6)]
  show ?thesis by (auto simp: wf_request_def word_le_def)
qed

section \<open>Printing a request\<close>

definition render_header :: "phr_header \<Rightarrow> byte list" where
  "render_header h = the (hname h) @ [58, SP] @ hvalue h @ [CR, LF]"

definition render_request :: "phr_request \<Rightarrow> byte list" where
  "render_request q =
     req_method q @ [SP] @ path q @ [SP, 72, 84, 84, 80, 47, 49, 46, 48 + of_int (minor_version q), CR, LF] @
     concat (map render_header (headers q)) @ [CR, LF]"

definition plain_header :: "phr_header \<Rightarrow> bool" where
  "plain_header h \<longleftrightarrow> wf_header h \<and> hname h \<noteq> None \<and>
     (hvalue h \<noteq> [] \<longrightarrow> hd (hvalue h) \<noteq> SP \<and> hd (hvalue h) \<noteq> HT)"

lemma scan_hit:
  "\<forall>c \<in> set tok. P c \<Longrightarrow> \<not> P c \<Longrightarrow> good c \<Longrightarrow> scan P good (tok @ c # r) = Parsed (tok, c # r)"
  by (simp add: scan_def takeWhile_append2 dropWhile_append2)

lemma is_token_char_not [simp]:
  "\<not> is_token_char SP" "\<not> is_token_char CR" "\<not> is_token_char LF" "\<not> is_token_char HT" "\<not> is_token_char 58"
  by (simp_all add: is_token_char_iff)

lemma is_ctl_simps [simp]: "is_ctl CR" "is_ctl LF" "\<not> is_ctl SP" "\<not> is_ctl HT"
  by (simp_all add: is_ctl_def)

lemma parse_token_hit:
  assumes "\<forall>c \<in> set tok. is_token_char c" "nx = 32 \<or> nx = 58"
  shows "parse_token sse nx (tok @ nx # r) = Parsed (tok, nx # r)"
  using assms by (subst parse_token_scan [OF assms(2)], intro scan_hit) auto

lemma skip_spaces_one: "hd r \<noteq> SP \<Longrightarrow> r \<noteq> [] \<Longrightarrow> skip_spaces (SP # r) = Parsed r"
  by (cases r) simp_all

lemma skip_blanks_one: "r \<noteq> [] \<Longrightarrow> hd r \<noteq> SP \<Longrightarrow> hd r \<noteq> HT \<Longrightarrow> skip_blanks (SP # r) = Parsed r"
  by (cases r) simp_all

lemma get_token_to_eol_hit:
  assumes "\<forall>c \<in> set v. \<not> is_ctl c"
  shows "get_token_to_eol sse (v @ CR # LF # r) = Parsed (v, r)"
proof -
  have "scan (\<lambda>c. \<not> is_ctl c) (\<lambda>_. True) (v @ CR # LF # r) = Parsed (v, CR # LF # r)"
    using assms by (intro scan_hit) auto
  then show ?thesis by (simp add: get_token_to_eol_scan line_end_def EXPECT_CHAR_def EXPECT_CHAR_NO_CHECK_def)
qed

lemma trim_trailing_id:
  assumes "v \<noteq> [] \<longrightarrow> last v \<noteq> SP \<and> last v \<noteq> HT"
  shows "trim_trailing v = v"
proof (cases v rule: rev_cases)
  case (snoc xs x)
  with assms show ?thesis by (simp add: trim_trailing_def)
qed (simp add: trim_trailing_def)

lemma parse_header_line_render:
  assumes "plain_header h"
  shows "parse_header_line sse n (render_header h @ r) = Parsed (h, r)"
proof -
  obtain nm v where h: "h = \<lparr>hname = Some nm, hvalue = v\<rparr>" using assms by (cases h) (auto simp: plain_header_def)
  have nm: "nm \<noteq> []" "\<forall>c \<in> set nm. is_token_char c" and v: "\<forall>c \<in> set v. \<not> is_ctl c"
    "v \<noteq> [] \<longrightarrow> last v \<noteq> SP \<and> last v \<noteq> HT" "v \<noteq> [] \<longrightarrow> hd v \<noteq> SP \<and> hd v \<noteq> HT"
    using assms by (auto simp: plain_header_def wf_header_def h)
  obtain c cs where c: "nm = c # cs" "is_token_char c" using nm by (cases nm) auto
  have ne: "c \<noteq> SP" "c \<noteq> HT" using c(2) by auto
  have tok: "parse_token sse 58 (c # cs @ 58 # SP # v @ CR # LF # r) = Parsed (nm, 58 # SP # v @ CR # LF # r)"
    using parse_token_hit [of nm 58 sse "SP # v @ CR # LF # r"] nm c(1) by simp
  have bl: "skip_blanks (SP # v @ CR # LF # r) = Parsed (v @ CR # LF # r)"
    using v(3) by (intro skip_blanks_one) (cases v; simp)+
  have "parse_header_name sse n (nm @ 58 # SP # v @ CR # LF # r) = Parsed (Some nm, v @ CR # LF # r)"
    using tok bl ne nm(1) c(1) by (simp add: parse_header_name_def del: skip_blanks.simps)
  then show ?thesis
    by (simp add: parse_header_line_def render_header_def h get_token_to_eol_hit [OF v(1)] trim_trailing_id [OF v(2)])
qed

lemma render_header_first:
  assumes "plain_header h"
  obtains c cs where "render_header h = c # cs" "is_token_char c"
  using assms by (cases "the (hname h)") (auto simp: plain_header_def wf_header_def render_header_def)

lemma parse_headers_render:
  "\<forall>h \<in> set hs. plain_header h \<Longrightarrow> n + length hs \<le> mx \<Longrightarrow>
   parse_headers sse mx n (concat (map render_header hs) @ CR # LF # r) = Parsed (hs, r)"
proof (induction hs arbitrary: n)
  case Nil
  then show ?case
    by (subst parse_headers.simps) (simp add: EXPECT_CHAR_def EXPECT_CHAR_NO_CHECK_def)
next
  case (Cons h hs)
  let ?rest = "concat (map render_header hs) @ CR # LF # r"
  obtain c cs where c: "render_header h = c # cs" "is_token_char c" using Cons.prems render_header_first by auto
  have ne: "c \<noteq> CR" "c \<noteq> LF" using c(2) by auto
  have "parse_header_line sse n (c # cs @ ?rest) = Parsed (h, ?rest)"
    using parse_header_line_render [of h sse n ?rest] Cons.prems(1) c(1) by simp
  moreover have "parse_headers sse mx (Suc n) ?rest = Parsed (hs, r)" using Cons by simp
  ultimately show ?case
    using ne Cons.prems(2) c(1) by (subst parse_headers.simps) simp
qed

lemma parse_request_render:
  assumes "wf_request mx q" "\<forall>h \<in> set (headers q). plain_header h"
  shows "parse_request sse mx (render_request q @ body) = Parsed (q, body)"
proof -
  let ?d = "48 + of_int (minor_version q) :: byte"
  let ?h = "concat (map render_header (headers q)) @ CR # LF # body"
  let ?v = "72 # 84 # 84 # 80 # 47 # 49 # 46 # ?d # CR # LF # ?h"
  have m: "req_method q \<noteq> []" "\<forall>c \<in> set (req_method q). is_token_char c" and p: "path q \<noteq> []"
    "\<forall>c \<in> set (path q). c \<noteq> SP \<and> \<not> bad_path_char c" and d: "0 \<le> minor_version q" "minor_version q \<le> 9"
    and n: "length (headers q) \<le> mx" using assms(1) by (auto simp: wf_request_def)
  obtain c cs where c: "req_method q = c # cs" "is_token_char c" using m by (cases "req_method q") auto
  obtain e es where e: "path q = e # es" "e \<noteq> SP" using p by (cases "path q") auto
  have ne: "c \<noteq> CR" "c \<noteq> LF" using c(2) by auto
  have bytes: "render_request q @ body = req_method q @ SP # path q @ SP # ?v" by (simp add: render_request_def)
  have 1: "skip_empty_line (render_request q @ body) = Parsed (render_request q @ body)"
    using ne by (simp add: bytes c(1) skip_empty_line_def)
  have 2: "parse_token sse SP (req_method q @ SP # path q @ SP # ?v) = Parsed (req_method q, SP # path q @ SP # ?v)"
    by (rule parse_token_hit [OF m(2)]) simp
  have 3: "skip_spaces (SP # path q @ SP # ?v) = Parsed (path q @ SP # ?v)"
    by (rule skip_spaces_one) (use e in auto)
  have 4: "ADVANCE_TOKEN sse (path q @ SP # ?v) = Parsed (path q, SP # ?v)"
    unfolding ADVANCE_TOKEN_scan by (rule scan_hit [OF p(2)]) auto
  have 5: "skip_spaces (SP # ?v) = Parsed ?v" by (rule skip_spaces_one) auto
  have ud: "uint ?d = 48 + minor_version q"
  proof -
    have "?d = word_of_int (48 + minor_version q)" by simp
    then have "uint ?d = take_bit 8 (48 + minor_version q)" by (simp only: unsigned_of_int) simp
    with d show ?thesis by (simp add: take_bit_int_eq_self)
  qed
  have 6: "parse_http_version ?v = Parsed (minor_version q, CR # LF # ?h)"
    using d ud by (simp add: parse_http_version_def EXPECT_CHAR_NO_CHECK_def PARSE_INT_def word_less_def)
  have 7: "expect_eol (CR # LF # ?h) = Parsed ?h" by (simp add: expect_eol_def EXPECT_CHAR_def EXPECT_CHAR_NO_CHECK_def)
  have 8: "parse_headers sse mx 0 ?h = Parsed (headers q, body)"
    using assms(2) n by (intro parse_headers_render) auto
  show ?thesis
    by (simp add: parse_request_def 1 [unfolded bytes] bytes 2 3 4 5 6 7 8 m(1) p(1)
        del: skip_spaces.simps)
qed

interpretation req: incremental_parser "parse_request sse mx" for sse mx
  by (rule incremental_request)

interpretation resp: incremental_parser "parse_response sse mx" for sse mx
  by (rule incremental_response)

interpretation hdrs: incremental_parser "parse_headers sse mx 0" for sse mx
  by (rule incremental_headers_0)

lemma consumed_exact:
  "length s \<le> INT_MAX \<Longrightarrow> consumed s r = int (length s - length r)"
  by (simp add: consumed_def signed_of_nat signed_take_bit_int_eq_self_iff INT_MAX_def)

lemma consumed_append: "length r \<le> length s \<Longrightarrow> consumed (s @ t) (r @ t) = consumed s r"
  by (simp add: consumed_def)

lemma unit_length_rest:
  "incremental_parser (unit_parser f) \<Longrightarrow> f s = Parsed r \<Longrightarrow> length r \<le> length s"
  using incremental_parser.length_rest [of "unit_parser f" s "()" r] by (simp add: unit_parser_def)

lemma parse_request_progress:
  assumes "parse_request sse mx s = Parsed (q, r)"
  shows "length r < length s"
proof -
  from assms obtain b1 b2 b3 b4 b5 b6 b7 where
    s: "skip_empty_line s = Parsed b1" "parse_token sse SP b1 = Parsed (req_method q, b2)"
      "skip_spaces b2 = Parsed b3" "ADVANCE_TOKEN sse b3 = Parsed (path q, b4)" "skip_spaces b4 = Parsed b5"
      "req_method q \<noteq> []" "parse_http_version b5 = Parsed (minor_version q, b6)" "expect_eol b6 = Parsed b7"
      "parse_headers sse mx 0 b7 = Parsed (headers q, r)"
    by (auto simp: parse_request_def pbind_eqs split: if_splits)
  have "length b1 \<le> length s" "length b3 \<le> length b2" "length b5 \<le> length b4" "length b7 \<le> length b6"
    using s by (blast intro: unit_length_rest incr_intros)+
  moreover have "b1 = req_method q @ b2" using s(2) by (auto simp: parse_token_scan dest: scan_Parsed(1))
  moreover have "length b4 \<le> length b3" "length b6 \<le> length b5" "length r \<le> length b7"
    using s by (blast intro: incremental_parser.length_rest incr_intros)+
  ultimately show ?thesis using s(6) by (cases "req_method q") auto
qed

section \<open>The vectorised code\<close>

lemma parse_header_line_sse: "parse_header_line sse n buf = parse_header_line False n buf"
  by (simp add: parse_header_line_def parse_header_name_def parse_token_scan get_token_to_eol_scan
      cong: if_cong list.case_cong)

lemma parse_headers_sse: "parse_headers True mx n buf = parse_headers False mx n buf"
proof (induction "True" mx n buf rule: parse_headers.induct)
  case (1 mx n buf)
  show ?case
  proof (cases buf)
    case (Cons c rest)
    have *: "pbind (parse_header_line False n buf) (\<lambda>(h, buf').
               pbind (parse_headers True mx (Suc n) buf') (\<lambda>(hs, r). Parsed (h # hs, r))) =
             pbind (parse_header_line False n buf) (\<lambda>(h, buf').
               pbind (parse_headers False mx (Suc n) buf') (\<lambda>(hs, r). Parsed (h # hs, r)))"
      if "c \<noteq> CR" "c \<noteq> LF" "n \<noteq> mx"
      using 1 [OF Cons that] by (intro pbind_cong refl) (auto simp: parse_header_line_sse [of True])
    show ?thesis
      using * by (subst (1 2) parse_headers.simps) (simp add: Cons parse_header_line_sse [of True])
  qed (simp add: parse_headers.simps)
qed

lemma fast_paths_sse:
  "parse_token True SP = parse_token False SP" "ADVANCE_TOKEN True = ADVANCE_TOKEN False"
  "get_token_to_eol True = get_token_to_eol False" "parse_headers True = parse_headers False"
  by (intro ext, simp add: parse_token_scan ADVANCE_TOKEN_scan get_token_to_eol_scan parse_headers_sse)+

lemma parse_request_sse: "parse_request True mx buf = parse_request False mx buf"
  unfolding parse_request_def fast_paths_sse ..

lemma parse_response_sse: "parse_response True mx buf = parse_response False mx buf"
  unfolding parse_response_def fast_paths_sse ..

section \<open>Properties\<close>

text \<open>
  C9. \<^verbatim>\<open>phr_parse_request\<close> on any input of \<open>len\<close> bytes: no byte past the end is read, the result
  is \<^verbatim>\<open>-1\<close>, \<^verbatim>\<open>-2\<close> or the number of bytes consumed, which is positive and at most \<open>len\<close>; and an
  accepted request has a non-empty method of token characters, a non-empty path without blanks
  and control characters, a one-digit minor version and at most \<^verbatim>\<open>max_headers\<close> headers whose
  names are tokens and whose values are trimmed and free of control characters.
\<close>

theorem phr_parse_request_safe:
  assumes "length s \<le> INT_MAX" "last_len \<le> length s"
  shows "(\<exists>n q. phr_parse_request sse s mx last_len = Parsed (n, q) \<and> 0 < n \<and> n \<le> int (length s) \<and>
            wf_request mx q) \<or>
         phr_parse_request sse s mx last_len \<in> {Ret (-1), Ret (-2)}"
proof (cases "phr_parse_request sse s mx last_len")
  case (Parsed p)
  obtain n q where p: "p = (n, q)" by (cases p)
  with Parsed obtain r where r: "parse_request sse mx s = Parsed (q, r)" "n = consumed s r"
    by (auto simp: phr_parse_request_def phr_parse_with_def pbind_eqs)
  from parse_request_progress [OF r(1)] parse_request_wf [OF r(1)] consumed_exact [OF assms(1), of r]
  show ?thesis using Parsed p r(2) by auto
next
  case (Ret e)
  then have "e = -1 \<or> e = -2"
    using req.verdicts is_complete_Ret
    by (fastforce simp: phr_parse_request_def phr_parse_with_def pbind_eqs is_complete_def split: if_splits)
  with Ret show ?thesis by auto
next
  case OobRead
  then show ?thesis
    using phr_parse_with_not_Oob [of "parse_request sse mx" last_len s] assms(2)
    by (simp add: phr_parse_request_def parse_request_not_Oob)
qed


text \<open>
  C11. A printed request parses back to itself, whatever follows it: the parser consumes exactly
  the printed bytes.
\<close>

theorem phr_parse_request_roundtrip:
  assumes "wf_request mx q" "\<forall>h \<in> set (headers q). plain_header h"
    and "length (render_request q @ body) \<le> INT_MAX"
  shows "phr_parse_request sse (render_request q @ body) mx 0 = Parsed (int (length (render_request q)), q)"
  using parse_request_render [OF assms(1,2), of sse body] consumed_exact [OF assms(3), of body]
  by (simp add: phr_parse_request_def phr_parse_with_def)


text \<open>
  C12. The vectorised code and the portable code are the same function: requests, responses and
  header blocks are parsed alike with and without \<^verbatim>\<open>__SSE4_2__\<close>.
\<close>

theorem phr_sse_equivalent:
  "phr_parse_request True s mx last_len = phr_parse_request False s mx last_len \<and>
   phr_parse_response True s mx last_len = phr_parse_response False s mx last_len \<and>
   phr_parse_headers True s mx last_len = phr_parse_headers False s mx last_len"
  by (simp add: phr_parse_request_def phr_parse_response_def phr_parse_headers_def phr_parse_with_def
      parse_request_sse parse_response_sse parse_headers_sse)

definition sample_request :: phr_request where
  "sample_request = \<lparr>req_method = [71, 69, 84], path = [47], minor_version = 1,
     headers = [\<lparr>hname = Some [72], hvalue = [97]\<rparr>]\<rparr>"

lemma sample_request_ok:
  "wf_request 100 sample_request" "\<forall>h \<in> set (headers sample_request). plain_header h"
  "render_request sample_request =
     [71, 69, 84, 32, 47, 32, 72, 84, 84, 80, 47, 49, 46, 49, 13, 10, 72, 58, 32, 97, 13, 10, 13, 10]"
  by (simp_all add: sample_request_def wf_request_def wf_header_def plain_header_def is_token_char_iff
      bad_path_char_def is_ctl_def render_request_def render_header_def)

theorem phr_parse_request_roundtrip_witness:
  "phr_parse_request True
     ([71, 69, 84, 32, 47, 32, 72, 84, 84, 80, 47, 49, 46, 49, 13, 10, 72, 58, 32, 97, 13, 10, 13, 10] @ [1, 2])
     100 0 = Parsed (24, sample_request)"
  using phr_parse_request_roundtrip [OF sample_request_ok(1,2), of "[1, 2]" True]
  by (simp add: sample_request_ok(3) INT_MAX_def)

theorem phr_parse_request_safe_witness:
  "length [71 :: byte, 69, 84] \<le> INT_MAX \<and>
   ((\<exists>n q. phr_parse_request True [71, 69, 84] 100 2 = Parsed (n, q) \<and> 0 < n \<and> n \<le> 3 \<and> wf_request 100 q) \<or>
    phr_parse_request True [71, 69, 84] 100 2 \<in> {Ret (-1), Ret (-2)})"
  using phr_parse_request_safe [of "[71, 69, 84]" 2 True 100] by (simp add: INT_MAX_def)


end
