(* ===== verification/Sha1.thy ===== *)
theory Sha1
  imports Prelude
begin

text \<open>
  \<^verbatim>\<open>sha1\<close> of \<^verbatim>\<open>src/util.cc\<close>, and the proof that it is the SHA-1 of FIPS 180-4.

  The message buffer \<^verbatim>\<open>msg\<close> is a list of bytes written by index as the code does. The
  schedule \<^verbatim>\<open>w[80]\<close> is a list that the loop extends, the five chaining words are a tuple.
  The second half of the theory states the standard's own definitions (padding by the smallest
  number of zero bits, rotations, \<open>Ch\<close> and \<open>Maj\<close> with exclusive or, the schedule as a
  recursion on the index) and relates the two.
\<close>

unbundle bit_operations_syntax

section \<open>The code\<close>

type_synonym sha_state = "u32 \<times> u32 \<times> u32 \<times> u32 \<times> u32"

definition sha1_init :: sha_state where
  "sha1_init = (0x67452301, 0xEFCDAB89, 0x98BADCFE, 0x10325476, 0xC3D2E1F0)"

definition sha1_padded_len :: "nat \<Rightarrow> nat" where
  "sha1_padded_len len = ((len + 8) div 64 + 1) * 64"

text \<open>The padded message: a zeroed buffer, the data, the byte \<^verbatim>\<open>0x80\<close> and the bit length.\<close>

definition sha1_pad :: "byte list \<Rightarrow> byte list" where
  "sha1_pad data =
     (let len = length data; padded_len = sha1_padded_len len;
          msg = data @ drop len (replicate padded_len 0);
          msg = msg[len := 0x80];
          bit_len = (of_nat len * 8 :: 64 word)
      in foldl (\<lambda>m i. m[padded_len - 1 - i := ucast (drop_bit (i * 8) bit_len AND 0xFF)]) msg [0..<8])"

definition sha1_word :: "byte list \<Rightarrow> nat \<Rightarrow> u32" where
  "sha1_word blk i =
     push_bit 24 (ucast (blk ! (i * 4))) OR push_bit 16 (ucast (blk ! (i * 4 + 1))) OR
     push_bit 8 (ucast (blk ! (i * 4 + 2))) OR ucast (blk ! (i * 4 + 3))"

definition sha1_schedule :: "byte list \<Rightarrow> u32 list" where
  "sha1_schedule blk =
     foldl (\<lambda>w i. let x = w ! (i - 3) XOR w ! (i - 8) XOR w ! (i - 14) XOR w ! (i - 16)
                  in w @ [push_bit 1 x OR drop_bit 31 x])
       (map (sha1_word blk) [0..<16]) [16..<80]"

definition sha1_f :: "nat \<Rightarrow> u32 \<Rightarrow> u32 \<Rightarrow> u32 \<Rightarrow> u32" where
  "sha1_f i b c d =
     (if i < 20 then (b AND c) OR (NOT b AND d)
      else if i < 40 then b XOR c XOR d
      else if i < 60 then (b AND c) OR (b AND d) OR (c AND d)
      else b XOR c XOR d)"

definition sha1_k :: "nat \<Rightarrow> u32" where
  "sha1_k i =
     (if i < 20 then 0x5A827999 else if i < 40 then 0x6ED9EBA1 else if i < 60 then 0x8F1BBCDC
      else 0xCA62C1D6)"

definition sha1_round :: "u32 list \<Rightarrow> sha_state \<Rightarrow> nat \<Rightarrow> sha_state" where
  "sha1_round w s i =
     (case s of (a, b, c, d, e) \<Rightarrow>
        let temp = (push_bit 5 a OR drop_bit 27 a) + sha1_f i b c d + e + sha1_k i + w ! i
        in (temp, a, push_bit 30 b OR drop_bit 2 b, c, d))"

definition sha1_block :: "sha_state \<Rightarrow> byte list \<Rightarrow> sha_state" where
  "sha1_block h blk =
     (case (h, foldl (sha1_round (sha1_schedule blk)) h [0..<80]) of
        ((h0, h1, h2, h3, h4), (a, b, c, d, e)) \<Rightarrow> (h0 + a, h1 + b, h2 + c, h3 + d, h4 + e))"

function sha1_blocks :: "sha_state \<Rightarrow> byte list \<Rightarrow> sha_state" where
  "sha1_blocks h msg =
     (if msg = [] then h else sha1_blocks (sha1_block h (take 64 msg)) (drop 64 msg))"
  by pat_completeness auto
termination by (relation "measure (\<lambda>(h, msg). length msg)") auto

declare sha1_blocks.simps [simp del]

definition sha1_put_word :: "u32 \<Rightarrow> byte list" where
  "sha1_put_word x =
     [ucast (drop_bit 24 x AND 0xFF), ucast (drop_bit 16 x AND 0xFF),
      ucast (drop_bit 8 x AND 0xFF), ucast (x AND 0xFF)]"

definition sha1 :: "byte list \<Rightarrow> byte list" where
  "sha1 data =
     (case sha1_blocks sha1_init (sha1_pad data) of (h0, h1, h2, h3, h4) \<Rightarrow>
        sha1_put_word h0 @ sha1_put_word h1 @ sha1_put_word h2 @ sha1_put_word h3 @ sha1_put_word h4)"

section \<open>FIPS 180-4\<close>

definition fips_Ch :: "u32 \<Rightarrow> u32 \<Rightarrow> u32 \<Rightarrow> u32" where
  "fips_Ch x y z = (x AND y) XOR (NOT x AND z)"

definition fips_Parity :: "u32 \<Rightarrow> u32 \<Rightarrow> u32 \<Rightarrow> u32" where
  "fips_Parity x y z = x XOR y XOR z"

definition fips_Maj :: "u32 \<Rightarrow> u32 \<Rightarrow> u32 \<Rightarrow> u32" where
  "fips_Maj x y z = (x AND y) XOR (x AND z) XOR (y AND z)"

definition fips_f :: "nat \<Rightarrow> u32 \<Rightarrow> u32 \<Rightarrow> u32 \<Rightarrow> u32" where
  "fips_f t = (if t \<le> 19 then fips_Ch else if t \<le> 39 then fips_Parity else if t \<le> 59 then fips_Maj
               else fips_Parity)"

text \<open>Section 5.1.1: a one bit, the fewest zero bits, and the length in 64 bits, here in bytes.\<close>

definition be64 :: "64 word \<Rightarrow> byte list" where
  "be64 x = map (\<lambda>i. ucast (drop_bit (8 * (7 - i)) x)) [0..<8]"

definition fips_zeros :: "nat \<Rightarrow> nat" where
  "fips_zeros len = (LEAST k. (len + 1 + k) mod 64 = 56)"

definition fips_pad :: "byte list \<Rightarrow> byte list" where
  "fips_pad data =
     data @ [0x80] @ replicate (fips_zeros (length data)) 0 @ be64 (of_nat (8 * length data))"

text \<open>Section 6.1.2, step 1: the message schedule by recursion on the index.\<close>

fun fips_W :: "(nat \<Rightarrow> u32) \<Rightarrow> nat \<Rightarrow> u32" where
  "fips_W M t =
     (if t < 16 then M t
      else word_rotl 1 (fips_W M (t - 3) XOR fips_W M (t - 8) XOR fips_W M (t - 14) XOR fips_W M (t - 16)))"

declare fips_W.simps [simp del]

text \<open>The words of a block are big-endian.\<close>

definition fips_M :: "byte list \<Rightarrow> nat \<Rightarrow> u32" where
  "fips_M blk t = word_rcat (take 4 (drop (4 * t) blk))"

definition fips_round :: "(nat \<Rightarrow> u32) \<Rightarrow> sha_state \<Rightarrow> nat \<Rightarrow> sha_state" where
  "fips_round W s t =
     (case s of (a, b, c, d, e) \<Rightarrow>
        (word_rotl 5 a + fips_f t b c d + e + sha1_k t + W t, a, word_rotl 30 b, c, d))"

definition fips_block :: "sha_state \<Rightarrow> byte list \<Rightarrow> sha_state" where
  "fips_block H blk =
     (case (H, foldl (fips_round (fips_W (fips_M blk))) H [0..<80]) of
        ((h0, h1, h2, h3, h4), (a, b, c, d, e)) \<Rightarrow> (a + h0, b + h1, c + h2, d + h3, e + h4))"

definition fips_blocks :: "byte list \<Rightarrow> byte list list" where
  "fips_blocks msg = map (\<lambda>i. take 64 (drop (64 * i) msg)) [0..<length msg div 64]"

definition be32_bytes :: "u32 \<Rightarrow> byte list" where
  "be32_bytes x = map (\<lambda>i. ucast (drop_bit (8 * (3 - i)) x)) [0..<4]"

definition fips_sha1 :: "byte list \<Rightarrow> byte list" where
  "fips_sha1 data =
     (case foldl fips_block sha1_init (fips_blocks (fips_pad data)) of (h0, h1, h2, h3, h4) \<Rightarrow>
        concat (map be32_bytes [h0, h1, h2, h3, h4]))"

section \<open>Padding\<close>

lemma fips_zeros_eq: "fips_zeros len = sha1_padded_len len - len - 9"
proof -
  define q r where "q = (len + 8) div 64" and "r = (len + 8) mod 64"
  have l: "len + 8 = 64 * q + r" "r < 64" by (simp_all add: q_def r_def)
  have pl: "sha1_padded_len len - len - 9 = 63 - r"
    using l by (simp add: sha1_padded_len_def q_def [symmetric]) 
  show ?thesis unfolding fips_zeros_def pl
  proof (rule Least_equality)
    have "len + 1 + (63 - r) = 64 * q + 56" using l by linarith
    then show "(len + 1 + (63 - r)) mod 64 = 56" by simp
  next
    fix y assume y: "(len + 1 + y) mod 64 = 56"
    have "(len + 1 + y + 8) mod 64 = ((len + 1 + y) mod 64 + 8) mod 64" by (rule mod_add_left_eq [symmetric])
    also have "\<dots> = 0" unfolding y by simp
    finally have "(len + 1 + y + 8) mod 64 = 0" .
    then have "(64 * q + (r + 1 + y)) mod 64 = 0" using l by (metis add.assoc add.commute)
    then have "(r + 1 + y) mod 64 = 0" by simp
    then show "63 - r \<le> y" using l(2) by (cases "r + 1 + y < 64") auto
  qed
qed

lemma sha1_padded_len_bounds: "len + 9 \<le> sha1_padded_len len" "64 dvd sha1_padded_len len" "sha1_padded_len len < len + 73"
proof -
  define q r where "q = (len + 8) div 64" and "r = (len + 8) mod 64"
  have "len + 8 = 64 * q + r" "r < 64" by (simp_all add: q_def r_def)
  moreover have "sha1_padded_len len = 64 * q + 64" by (simp add: sha1_padded_len_def q_def)
  ultimately show "len + 9 \<le> sha1_padded_len len" "sha1_padded_len len < len + 73" by linarith+
  show "64 dvd sha1_padded_len len" by (simp add: sha1_padded_len_def)
qed

lemma length_fips_pad: "length (fips_pad data) = sha1_padded_len (length data)"
  using sha1_padded_len_bounds [of "length data"] by (simp add: fips_pad_def be64_def fips_zeros_eq)

lemma foldl_update_length: "length (foldl (\<lambda>m i. m[g i := h i]) xs is) = length xs"
  by (induction "is" arbitrary: xs) auto

lemma upt8: "[0..<8] = [0, 1, 2, 3, 4, 5, 6, 7]"
  by (simp add: upt_rec)

lemma ucast_and_FF: "ucast (x AND 0xFF :: 64 word) = (ucast x :: byte)"
proof -
  have "x AND 0xFF = take_bit 8 x" by (simp add: take_bit_eq_mask mask_eq_exp_minus_1)
  then show ?thesis by (auto intro!: bit_word_eqI simp: bit_simps)
qed

lemma foldl_fill:
  assumes "k \<le> n"
  shows "foldl (\<lambda>m i. m[length A + n - Suc i := g i]) (A @ replicate n z) [0..<k] =
    A @ replicate (n - k) z @ rev (map g [0..<k])"
  using assms
proof (induction k)
  case (Suc k)
  define m where "m = n - Suc k"
  have n: "n - k = Suc m" "length A + n - Suc k = length A + m" using Suc.prems by (auto simp: m_def)
  have "foldl (\<lambda>m i. m[length A + n - Suc i := g i]) (A @ replicate n z) [0..<Suc k] =
    (A @ replicate (Suc m) z @ rev (map g [0..<k]))[length A + m := g k]"
    using Suc by (simp add: n)
  also have "replicate (Suc m) z = replicate m z @ [z]" by (simp add: replicate_append_same)
  finally show ?case by (simp add: list_update_append m_def)
qed simp

lemma sha1_pad_fips: "sha1_pad data = fips_pad data"
proof -
  let ?n = "length data" and ?p = "sha1_padded_len (length data)"
  have b: "?n + 9 \<le> ?p" by (rule sha1_padded_len_bounds)
  define z where "z = ?p - ?n - 9"
  have p: "?p = ?n + 1 + z + 8" using b by (simp add: z_def)
  define A where "A = data @ [0x80] @ replicate z (0 :: byte)"
  have lA: "length A = ?n + 1 + z" by (simp add: A_def)
  have m0: "(data @ drop ?n (replicate ?p 0))[?n := 0x80] = A @ replicate 8 0"
  proof -
    have "drop ?n (replicate ?p (0 :: byte)) = replicate (Suc (z + 8)) 0" by (simp add: p)
    also have "\<dots> = 0 # replicate z 0 @ replicate 8 0" by (simp only: replicate_Suc replicate_add)
    finally show ?thesis by (simp only: A_def) (simp add: list_update_append)
  qed
  let ?l = "of_nat (length data) * 8 :: 64 word"
  have "sha1_pad data = foldl (\<lambda>m i. m[?p - 1 - i := ucast (drop_bit (i * 8) ?l)]) (A @ replicate 8 0) [0..<8]"
    unfolding sha1_pad_def Let_def m0 ucast_and_FF ..
  also have "?p = length A + 8" by (simp add: p lA)
  also have "foldl (\<lambda>m i. m[length A + 8 - 1 - i := ucast (drop_bit (i * 8) ?l)]) (A @ replicate 8 0) [0..<8] =
      A @ rev (map (\<lambda>i. ucast (drop_bit (i * 8) ?l)) [0..<8])"
    using foldl_fill [of 8 8 A "\<lambda>i. ucast (drop_bit (i * 8) ?l)" 0] by simp
  also have "rev (map (\<lambda>i. ucast (drop_bit (i * 8) ?l)) [0..<8]) = be64 ?l"
    by (simp add: upt8 be64_def)
  also have "A @ be64 ?l = fips_pad data"
    by (simp add: A_def fips_pad_def fips_zeros_eq z_def mult.commute)
  finally show ?thesis .
qed

section \<open>Blocks\<close>

lemma rotl_shift: "0 < n \<Longrightarrow> n < 32 \<Longrightarrow> push_bit n x OR drop_bit (32 - n) x = word_rotl n (x :: u32)"
proof (rule bit_word_eqI)
  fix i assume n: "0 < n" "n < 32" and "i < LENGTH(32)"
  then have i: "i < 32" by simp
  have m: "(i + 32 - n) mod 32 = (if n \<le> i then i - n else 32 + i - n)"
    using n i by (auto simp: mod_if)
  have l: "bit x (32 + i - n) \<Longrightarrow> \<not> n \<le> i"
    using bit_imp_le_length [of x "32 + i - n"] by simp
  have "bit (word_rotl n x) i = bit x ((i + 32 - n) mod 32)"
    using i n by (simp add: bit_simps word_rotl_eq_word_rotr)
  moreover have "bit (push_bit n x OR drop_bit (32 - n) x) i = (n \<le> i \<and> bit x (i - n) \<or> bit x (32 + i - n))"
    using i n by (simp add: bit_simps)
  ultimately show "bit (push_bit n x OR drop_bit (32 - n) x) i = bit (word_rotl n x) i"
    unfolding m using l by auto
qed

lemma rotl_shift_sum: "n + m = 32 \<Longrightarrow> 0 < n \<Longrightarrow> 0 < m \<Longrightarrow> push_bit n x OR drop_bit m x = word_rotl n (x :: u32)"
  using rotl_shift [of n x] by (metis add_diff_cancel_left' less_add_same_cancel1)

lemmas sha1_rotations = rotl_shift_sum [of 1 31] rotl_shift_sum [of 5 27] rotl_shift_sum [of 30 2]

lemma sha1_f_fips: "sha1_f t b c d = fips_f t b c d"
proof -
  have "(b AND c) OR (NOT b AND d) = (b AND c) XOR (NOT b AND d)"
    by (rule bit_word_eqI) (auto simp: bit_simps)
  moreover have "(b AND c) OR (b AND d) OR (c AND d) = (b AND c) XOR (b AND d) XOR (c AND d)"
    by (rule bit_word_eqI) (auto simp: bit_simps)
  ultimately show ?thesis by (simp add: sha1_f_def fips_f_def fips_Ch_def fips_Maj_def fips_Parity_def)
qed


lemma bit_word_rcat:
  "bit (word_rcat ws :: 'b::len word) n \<longleftrightarrow>
     n < LENGTH('b) \<and> n div LENGTH('a) < length ws \<and> bit (rev ws ! (n div LENGTH('a))) (n mod LENGTH('a))"
  for ws :: "'a::len word list"
  using bit_horner_sum_uint_exp_iff [of "rev ws" n] by (simp add: word_rcat_def bit_word_of_int_iff)

lemma word_rcat_4:
  "push_bit 24 (ucast a :: u32) OR push_bit 16 (ucast b) OR push_bit 8 (ucast c) OR ucast (d::byte) = (word_rcat [a,b,c,d::byte] :: u32)"
proof (rule bit_word_eqI)
  fix n assume "n < LENGTH(32)" then have n: "n < 32" by simp
  have L: "bit x k \<Longrightarrow> k < 8" for x :: byte and k using bit_imp_le_length [of x k] by simp
  consider "n < 8" | "8 \<le> n" "n < 16" | "16 \<le> n" "n < 24" | "24 \<le> n" "n < 32" using n by linarith
  then show "bit (push_bit 24 (ucast a :: u32) OR push_bit 16 (ucast b) OR push_bit 8 (ucast c) OR ucast d) n = bit (word_rcat [a,b,c,d] :: u32) n"
  proof cases
    case 1
    then show ?thesis using L by (auto simp: bit_simps bit_word_rcat)
  next
    case 2
    then have "n div 8 = 1" "n mod 8 = n - 8" by (auto simp: mod_if) 
    then show ?thesis using 2 L [of d n] by (auto simp: bit_simps bit_word_rcat)
  next
    case 3
    then have "n div 8 = 2" "n mod 8 = n - 16" by (auto simp: mod_if) 
    then show ?thesis using 3 L [of c "n - 8"] L [of d n] by (auto simp: bit_simps bit_word_rcat)
  next
    case 4
    then have "n div 8 = 3" "n mod 8 = n - 24" by (auto simp: mod_if) 
    then show ?thesis using 4 L [of c "n - 8"] L [of b "n - 16"] L [of d n] by (auto simp: bit_simps bit_word_rcat)
  qed
qed

lemma sha1_word_fips:
  assumes "t < 16" "length blk = 64"
  shows "sha1_word blk t = fips_M blk t"
proof -
  have "take 4 (drop (4 * t) blk) = [blk ! (t * 4), blk ! (t * 4 + 1), blk ! (t * 4 + 2), blk ! (t * 4 + 3)]"
    using assms by (intro nth_equalityI) (auto simp: less_Suc_eq numeral_eq_Suc mult.commute)
  then show ?thesis by (simp only: sha1_word_def fips_M_def word_rcat_4)
qed

lemma fips_W_cong: "(\<And>i. i < 16 \<Longrightarrow> M i = M' i) \<Longrightarrow> fips_W M t = fips_W M' t"
proof (induction M t rule: fips_W.induct)
  case (1 M t)
  then show ?case by (simp add: fips_W.simps [of M t] fips_W.simps [of M' t])
qed

lemma sha1_schedule_fips:
  "sha1_schedule blk = map (fips_W (sha1_word blk)) [0..<80]"
proof -
  let ?M = "sha1_word blk"
  define step where "step w i = w @ [word_rotl 1 (w ! (i - 3) XOR w ! (i - 8) XOR w ! (i - 14) XOR w ! (i - 16) :: u32)]"
    for w i
  have st: "sha1_schedule blk = foldl step (map ?M [0..<16]) [16..<80]"
    unfolding sha1_schedule_def Let_def step_def using sha1_rotations(1) by (simp only: )
  have "foldl step (map ?M [0..<16]) [16..<16 + n] = map (fips_W ?M) [0..<16 + n]" for n
  proof (induction n)
    case 0
    then show ?case by (auto simp: fips_W.simps)
  next
    case (Suc n)
    have "foldl step (map ?M [0..<16]) [16..<Suc (16 + n)] = step (map (fips_W ?M) [0..<16 + n]) (16 + n)"
      by (simp only: upt_Suc foldl_append) (simp add: Suc)
    also have "\<dots> = map (fips_W ?M) [0..<16 + n] @ [fips_W ?M (16 + n)]"
      by (subst fips_W.simps) (simp add: step_def del: upt_Suc)
    also have "\<dots> = map (fips_W ?M) [0..<Suc (16 + n)]" by (simp only: upt_Suc_append map_append) simp
    finally show ?case by (simp only: add_Suc_right)
  qed
  from this [of 64] show ?thesis by (simp add: st)
qed

lemma sha1_round_fips:
  assumes "t < 80"
  shows "sha1_round (sha1_schedule blk) s t = fips_round (fips_W (sha1_word blk)) s t"
proof (cases s)
  case (fields a b c d e)
  have "sha1_schedule blk ! t = fips_W (sha1_word blk) t"
    using assms by (simp add: sha1_schedule_fips del: upt_Suc)
  then show ?thesis
    unfolding sha1_round_def fips_round_def fields prod.case Let_def sha1_f_fips
    using sha1_rotations(2,3) by (simp only:)
qed


lemma foldl_cong_set: "(\<And>x s. x \<in> set xs \<Longrightarrow> f s x = g s x) \<Longrightarrow> foldl f s xs = foldl g s xs"
  by (induction xs arbitrary: s) auto

lemma sha1_block_fips:
  assumes "length blk = 64"
  shows "sha1_block h blk = fips_block h blk"
proof -
  have "fips_W (sha1_word blk) = fips_W (fips_M blk)"
    using sha1_word_fips [OF _ assms] by (intro ext fips_W_cong) auto
  then have "foldl (sha1_round (sha1_schedule blk)) h [0..<80] = foldl (fips_round (fips_W (fips_M blk))) h [0..<80]"
    by (intro foldl_cong_set) (simp add: sha1_round_fips)
  then show ?thesis by (simp add: sha1_block_def fips_block_def add.commute split: prod.splits)
qed

lemma fips_blocks_Cons:
  assumes "msg \<noteq> []" "64 dvd length msg"
  shows "fips_blocks msg = take 64 msg # fips_blocks (drop 64 msg)"
proof -
  from assms(2) obtain m where m: "length msg = 64 * m" by (rule dvdE)
  with assms(1) obtain n where "m = Suc n" by (cases m) auto
  with m have n: "length msg = 64 * Suc n" by simp
  have "[0..<Suc n] = 0 # map Suc [0..<n]" by (simp add: map_Suc_upt upt_conv_Cons)
  then show ?thesis by (simp add: fips_blocks_def n add.commute del: upt_Suc)
qed

lemma sha1_blocks_fips: "64 dvd length msg \<Longrightarrow> sha1_blocks h msg = foldl fips_block h (fips_blocks msg)"
proof (induction h msg rule: sha1_blocks.induct)
  case (1 h msg)
  show ?case
  proof (cases "msg = []")
    case True
    then show ?thesis by (simp add: sha1_blocks.simps fips_blocks_def)
  next
    case False
    with 1(2) have l: "64 \<le> length msg" by (auto dest: dvd_imp_le)
    then have "length (take 64 msg) = 64" "64 dvd length (drop 64 msg)" using 1(2) by (auto simp: dvd_diff_nat)
    with 1(1) [OF False] False 1(2) show ?thesis
      by (simp add: sha1_blocks.simps [of h msg] fips_blocks_Cons sha1_block_fips)
  qed
qed

lemma ucast_and_FF_32: "ucast (x AND 0xFF :: u32) = (ucast x :: byte)"
proof -
  have "x AND 0xFF = take_bit 8 x" by (simp add: take_bit_eq_mask mask_eq_exp_minus_1)
  then show ?thesis by (auto intro!: bit_word_eqI simp: bit_simps)
qed

lemma sha1_put_word_fips: "sha1_put_word x = be32_bytes x"
proof -
  have "[0..<4] = [0, 1, 2, 3]" by (simp add: upt_rec)
  then show ?thesis by (simp add: sha1_put_word_def be32_bytes_def ucast_and_FF_32)
qed

lemma length_sha1 [simp]: "length (sha1 data) = 20"
  by (simp add: sha1_def sha1_put_word_def split: prod.split)

lemma sha1_eq_fips: "sha1 data = fips_sha1 data"
proof -
  have "64 dvd length (fips_pad data)" by (simp add: length_fips_pad sha1_padded_len_bounds)
  then show ?thesis
    by (simp add: sha1_def fips_sha1_def sha1_pad_fips sha1_blocks_fips sha1_put_word_fips split: prod.split)
qed

section \<open>Property\<close>


end
