(* ===== verification/Base64.thy ===== *)
theory Base64
  imports Sha1
begin

text \<open>
  \<^verbatim>\<open>base64\<close> and \<^verbatim>\<open>compute_ws_accept_key\<close> of \<^verbatim>\<open>src/util.cc\<close>. Strings are byte lists.
  The decoder \<open>unbase64\<close> is the one of RFC 4648 and is not part of the program; the properties
  say that it inverts the encoder.
\<close>

unbundle bit_operations_syntax

definition ascii :: "string \<Rightarrow> byte list" where
  "ascii s = map (\<lambda>c. of_nat (of_char c)) s"

definition base64_table :: "byte list" where
  "base64_table = ascii ''ABCDEFGHIJKLMNOPQRSTUVWXYZabcdefghijklmnopqrstuvwxyz0123456789+/''"

text \<open>One round of the loop: up to three bytes, with the tests \<^verbatim>\<open>i + 1 < len\<close> and \<^verbatim>\<open>i + 2 < len\<close>.\<close>

definition base64_group :: "byte list \<Rightarrow> u32" where
  "base64_group d =
     push_bit 16 (ucast (d ! 0)) OR (if 1 < length d then push_bit 8 (ucast (d ! 1)) else 0) OR
     (if 2 < length d then ucast (d ! 2) else 0)"

definition base64_char :: "u32 \<Rightarrow> nat \<Rightarrow> byte" where
  "base64_char n sh = base64_table ! unat (drop_bit sh n AND 0x3F)"

function base64 :: "byte list \<Rightarrow> byte list" where
  "base64 d =
     (if d = [] then []
      else let n = base64_group d
           in [base64_char n 18, base64_char n 12,
               if 1 < length d then base64_char n 6 else 61,
               if 2 < length d then base64_char n 0 else 61] @ base64 (drop 3 d))"
  by pat_completeness auto
termination by (relation "measure length") auto

declare base64.simps [simp del]

definition ws_magic :: "byte list" where
  "ws_magic = ascii ''258EAFA5-E914-47DA-95CA-C5AB0DC85B11''"

definition compute_ws_accept_key :: "byte list \<Rightarrow> byte list" where
  "compute_ws_accept_key incoming_sec_key = base64 (sha1 (incoming_sec_key @ ws_magic))"

section \<open>The RFC 4648 decoder\<close>

definition sextet :: "byte \<Rightarrow> nat option" where
  "sextet c =
     (let n = unat c in
      if 65 \<le> n \<and> n \<le> 90 then Some (n - 65)
      else if 97 \<le> n \<and> n \<le> 122 then Some (n - 71)
      else if 48 \<le> n \<and> n \<le> 57 then Some (n + 4)
      else if n = 43 then Some 62
      else if n = 47 then Some 63
      else None)"

definition dec_byte1 :: "nat \<Rightarrow> nat \<Rightarrow> byte" where "dec_byte1 x y = of_nat (4 * x + y div 16)"
definition dec_byte2 :: "nat \<Rightarrow> nat \<Rightarrow> byte" where "dec_byte2 y z = of_nat (16 * (y mod 16) + z div 4)"
definition dec_byte3 :: "nat \<Rightarrow> nat \<Rightarrow> byte" where "dec_byte3 z v = of_nat (64 * (z mod 4) + v)"

fun unbase64 :: "byte list \<Rightarrow> byte list option" where
  "unbase64 [] = Some []"
| "unbase64 (a # b # c # d # rest) =
     (case (sextet a, sextet b) of
        (Some x, Some y) \<Rightarrow>
          if c = 61 then (if d = 61 \<and> rest = [] then Some [dec_byte1 x y] else None)
          else (case sextet c of None \<Rightarrow> None
                | Some z \<Rightarrow>
                    if d = 61 then
                      (if rest = [] then Some [dec_byte1 x y, dec_byte2 y z]
                       else None)
                    else (case (sextet d, unbase64 rest) of
                            (Some v, Some bs) \<Rightarrow>
                              Some (dec_byte1 x y # dec_byte2 y z # dec_byte3 z v # bs)
                          | _ \<Rightarrow> None))
      | _ \<Rightarrow> None)"
| "unbase64 _ = None"

section \<open>Groups of bits\<close>

lemma length_base64_table [simp]: "length base64_table = 64"
  by (simp add: base64_table_def ascii_def)

lemma sextet_table: "list_all (\<lambda>k. sextet (base64_table ! k) = Some k \<and> base64_table ! k \<noteq> 61) [0..<64]"
proof -
  have "[0..<64] = 0 # 1 # [2..<64]" using upt_conv_Cons [of 0 64] upt_conv_Cons [of 1 64]
    by (simp del: upt_rec_numeral add: numeral_2_eq_2)
  then show ?thesis by (simp add: base64_table_def ascii_def sextet_def)
qed

lemma sextet_nth: "k < 64 \<Longrightarrow> sextet (base64_table ! k) = Some k" "k < 64 \<Longrightarrow> base64_table ! k \<noteq> 61"
  using sextet_table by (auto simp: list_all_iff)

lemma unat_6: "unat (drop_bit sh n AND 0x3F :: u32) = unat n div 2 ^ sh mod 64"
proof -
  have "drop_bit sh n AND 0x3F = take_bit 6 (drop_bit sh n)" by (simp add: take_bit_eq_mask mask_eq_exp_minus_1)
  then show ?thesis
    by (simp only: unsigned_take_bit_eq unsigned_drop_bit_eq) (use unat_lt_32 [of n] in \<open>simp add: take_bit_eq_mod drop_bit_eq_div\<close>)
qed

lemma unat_rcat3: "unat (word_rcat [0, a, b, c :: byte] :: u32) = unat a * 65536 + unat b * 256 + unat c"
proof -
  let ?n = "unat a * 65536 + unat b * 256 + unat c"
  have "unat a < 256" "unat b < 256" "unat c < 256"
    by (rule unat_byte)+
  then have lt: "?n < 4294967296" by linarith
  have "(word_rcat [0, a, b, c] :: u32) = word_of_int (uint c + 256 * (uint b + 256 * uint a))"
    by (simp add: word_rcat_def)
  also have "uint c + 256 * (uint b + 256 * uint a) = int ?n" by simp
  finally have "(word_rcat [0, a, b, c] :: u32) = of_nat ?n" by (simp only: of_int_of_nat_eq)
  then show ?thesis using lt by (simp only: unat_of_nat) (simp add: take_bit_nat_eq_self)
qed

lemma unat_group:
  "unat (base64_group (a # b # c # r)) = unat a * 65536 + unat b * 256 + unat c"
  "unat (base64_group [a, b]) = unat a * 65536 + unat b * 256"
  "unat (base64_group [a]) = unat a * 65536"
  using word_rcat_4 [of 0 a b c] word_rcat_4 [of 0 a b 0] word_rcat_4 [of 0 a 0 0]
    unat_rcat3 [of a b c] unat_rcat3 [of a b 0] unat_rcat3 [of a 0 0]
  by (simp_all add: base64_group_def)


lemma sextets:
  fixes A B C :: nat
  assumes "A < 256" "B < 256" "C < 256" and n: "n = A * 65536 + B * 256 + C"
  shows "n div 2 ^ 18 mod 64 = A div 4" "n div 2 ^ 12 mod 64 = A mod 4 * 16 + B div 16"
    "n div 2 ^ 6 mod 64 = B mod 16 * 4 + C div 64" "n div 2 ^ 0 mod 64 = C mod 64"
proof -
  define a1 a0 b1 b0 c1 c0 where d: "a1 = A div 4" "a0 = A mod 4" "b1 = B div 16" "b0 = B mod 16"
    "c1 = C div 64" "c0 = C mod 64"
  have A: "A = 4 * a1 + a0" "a0 < 4" "a1 < 64" using assms(1) unfolding d by auto
  have B: "B = 16 * b1 + b0" "b0 < 16" "b1 < 16" using assms(2) unfolding d by auto
  have C: "C = 64 * c1 + c0" "c0 < 64" "c1 < 4" using assms(3) unfolding d by auto
  have dm: "(m * q + r) div m = q" if "r < m" for m q r :: nat using that by simp
  have "n = 262144 * a1 + (65536 * a0 + 256 * B + C)" using A(1) n by (simp add: algebra_simps)
  moreover have "65536 * a0 + 256 * B + C < 262144" using A B C by linarith
  ultimately have 1: "n div 262144 = a1" by (simp only: dm)
  have "n = 4096 * (64 * a1 + (a0 * 16 + b1)) + (256 * b0 + C)" using A(1) B(1) n by (simp add: algebra_simps)
  moreover have "256 * b0 + C < 4096" using B C by linarith
  ultimately have 2: "n div 4096 = 64 * a1 + (a0 * 16 + b1)" by (simp only: dm)
  have "n = 64 * (64 * (16 * A + b1) + (b0 * 4 + c1)) + c0" using B(1) C(1) n by (simp add: algebra_simps)
  then have 3: "n div 64 = 64 * (16 * A + b1) + (b0 * 4 + c1)" using C(2) by (simp only: dm)
  have 4: "n = 64 * (1024 * A + 4 * B + c1) + c0" using C(1) n by (simp add: algebra_simps)
  show "n div 2 ^ 18 mod 64 = A div 4" using 1 A(3) by (simp add: d(1))
  have "a0 * 16 + b1 < 64" "b0 * 4 + c1 < 64" using A B C by linarith+
  moreover have mm: "(64 * q + r) mod 64 = r" if "r < 64" for q r :: nat using that by simp
  ultimately have "n div 4096 mod 64 = a0 * 16 + b1" "n div 64 mod 64 = b0 * 4 + c1"
    unfolding 2 3 by (simp_all only: mm)
  then show "n div 2 ^ 12 mod 64 = A mod 4 * 16 + B div 16" "n div 2 ^ 6 mod 64 = B mod 16 * 4 + C div 64"
    unfolding d [symmetric] by simp_all
  have "n mod 64 = c0" unfolding 4 using C(2) by (rule mm)
  then show "n div 2 ^ 0 mod 64 = C mod 64" by (simp add: d)
qed

lemma dec_byte1: "q < 16 \<Longrightarrow> dec_byte1 (unat a div 4) (unat a mod 4 * 16 + q) = a"
  and dec_byte2: "q < 4 \<Longrightarrow> dec_byte2 (p * 16 + unat a div 16) (unat a mod 16 * 4 + q) = a"
  and dec_byte3: "dec_byte3 (p * 4 + unat a div 64) (unat a mod 64) = a"
proof -
  have *: "unat a div 16 < 16" "unat a div 64 < 4" using unat_byte [of a] by auto
  have "4 * (unat a div 4) + (unat a mod 4 * 16 + q) div 16 = unat a" if "q < 16" using that by simp
  then show "q < 16 \<Longrightarrow> dec_byte1 (unat a div 4) (unat a mod 4 * 16 + q) = a"
    by (simp only: dec_byte1_def) simp
  have "16 * ((p * 16 + unat a div 16) mod 16) + (unat a mod 16 * 4 + q) div 4 = unat a" if "q < 4"
    using that * by simp
  then show "q < 4 \<Longrightarrow> dec_byte2 (p * 16 + unat a div 16) (unat a mod 16 * 4 + q) = a"
    by (simp only: dec_byte2_def) simp
  have "64 * ((p * 4 + unat a div 64) mod 4) + unat a mod 64 = unat a" using * by simp
  then show "dec_byte3 (p * 4 + unat a div 64) (unat a mod 64) = a"
    by (simp only: dec_byte3_def) simp
qed

section \<open>Encoding, then decoding\<close>

lemma base64_char_eq: "base64_char n sh = base64_table ! (unat n div 2 ^ sh mod 64)"
  by (simp add: base64_char_def unat_6)

lemma base64_chars:
  assumes "unat n = A * 65536 + B * 256 + C" "A < 256" "B < 256" "C < 256"
  shows "base64_char n 18 = base64_table ! (A div 4)"
    "base64_char n 12 = base64_table ! (A mod 4 * 16 + B div 16)"
    "base64_char n 6 = base64_table ! (B mod 16 * 4 + C div 64)"
    "base64_char n 0 = base64_table ! (C mod 64)"
  using sextets [OF assms(2-4,1)] by (simp_all only: base64_char_eq)

lemma base64_3:
  "base64 (a # b # c # r) =
     base64_table ! (unat a div 4) # base64_table ! (unat a mod 4 * 16 + unat b div 16) #
     base64_table ! (unat b mod 16 * 4 + unat c div 64) # base64_table ! (unat c mod 64) # base64 r"
  using base64_chars [OF unat_group(1) unat_byte unat_byte unat_byte, of a b c r]
  by (subst base64.simps) (simp add: Let_def)

lemma base64_2:
  "base64 [a, b] =
     [base64_table ! (unat a div 4), base64_table ! (unat a mod 4 * 16 + unat b div 16),
      base64_table ! (unat b mod 16 * 4), 61]"
proof -
  have "unat (base64_group [a, b]) = unat a * 65536 + unat b * 256 + 0" by (simp add: unat_group)
  from base64_chars [OF this unat_byte unat_byte] show ?thesis
    by (subst base64.simps) (simp add: Let_def base64.simps [of "[]"])
qed

lemma base64_1:
  "base64 [a] = [base64_table ! (unat a div 4), base64_table ! (unat a mod 4 * 16), 61, 61]"
proof -
  have "unat (base64_group [a]) = unat a * 65536 + 0 * 256 + 0" by (simp add: unat_group)
  from base64_chars [OF this unat_byte] show ?thesis
    by (subst base64.simps) (simp add: Let_def base64.simps [of "[]"])
qed

lemmas base64_rec = base64.simps [of "[]", simplified] base64_1 base64_2 base64_3

lemma bytes3_induct [case_names Nil One Two Three]:
  assumes "P []" "\<And>a. P [a]" "\<And>a b. P [a, b]" "\<And>a b c r. P r \<Longrightarrow> P (a # b # c # r)"
  shows "P d"
proof (induction "length d" arbitrary: d rule: less_induct)
  case less
  then show ?case
    using assms by (cases d; cases "tl d"; cases "tl (tl d)") auto
qed

lemma byte_div_bounds [simp]:
  "unat (b :: byte) div 4 < 64" "unat (b :: byte) div 16 < 16" "unat (b :: byte) div 64 < 4"
  using unat_byte [of b] by auto

lemma sextet_bounds [simp]:
  "unat (a :: byte) mod 4 * 16 + unat (b :: byte) div 16 < 64" "unat (a :: byte) mod 4 * 16 < 64"
  "unat (a :: byte) mod 16 * 4 + unat (b :: byte) div 64 < 64" "unat (a :: byte) mod 16 * 4 < 64"
proof -
  have "unat a mod 4 < 4" "unat a mod 16 < 16" "unat b div 16 < 16" "unat b div 64 < 4" by simp_all
  then show "unat a mod 4 * 16 + unat b div 16 < 64" "unat a mod 4 * 16 < 64"
    "unat a mod 16 * 4 + unat b div 64 < 64" "unat a mod 16 * 4 < 64" by linarith+
qed

lemma unbase64_base64: "unbase64 (base64 d) = Some d"
proof (induction d rule: bytes3_induct)
  case (One a)
  then show ?case using dec_byte1 [of 0 a] by (simp add: base64_rec sextet_nth)
next
  case (Two a b)
  then show ?case using dec_byte2 [of 0 _ b] by (simp add: base64_rec sextet_nth dec_byte1)
next
  case (Three a b c r)
  then show ?case by (simp add: base64_rec sextet_nth dec_byte1 dec_byte2 dec_byte3)
qed (simp add: base64_rec)

lemma length_base64: "length (base64 d) = 4 * ((length d + 2) div 3)"
proof (induction d rule: bytes3_induct)
  case (Three a b c r)
  have "(5 + length r) div 3 = Suc ((length r + 2) div 3)" by simp
  with Three show ?case by (simp add: base64_rec)
qed (simp_all add: base64_rec)

lemma set_base64: "set (base64 d) \<subseteq> insert 61 (set base64_table)"
  by (induction d rule: bytes3_induct) (auto simp: base64_rec)

section \<open>Properties\<close>

text \<open>
  C14. Decoding what \<^verbatim>\<open>base64\<close> produced gives the input back, for every input; the output has four
  characters for every three bytes begun, all from the alphabet or the padding character.
\<close>

theorem base64_roundtrip:
  "unbase64 (base64 d) = Some d \<and> length (base64 d) = 4 * ((length d + 2) div 3) \<and>
   set (base64 d) \<subseteq> insert 61 (set base64_table)"
  using unbase64_base64 length_base64 set_base64 by simp


end
