(* ===== verification/Ws_Frame.thy ===== *)
theory Ws_Frame
  imports Sha1
begin

text \<open>
  WebSocket frames: \<^verbatim>\<open>parseFrame\<close>, \<^verbatim>\<open>sendFrame\<close>, \<^verbatim>\<open>WebSocket::send_frame\<close>,
  \<^verbatim>\<open>WebSocket::onMessage\<close> and \<^verbatim>\<open>WebSocket::onClose\<close> of \<^verbatim>\<open>src/ws.cc\<close>.

  The buffer is a byte list; \<^verbatim>\<open>payload_len\<close>, \<^verbatim>\<open>offset\<close> and \<^verbatim>\<open>total\<close> are 64-bit words, so
  that \<^verbatim>\<open>offset + payload_len\<close> wraps as in the code. Unmasking writes into the buffer, and an
  access outside it is the fault \<open>OutOfBounds\<close>. The JavaScript object behind a socket is
  reduced to which of its two callbacks are functions; calling one is an event.
\<close>

unbundle bit_operations_syntax

section \<open>Receiving\<close>

record frame =
  fin :: bool
  opcode :: byte
  payload :: nat
  flen :: size_t

definition ext_len16 :: "byte list \<Rightarrow> size_t" where
  "ext_len16 data = push_bit 8 (ucast (data ! 2)) OR ucast (data ! 3)"

definition ext_len64 :: "byte list \<Rightarrow> size_t" where
  "ext_len64 data = foldl (\<lambda>payload_len i. push_bit 8 payload_len OR ucast (data ! (2 + i))) 0 [0..<8]"

fun unmask_loop :: "nat \<Rightarrow> nat \<Rightarrow> nat \<Rightarrow> nat \<Rightarrow> byte list \<Rightarrow> byte list res" where
  "unmask_loop mask_offset offset i 0 data = Inr data"
| "unmask_loop mask_offset offset i (Suc left) data =
     (if length data \<le> offset + i \<or> length data \<le> mask_offset + i mod 4 then Inl OutOfBounds
      else unmask_loop mask_offset offset (Suc i) left
             (data[offset + i := data ! (offset + i) XOR data ! (mask_offset + i mod 4)]))"

text \<open>
  The length bytes: the payload length and the offset behind them, or \<open>None\<close> when the buffer
  ends before them.
\<close>

definition frame_length :: "byte list \<Rightarrow> (size_t \<times> size_t) option" where
  "frame_length data =
     (let payload_len = ucast (data ! 1 AND 0x7F)
      in if payload_len = 126 then (if length data < 4 then None else Some (ext_len16 data, 4))
         else if payload_len = 127 then (if length data < 10 then None else Some (ext_len64 data, 10))
         else Some (payload_len, 2))"

definition parseFrame :: "byte list \<Rightarrow> (size_t \<times> frame option \<times> byte list) res" where
  "parseFrame data =
     (if length data < 2 then Inr (0, None, data)
      else case frame_length data of
        None \<Rightarrow> Inr (0, None, data)
      | Some (payload_len, mask_offset) \<Rightarrow>
          (let masked = (data ! 1 AND 0x80 \<noteq> 0);
               offset = (if masked then mask_offset + 4 else mask_offset);
               total = offset + payload_len;
               f = \<lparr>fin = (data ! 0 AND 0x80 \<noteq> 0), opcode = data ! 0 AND 0x0F,
                    payload = unat offset, flen = payload_len\<rparr>
           in if length data < unat total then Inr (0, None, data)
              else if masked then
                res_bind (unmask_loop (unat mask_offset) (unat offset) 0 (unat payload_len) data)
                  (\<lambda>data'. Inr (total, Some f, data'))
              else Inr (total, Some f, data)))"

section \<open>Sending\<close>

definition sendFrame :: "byte list \<Rightarrow> byte \<Rightarrow> byte list" where
  "sendFrame pl op =
     (let len = (of_nat (length pl) :: size_t)
      in [0x80 OR op] @
         (if len \<le> 125 then [ucast len]
          else if len \<le> 65535 then [126, ucast (drop_bit 8 len AND 0xFF), ucast (len AND 0xFF)]
          else 127 # map (\<lambda>i. ucast (drop_bit (i * 8) len AND 0xFF)) (rev [0..<8])) @ pl)"

text \<open>\<^verbatim>\<open>send_frame\<close> takes a C string: the bytes before the first NUL.\<close>

definition c_str :: "byte list \<Rightarrow> byte list" where
  "c_str s = takeWhile (\<lambda>c. c \<noteq> 0) s"

definition send_frame :: "byte list \<Rightarrow> byte list" where
  "send_frame frame_payload = sendFrame (c_str frame_payload) 1"

section \<open>Callbacks\<close>

record sock_js =
  onMessage_fn :: bool
  onClose_fn :: bool

datatype ws_event = CallOnMessage "byte list" | CallOnClose

record web_socket =
  ws_sock_js :: "sock_js option"
  ws_cli :: nat

text \<open>
  \<^verbatim>\<open>onMessage\<close> returns the number of bytes used as an \<^verbatim>\<open>int\<close> and the callback it made. A socket
  whose \<^verbatim>\<open>sock_js\<close> was never set is read uninitialised. \<^verbatim>\<open>JS_NewString\<close> takes a C string.
\<close>

definition onMessage :: "web_socket \<Rightarrow> byte list \<Rightarrow> (int \<times> ws_event list) res" where
  "onMessage ws buffer =
     res_bind (parseFrame buffer) (\<lambda>(op, fo, data).
       if op = 0 then Inr (0, [])
       else case fo of None \<Rightarrow> Inl Uninitialised
       | Some f \<Rightarrow>
           (case ws_sock_js ws of None \<Rightarrow> Inl Uninitialised
            | Some js \<Rightarrow>
                if onMessage_fn js \<and> opcode f = 1 then
                  (if length data < payload f + unat (flen f) then Inl OutOfBounds
                   else Inr (sint (ucast op :: 32 word),
                          [CallOnMessage (c_str (take (unat (flen f)) (drop (payload f) data)))]))
                else Inr (sint (ucast op :: 32 word), [])))"

definition onClose :: "web_socket \<Rightarrow> ws_event list res" where
  "onClose ws =
     (case ws_sock_js ws of None \<Rightarrow> Inl Uninitialised
      | Some js \<Rightarrow> Inr (if onClose_fn js then [CallOnClose] else []))"

section \<open>Lengths in network byte order\<close>

lemma foldl_shift_or:
  "foldl (\<lambda>p b. push_bit 8 p OR ucast b) 0 bs = (word_rcat bs :: size_t)" for bs :: "byte list"
proof (induction bs rule: rev_induct)
  case Nil
  then show ?case by (simp add: word_rcat_def)
next
  case (snoc b bs)
  have "push_bit 8 (word_rcat bs :: size_t) OR ucast b = push_bit 8 (word_rcat bs) + ucast b"
    by (rule disjunctive_add [symmetric]) (auto simp: bit_simps dest: bit_imp_le_length)
  also have "\<dots> = word_rcat (bs @ [b])"
    by (simp add: word_rcat_def push_bit_eq_mult)
  finally show ?case using snoc by simp
qed

lemma ext_len64_rcat:
  assumes "10 \<le> length data"
  shows "ext_len64 data = word_rcat (take 8 (drop 2 data))"
proof -
  have "map (\<lambda>i. data ! (2 + i)) [0..<8] = take 8 (drop 2 data)"
    using assms by (intro nth_equalityI) auto
  moreover have "ext_len64 data = foldl (\<lambda>p b. push_bit 8 p OR ucast b) 0 (map (\<lambda>i. data ! (2 + i)) [0..<8])"
    by (simp only: ext_len64_def foldl_map)
  ultimately show ?thesis by (simp only: foldl_shift_or)
qed

lemma ext_len16_rcat: "4 \<le> length data \<Longrightarrow> ext_len16 data = word_rcat (take 2 (drop 2 data))"
proof -
  assume l: "4 \<le> length data"
  have "take 2 (drop 2 data) = [data ! 2, data ! 3]"
    using l by (intro nth_equalityI) (auto simp: less_Suc_eq numeral_eq_Suc)
  then show ?thesis using foldl_shift_or [of "[data ! 2, data ! 3]"] by (simp add: ext_len16_def)
qed

lemma word_rcat_be:
  assumes "unat len < 2 ^ (8 * k)"
  shows "word_rcat (map (\<lambda>i. ucast (drop_bit (i * 8) len) :: byte) (rev [0..<k])) = (len :: size_t)"
proof (rule bit_word_eqI)
  fix n assume "n < LENGTH(64)"
  then have n: "n < 64" by simp
  let ?ws = "map (\<lambda>i. ucast (drop_bit (i * 8) len) :: byte) (rev [0..<k])"
  have r: "rev ?ws = map (\<lambda>i. ucast (drop_bit (i * 8) len)) [0..<k]" by (simp add: rev_map)
  show "bit (word_rcat ?ws :: size_t) n = bit len n"
  proof (cases "n div 8 < k")
    case True
    then have "bit (word_rcat ?ws :: size_t) n = bit (ucast (drop_bit (n div 8 * 8) len) :: byte) (n mod 8)"
      using n by (simp add: bit_word_rcat r)
    also have "\<dots> = bit len (n div 8 * 8 + n mod 8)" using n by (simp add: bit_simps)
    finally show ?thesis by simp
  next
    case False
    then have "8 * k \<le> n" by auto
    then have "\<not> bit (take_bit (8 * k) (unat len)) n" by (simp add: bit_take_bit_iff)
    then have "\<not> bit (unat len) n" using assms by (simp add: take_bit_nat_eq_self)
    then have "\<not> bit len n" using n by (simp add: bit_unsigned_iff)
    with False show ?thesis by (simp add: bit_word_rcat)
  qed
qed


section \<open>Unmasking\<close>

definition apply_mask :: "byte list \<Rightarrow> byte list \<Rightarrow> byte list" where
  "apply_mask mk bs = map (\<lambda>i. bs ! i XOR mk ! (i mod 4)) [0..<length bs]"

lemma length_apply_mask [simp]: "length (apply_mask mk bs) = length bs"
  by (simp add: apply_mask_def)

lemma apply_mask_involution: "apply_mask mk (apply_mask mk bs) = bs"
  by (rule nth_equalityI) (simp_all add: apply_mask_def xor.assoc)

lemma apply_mask_Nil [simp]: "apply_mask mk [] = []"
  by (simp add: apply_mask_def)

lemma apply_mask_snoc: "apply_mask mk (bs @ [b]) = apply_mask mk bs @ [b XOR mk ! (length bs mod 4)]"
  by (rule nth_equalityI) (auto simp: apply_mask_def nth_append less_Suc_eq)

lemma unmask_loop_eq:
  assumes "length mk = 4" "offset = length pre + 4"
  shows "unmask_loop (length pre) offset (length dn) (length bs)
           (pre @ mk @ apply_mask mk dn @ bs @ rest) =
         Inr (pre @ mk @ apply_mask mk (dn @ bs) @ rest)"
proof (induction bs arbitrary: dn)
  case (Cons b bs)
  define d where "d = pre @ mk @ apply_mask mk dn @ (b # bs) @ rest"
  have m: "d ! (length pre + length dn mod 4) = mk ! (length dn mod 4)"
    using assms(1) by (simp add: d_def nth_append)
  have b: "d ! (offset + length dn) = b" using assms by (simp add: d_def nth_append)
  have up: "d[offset + length dn := b XOR mk ! (length dn mod 4)] =
      pre @ mk @ apply_mask mk (dn @ [b]) @ bs @ rest"
    using assms by (simp add: d_def list_update_append apply_mask_snoc)
  have ok: "\<not> length d \<le> offset + length dn" "\<not> length d \<le> length pre + length dn mod 4"
    using assms mod_less_divisor [of 4 "length dn"] by (simp_all add: d_def)
  have "unmask_loop (length pre) offset (length dn) (length (b # bs)) d =
      unmask_loop (length pre) offset (length (dn @ [b])) (length bs)
        (pre @ mk @ apply_mask mk (dn @ [b]) @ bs @ rest)"
    using ok by (simp add: m b up)
  with Cons [of "dn @ [b]"] show ?case by (simp add: d_def)
qed simp

lemma unmask_all:
  assumes "length mk = 4" "offset = length pre + 4"
  shows "unmask_loop (length pre) offset 0 (length bs) (pre @ mk @ bs @ rest) =
         Inr (pre @ mk @ apply_mask mk bs @ rest)"
  using unmask_loop_eq [OF assms, of "[]" bs rest] by simp


section \<open>The frame format of RFC 6455\<close>

text \<open>
  What a peer sends: the two header bytes, the extended length, the masking key if any, and the
  payload combined with it.
\<close>

definition rfc_length :: "nat \<Rightarrow> byte \<times> byte list" where
  "rfc_length n =
     (if n \<le> 125 then (of_nat n, [])
      else if n \<le> 65535 then (126, map (\<lambda>i. ucast (drop_bit (i * 8) (of_nat n :: size_t))) (rev [0..<2]))
      else (127, map (\<lambda>i. ucast (drop_bit (i * 8) (of_nat n :: size_t))) (rev [0..<8])))"

definition rfc_prefix :: "bool \<Rightarrow> byte \<Rightarrow> bool \<Rightarrow> nat \<Rightarrow> byte list" where
  "rfc_prefix final op msk n =
     [(if final then 0x80 else 0) OR op, (if msk then 0x80 else 0) OR fst (rfc_length n)] @ snd (rfc_length n)"

definition rfc_header :: "bool \<Rightarrow> byte \<Rightarrow> byte list option \<Rightarrow> nat \<Rightarrow> byte list" where
  "rfc_header final op key n =
     rfc_prefix final op (key \<noteq> None) n @ (case key of None \<Rightarrow> [] | Some k \<Rightarrow> k)"

definition rfc_frame :: "bool \<Rightarrow> byte \<Rightarrow> byte list option \<Rightarrow> byte list \<Rightarrow> byte list" where
  "rfc_frame final op key pl =
     rfc_header final op key (length pl) @ (case key of None \<Rightarrow> pl | Some k \<Rightarrow> apply_mask k pl)"

lemma flag_bits:
  assumes "x = 0 \<or> x = (0x80 :: byte)"
  shows "op < 16 \<Longrightarrow> (x OR op) AND 0x0F = op" "op < 128 \<Longrightarrow> ((x OR op) AND 0x80 \<noteq> 0) = (x \<noteq> 0)"
    "op < 128 \<Longrightarrow> (x OR op) AND 0x7F = op"
proof -
  have t: "take_bit 4 x = 0" "take_bit 7 x = 0" "bit x 7 = (x \<noteq> 0)"
    using assms by (auto simp: take_bit_eq_mask mask_eq_exp_minus_1)
  have m: "y AND 0x0F = take_bit 4 y" "y AND 0x7F = take_bit 7 y" for y :: byte
    by (simp_all add: take_bit_eq_mask mask_eq_exp_minus_1)
  have s: "op < 16 \<Longrightarrow> take_bit 4 op = op" "op < 128 \<Longrightarrow> take_bit 7 op = op"
    by (simp_all add: word_unat_eq_iff unsigned_take_bit_eq take_bit_nat_eq_self word_less_nat_alt)
  show "op < 16 \<Longrightarrow> (x OR op) AND 0x0F = op" using t s(1) by (simp add: m take_bit_or)
  show "op < 128 \<Longrightarrow> (x OR op) AND 0x7F = op" using t s(2) by (simp add: m take_bit_or)
  assume "op < 128"
  then have "\<not> bit op 7" using s(2) by (metis bit_take_bit_iff less_irrefl)
  moreover have "(x OR op) AND 0x80 \<noteq> 0 \<longleftrightarrow> bit (x OR op) 7"
    using and_exp_eq_0_iff_not_bit [of "x OR op" 7] by simp
  ultimately show "((x OR op) AND 0x80 \<noteq> 0) = (x \<noteq> 0)" using t(3) by (simp add: bit_or_iff)
qed


lemma rfc_length_fst: "fst (rfc_length n) < 128"
  by (auto simp: rfc_length_def word_less_nat_alt unat_of_nat)

lemma length_rfc_prefix:
  "length (rfc_prefix final op msk n) = (if n \<le> 125 then 2 else if n \<le> 65535 then 4 else 10)"
  by (simp add: rfc_prefix_def rfc_length_def)

lemma frame_length_rfc:
  assumes "n < 2 ^ 64"
  shows "frame_length (rfc_prefix final op msk n @ rest) =
    Some (of_nat n, of_nat (length (rfc_prefix final op msk n)))"
proof -
  define d where "d = rfc_prefix final op msk n @ rest"
  have d1: "d ! Suc 0 AND 0x7F = fst (rfc_length n)"
    using flag_bits(3) [OF _ rfc_length_fst, of "if msk then 0x80 else 0" n] by (simp add: d_def rfc_prefix_def)
  have un: "unat (of_nat n :: size_t) = n" using assms by (intro unat_of_nat_64) simp
  have len: "length d = length (rfc_prefix final op msk n) + length rest" by (simp add: d_def)
  consider "n \<le> 125" | "125 < n" "n \<le> 65535" | "65535 < n" by linarith
  then show ?thesis
  proof cases
    case 1
    then have "ucast (of_nat n :: byte) = (of_nat n :: size_t)" by (simp add: unsigned_of_nat take_bit_nat_eq_self)
    moreover have "(of_nat n :: size_t) \<noteq> 126" "(of_nat n :: size_t) \<noteq> 127"
      using 1 un by (auto simp: word_unat_eq_iff)
    ultimately show ?thesis
      using 1 unfolding d_def [symmetric] by (simp add: frame_length_def d1 rfc_length_def length_rfc_prefix)
  next
    case 2
    have "ext_len16 d = word_rcat (map (\<lambda>i. ucast (drop_bit (i * 8) (of_nat n :: size_t)) :: byte) (rev [0..<2]))"
      using 2 by (subst ext_len16_rcat) (simp_all add: d_def rfc_prefix_def rfc_length_def)
    also have "\<dots> = of_nat n" using 2 un by (intro word_rcat_be) simp
    finally show ?thesis
      using 2 unfolding d_def [symmetric]
      by (simp add: frame_length_def d1 rfc_length_def len length_rfc_prefix)
  next
    case 3
    have "ext_len64 d = word_rcat (map (\<lambda>i. ucast (drop_bit (i * 8) (of_nat n :: size_t)) :: byte) (rev [0..<8]))"
      using 3 by (subst ext_len64_rcat) (simp_all add: d_def rfc_prefix_def rfc_length_def)
    also have "\<dots> = of_nat n" using assms un by (intro word_rcat_be) simp
    finally show ?thesis
      using 3 unfolding d_def [symmetric]
      by (simp add: frame_length_def d1 rfc_length_def len length_rfc_prefix)
  qed
qed


lemma parseFrame_rfc:
  assumes op: "op < 16" and key: "\<forall>k. key = Some k \<longrightarrow> length k = 4"
    and n: "length pl + 14 < 2 ^ 64"
  shows "parseFrame (rfc_frame final op key pl @ rest) =
    Inr (of_nat (length (rfc_frame final op key pl)),
         Some \<lparr>fin = final, opcode = op, payload = length (rfc_header final op key (length pl)),
               flen = of_nat (length pl)\<rparr>,
         rfc_header final op key (length pl) @ pl @ rest)"
proof -
  let ?n = "length pl"
  define pre where "pre = rfc_prefix final op (key \<noteq> None) ?n"
  define kb where "kb = (case key of None \<Rightarrow> [] | Some k \<Rightarrow> k)"
  define body where "body = (case key of None \<Rightarrow> pl | Some k \<Rightarrow> apply_mask k pl)"
  define d where "d = rfc_frame final op key pl @ rest"
  have d: "d = pre @ kb @ body @ rest"
    by (simp add: d_def rfc_frame_def rfc_header_def pre_def kb_def body_def)
  have lp: "length pre \<le> 10" "2 \<le> length pre" by (simp_all add: pre_def length_rfc_prefix)
  have lb: "length body = ?n" by (simp add: body_def split: option.split)
  have lk: "length kb = (if key = None then 0 else 4)" using key by (auto simp: kb_def split: option.split)
  have fl: "frame_length d = Some (of_nat ?n, of_nat (length pre))"
    using frame_length_rfc [of ?n final op "key \<noteq> None"] n by (simp add: d pre_def)
  have d0: "d ! 0 = (if final then 0x80 else 0) OR op"
    and d1: "d ! 1 = (if key \<noteq> None then 0x80 else 0) OR fst (rfc_length ?n)"
    by (simp_all add: d pre_def rfc_prefix_def)
  have "op < 128" using op by (rule less_trans) simp
  then have b: "d ! 0 AND 0x0F = op" "(d ! 0 AND 0x80 \<noteq> 0) = final" "(d ! 1 AND 0x80 \<noteq> 0) = (key \<noteq> None)"
    unfolding d0 d1 using op flag_bits(2) [OF _ rfc_length_fst, of "if key \<noteq> None then 0x80 else 0" ?n]
      flag_bits [of "if final then 0x80 else 0" op] by (simp_all split: if_splits)
  have off: "(if key \<noteq> None then of_nat (length pre) + 4 else of_nat (length pre)) =
      (of_nat (length (pre @ kb)) :: size_t)" by (simp add: lk)
  have tot: "of_nat (length (pre @ kb)) + of_nat ?n = (of_nat (length (pre @ kb @ body)) :: size_t)"
    by (simp add: lb)
  have u: "unat (of_nat (length (pre @ kb @ body)) :: size_t) = length (pre @ kb @ body)"
    "unat (of_nat (length (pre @ kb)) :: size_t) = length (pre @ kb)"
    "unat (of_nat (length pre) :: size_t) = length pre" "unat (of_nat ?n :: size_t) = ?n"
    using n lp lb lk by (intro unat_of_nat_64; auto)+
  have ld: "\<not> length d < 2" "\<not> length d < length (pre @ kb @ body)" using lp by (simp_all add: d)
  have um: "unmask_loop (length pre) (length (pre @ kb)) 0 ?n d = Inr (pre @ kb @ pl @ rest)" if "key = Some k" for k
    using unmask_all [of k "length pre + 4" pre "apply_mask k pl" rest] that key
    by (simp add: d kb_def body_def apply_mask_involution)
  have "parseFrame d = Inr (of_nat (length (pre @ kb @ body)),
      Some \<lparr>fin = final, opcode = op, payload = length (pre @ kb), flen = of_nat ?n\<rparr>, pre @ kb @ pl @ rest)"
  proof (cases key)
    case None
    then have "body = pl" "kb = []" by (simp_all add: body_def kb_def)
    then show ?thesis
      unfolding parseFrame_def fl Let_def b off tot u using ld None u(1,3) by (simp add: d)
  next
    case (Some k)
    then show ?thesis
      unfolding parseFrame_def fl option.case prod.case Let_def b off tot u
      using ld um [OF Some] by simp
  qed
  then show ?thesis
    unfolding d_def by (simp add: rfc_frame_def rfc_header_def pre_def kb_def body_def)
qed


lemma frame_length_append:
  assumes "frame_length s = Some x" "2 \<le> length s"
  shows "frame_length (s @ t) = Some x"
proof -
  have n: "(s @ t) ! i = s ! i" if "i < length s" for i using that by (simp add: nth_append)
  have "ext_len16 (s @ t) = ext_len16 s" if "4 \<le> length s" using that by (simp add: ext_len16_def n)
  moreover have "ext_len64 (s @ t) = ext_len64 s" if "10 \<le> length s"
    using that by (simp add: ext_len64_rcat)
  ultimately show ?thesis
    using assms n [of "Suc 0"] by (auto simp: frame_length_def Let_def split: if_splits)
qed

lemma parseFrame_rfc_prefix:
  assumes op: "op < 16" and key: "\<forall>k. key = Some k \<longrightarrow> length k = 4"
    and n: "length pl + 14 < 2 ^ 64" and s: "rfc_frame final op key pl = s @ t" "t \<noteq> []"
  shows "parseFrame s = Inr (0, None, s)"
proof (cases "length s < 2 \<or> frame_length s = None")
  case True
  then show ?thesis by (auto simp: parseFrame_def)
next
  case False
  let ?pre = "rfc_prefix final op (key \<noteq> None) (length pl)"
  obtain tl where fr: "s @ t = ?pre @ tl" "length tl = (if key = None then 0 else 4) + length pl"
  proof
    show "s @ t = ?pre @ (case key of None \<Rightarrow> [] | Some k \<Rightarrow> k) @ (case key of None \<Rightarrow> pl | Some k \<Rightarrow> apply_mask k pl)"
      by (simp add: s(1) [symmetric] rfc_frame_def rfc_header_def)
  qed (use key in \<open>auto split: option.splits\<close>)
  have fl: "frame_length s = Some (of_nat (length pl), of_nat (length ?pre))"
    using False frame_length_append [of s _ t] frame_length_rfc [of "length pl" final op "key \<noteq> None" tl] n
    by (auto simp: fr(1))
  have "s ! 1 = (s @ t) ! 1" using False by (simp add: nth_append)
  also have "\<dots> = (if key \<noteq> None then 0x80 else 0) OR fst (rfc_length (length pl))"
    by (simp add: fr(1) rfc_prefix_def)
  finally have m: "(s ! 1 AND 0x80 \<noteq> 0) = (key \<noteq> None)"
    using flag_bits(2) [OF _ rfc_length_fst, of "if key \<noteq> None then 0x80 else 0" "length pl"] by (simp split: if_splits)
  have tot: "(if key \<noteq> None then of_nat (length ?pre) + 4 else of_nat (length ?pre)) + of_nat (length pl) =
      (of_nat (length (s @ t)) :: size_t)" by (simp add: fr)
  have "length (s @ t) < 2 ^ 64" using n by (simp only: fr length_append length_rfc_prefix) simp
  then have "unat (of_nat (length (s @ t)) :: size_t) = length (s @ t)" by (rule unat_of_nat_64)
  with s(2) have "length s < unat (of_nat (length (s @ t)) :: size_t)" by (simp only: length_append) simp
  with False show ?thesis
    unfolding parseFrame_def fl option.case prod.case Let_def m tot by simp
qed

lemma sendFrame_rfc:
  assumes "length pl < 2 ^ 64"
  shows "sendFrame pl op = rfc_frame True op None pl"
proof -
  have un: "unat (of_nat (length pl) :: size_t) = length pl" using assms by (rule unat_of_nat_64)
  have le: "(of_nat (length pl) :: size_t) \<le> 125 \<longleftrightarrow> length pl \<le> 125"
    "(of_nat (length pl) :: size_t) \<le> 65535 \<longleftrightarrow> length pl \<le> 65535"
    by (simp_all add: word_le_nat_alt un)
  have low: "ucast (x AND 0xFF) = (ucast x :: byte)" for x :: size_t
  proof -
    have "x AND 0xFF = take_bit 8 x" by (simp add: take_bit_eq_mask mask_eq_exp_minus_1)
    then show ?thesis by (simp only:) (rule bit_word_eqI, simp add: bit_simps)
  qed
  have small: "ucast (of_nat (length pl) :: size_t) = (of_nat (length pl) :: byte)"
    by (simp add: unsigned_of_nat of_nat_take_bit take_bit_word_eq_self)
  show ?thesis
    by (auto simp: sendFrame_def rfc_frame_def rfc_header_def rfc_prefix_def rfc_length_def le low small
        upt_rec_numeral numeral_2_eq_2)
qed

lemma unmask_loop_ok:
  assumes "mask_offset + 4 \<le> length data" "offset + i + left \<le> length data"
  shows "\<exists>data'. unmask_loop mask_offset offset i left data = Inr data' \<and> length data' = length data"
  using assms
proof (induction left arbitrary: i data)
  case (Suc left)
  have "i mod 4 < 4" by simp
  then have "\<not> (length data \<le> offset + i \<or> length data \<le> mask_offset + i mod 4)" using Suc.prems by linarith
  then show ?case
    using Suc.prems Suc.IH [of "data[offset + i := data ! (offset + i) XOR data ! (mask_offset + i mod 4)]" "Suc i"]
    by simp
qed simp

lemma frame_length_bounds:
  assumes "frame_length data = Some (pl, mo)" "2 \<le> length data"
  shows "unat mo \<le> 10" "2 \<le> unat mo"
  using assms by (auto simp: frame_length_def Let_def split: if_splits)

lemma unmask_loop_fault:
  assumes "length data < offset + i + left"
  shows "unmask_loop mask_offset offset i left data = Inl OutOfBounds \<or> left = 0"
  using assms
proof (induction left arbitrary: i data)
  case (Suc left)
  show ?case
  proof (cases "left = 0")
    case True
    then show ?thesis using Suc.prems by simp
  next
    case False
    then show ?thesis
      using Suc.prems Suc.IH [of "data[offset + i := data ! (offset + i) XOR data ! (mask_offset + i mod 4)]" "Suc i"]
      by simp
  qed
qed simp

lemma unat_add_wrap:
  assumes "2 ^ 64 \<le> unat a + unat b"
  shows "unat (a + b) + 2 ^ 64 = unat a + unat (b :: size_t)"
proof -
  have "unat (a + b) = (unat a + unat b) mod 2 ^ 64" by (simp add: unat_word_ariths)
  also have "\<dots> = (unat a + unat b - 2 ^ 64) mod 2 ^ 64" by (rule le_mod_geq [OF assms])
  also have "\<dots> = unat a + unat b - 2 ^ 64"
    using unat_lt_64 [of a] unat_lt_64 [of b] by (intro mod_less) simp
  finally show ?thesis using assms by simp
qed

text \<open>The size of the frame that the length bytes announce, as a number without wrap-around.\<close>

definition announced :: "byte list \<Rightarrow> nat" where
  "announced data = (case frame_length data of None \<Rightarrow> 0
     | Some (pl, mo) \<Rightarrow> unat mo + (if data ! 1 AND 0x80 \<noteq> 0 then 4 else 0) + unat pl)"

lemma parseFrame_unfold:
  assumes "2 \<le> length data" "frame_length data = Some (pl, mo)"
  obtains offset where
    "unat offset = unat mo + (if data ! 1 AND 0x80 \<noteq> 0 then 4 else 0)"
    "announced data = unat offset + unat pl"
    "parseFrame data =
      (let f = \<lparr>fin = (data ! 0 AND 0x80 \<noteq> 0), opcode = data ! 0 AND 0x0F, payload = unat offset, flen = pl\<rparr>
       in if length data < unat (offset + pl) then Inr (0, None, data)
          else if data ! 1 AND 0x80 \<noteq> 0 then
            res_bind (unmask_loop (unat mo) (unat offset) 0 (unat pl) data) (\<lambda>data'. Inr (offset + pl, Some f, data'))
          else Inr (offset + pl, Some f, data))"
proof
  let ?o = "if data ! 1 AND 0x80 \<noteq> 0 then mo + 4 else mo"
  have "unat (mo + 4) = unat mo + 4"
    using frame_length_bounds [OF assms(2,1)] unat_add_lem [of mo 4] by simp
  then show u: "unat ?o = unat mo + (if data ! 1 AND 0x80 \<noteq> 0 then 4 else 0)" by simp
  show "announced data = unat ?o + unat pl" unfolding u by (simp add: announced_def assms(2))
  show "parseFrame data =
      (let f = \<lparr>fin = (data ! 0 AND 0x80 \<noteq> 0), opcode = data ! 0 AND 0x0F, payload = unat ?o, flen = pl\<rparr>
       in if length data < unat (?o + pl) then Inr (0, None, data)
          else if data ! 1 AND 0x80 \<noteq> 0 then
            res_bind (unmask_loop (unat mo) (unat ?o) 0 (unat pl) data) (\<lambda>data'. Inr (?o + pl, Some f, data'))
          else Inr (?o + pl, Some f, data))"
    unfolding parseFrame_def assms(2) option.case prod.case Let_def using assms(1) by simp
qed

lemma parseFrame_no_wrap:
  assumes "announced data < 2 ^ 64"
  shows "\<exists>total fo data'. parseFrame data = Inr (total, fo, data') \<and> length data' = length data \<and>
    unat total \<le> length data \<and> (fo = None \<longleftrightarrow> total = 0) \<and>
    (\<forall>f. fo = Some f \<longrightarrow> payload f + unat (flen f) = unat total)"
proof (cases "length data < 2 \<or> frame_length data = None")
  case True
  then show ?thesis by (auto simp: parseFrame_def)
next
  case False
  then obtain pl mo where fl: "frame_length data = Some (pl, mo)" and l2: "2 \<le> length data" by auto
  obtain offset where o: "unat offset = unat mo + (if data ! 1 AND 0x80 \<noteq> 0 then 4 else 0)"
    "announced data = unat offset + unat pl" and eq: "parseFrame data =
      (let f = \<lparr>fin = (data ! 0 AND 0x80 \<noteq> 0), opcode = data ! 0 AND 0x0F, payload = unat offset, flen = pl\<rparr>
       in if length data < unat (offset + pl) then Inr (0, None, data)
          else if data ! 1 AND 0x80 \<noteq> 0 then
            res_bind (unmask_loop (unat mo) (unat offset) 0 (unat pl) data) (\<lambda>data'. Inr (offset + pl, Some f, data'))
          else Inr (offset + pl, Some f, data))"
    by (rule parseFrame_unfold [OF l2 fl])
  have ut: "unat (offset + pl) = unat offset + unat pl"
    using assms o(2) by (intro unat_add_lem [THEN iffD1]) simp
  then have t0: "offset + pl \<noteq> 0" using o(1) frame_length_bounds [OF fl l2] by (auto simp: word_unat_eq_iff)
  have "\<exists>data'. unmask_loop (unat mo) (unat offset) 0 (unat pl) data = Inr data' \<and> length data' = length data"
    if "data ! 1 AND 0x80 \<noteq> 0" "\<not> length data < unat (offset + pl)"
    using that ut o(1) by (intro unmask_loop_ok) auto
  with t0 ut show ?thesis unfolding eq Let_def by auto
qed

lemma parseFrame_wrap:
  assumes "2 ^ 64 \<le> announced data" "length data < 2 ^ 31"
  shows "parseFrame data = Inl OutOfBounds \<longleftrightarrow>
    2 \<le> length data \<and> data ! 1 AND 0x80 \<noteq> 0 \<and> announced data \<le> length data + 2 ^ 64"
proof (cases "length data < 2")
  case False
  with assms(1) obtain pl mo where fl: "frame_length data = Some (pl, mo)" and l2: "2 \<le> length data"
    by (cases "frame_length data") (auto simp: announced_def)
  obtain offset where o: "unat offset = unat mo + (if data ! 1 AND 0x80 \<noteq> 0 then 4 else 0)"
    "announced data = unat offset + unat pl" and eq: "parseFrame data =
      (let f = \<lparr>fin = (data ! 0 AND 0x80 \<noteq> 0), opcode = data ! 0 AND 0x0F, payload = unat offset, flen = pl\<rparr>
       in if length data < unat (offset + pl) then Inr (0, None, data)
          else if data ! 1 AND 0x80 \<noteq> 0 then
            res_bind (unmask_loop (unat mo) (unat offset) 0 (unat pl) data) (\<lambda>data'. Inr (offset + pl, Some f, data'))
          else Inr (offset + pl, Some f, data))"
    by (rule parseFrame_unfold [OF l2 fl])
  have ut: "unat (offset + pl) + 2 ^ 64 = unat offset + unat pl"
    using assms(1) o(2) by (intro unat_add_wrap) simp
  have "unat pl \<noteq> 0" "length data < unat offset + 0 + unat pl"
    using assms o frame_length_bounds [OF fl l2] by (auto split: if_splits)
  then have "unmask_loop (unat mo) (unat offset) 0 (unat pl) data = Inl OutOfBounds"
    using unmask_loop_fault [of data "unat offset" 0 "unat pl" "unat mo"] by auto
  moreover have "length data < unat (offset + pl) \<longleftrightarrow> \<not> announced data \<le> length data + 2 ^ 64"
    using ut o(2) by linarith
  ultimately show ?thesis using l2 unfolding eq Let_def by auto
qed (simp add: parseFrame_def)

section \<open>Properties\<close>

text \<open>
  C16. Decoding of RFC 6455 frames. A complete frame, masked or not, in any of the three length
  encodings and followed by anything, is consumed exactly; its flags and opcode are returned and
  its payload stands unmasked in the buffer behind the header. Every proper prefix of it asks
  for more data and leaves the buffer alone.
\<close>

theorem ws_frame_decode:
  assumes "op < 16" "\<forall>k. key = Some k \<longrightarrow> length k = 4" "length pl + 14 < 2 ^ 64"
  shows "parseFrame (rfc_frame final op key pl @ rest) =
      Inr (of_nat (length (rfc_frame final op key pl)),
           Some \<lparr>fin = final, opcode = op, payload = length (rfc_header final op key (length pl)),
                 flen = of_nat (length pl)\<rparr>,
           rfc_header final op key (length pl) @ pl @ rest) \<and>
    (\<forall>s t. rfc_frame final op key pl = s @ t \<longrightarrow> t \<noteq> [] \<longrightarrow> parseFrame s = Inr (0, None, s))"
  using parseFrame_rfc [OF assms] parseFrame_rfc_prefix [OF assms] by blast

theorem ws_frame_decode_witness:
  "parseFrame (rfc_frame True 1 (Some [1, 2, 3, 4]) [72, 105] @ [9]) =
     Inr (8, Some \<lparr>fin = True, opcode = 1, payload = 6, flen = 2\<rparr>, [0x81, 0x82, 1, 2, 3, 4, 72, 105, 9])"
  using ws_frame_decode [of 1 "Some [1, 2, 3, 4]" "[72, 105]" True "[9]"]
  by (simp add: rfc_frame_def rfc_header_def rfc_prefix_def rfc_length_def)

text \<open>
  C17. What the server sends, a client can read: a frame built by \<^verbatim>\<open>sendFrame\<close> is an unmasked
  final RFC 6455 frame, and parsing it gives back opcode and payload.
\<close>

theorem sendFrame_roundtrip:
  assumes "op < 16" "length pl + 14 < 2 ^ 64"
  shows "sendFrame pl op = rfc_frame True op None pl \<and>
    (\<exists>f hdr. parseFrame (sendFrame pl op) = Inr (of_nat (length (sendFrame pl op)), Some f, hdr @ pl) \<and>
       fin f \<and> opcode f = op \<and> payload f = length hdr \<and> unat (flen f) = length pl)"
proof -
  have s: "sendFrame pl op = rfc_frame True op None pl" using assms(2) by (intro sendFrame_rfc) simp
  have "unat (of_nat (length pl) :: size_t) = length pl" using assms(2) by (intro unat_of_nat_64) simp
  then show ?thesis
    using parseFrame_rfc [of op None pl True "[]"] assms unfolding s by simp
qed

theorem sendFrame_roundtrip_witness:
  "sendFrame [72, 105] 1 = [0x81, 2, 72, 105]"
  using sendFrame_roundtrip [of 1 "[72, 105]"]
  by (simp add: rfc_frame_def rfc_header_def rfc_prefix_def rfc_length_def)

text \<open>
  C18. When \<^verbatim>\<open>parseFrame\<close> leaves the buffer. For every buffer whose length is an \<^verbatim>\<open>int\<close>, if the
  announced frame size fits in 64 bits the call returns, keeps the buffer's size, consumes no
  more than was received and hands out a payload inside the buffer, with no frame exactly when
  it consumes nothing. If it does not fit, a masked frame whose wrapped size passes the length
  check makes it write outside the buffer, and nothing else does.
\<close>

theorem parseFrame_bounds:
  assumes "length data < 2 ^ 31"
  shows "if announced data < 2 ^ 64
    then \<exists>total fo data'. parseFrame data = Inr (total, fo, data') \<and> length data' = length data \<and>
      unat total \<le> length data \<and> (fo = None \<longleftrightarrow> total = 0) \<and>
      (\<forall>f. fo = Some f \<longrightarrow> payload f + unat (flen f) = unat total)
    else parseFrame data = Inl OutOfBounds \<longleftrightarrow>
      2 \<le> length data \<and> data ! 1 AND 0x80 \<noteq> 0 \<and> announced data \<le> length data + 2 ^ 64"
  using parseFrame_no_wrap [of data] parseFrame_wrap [OF _ assms] by simp

theorem parseFrame_bounds_witness:
  "parseFrame [0x81, 0xFF, 255, 255, 255, 255, 255, 255, 255, 255, 1, 2, 3, 4] = Inl OutOfBounds"
proof -
  let ?d = "[0x81, 0xFF, 255, 255, 255, 255, 255, 255, 255, 255, 1, 2, 3, 4] :: byte list"
  have "[0..<8] = [0, 1, 2, 3, 4, 5, 6, 7]" by code_simp
  then have "ext_len64 ?d = 0xFFFFFFFFFFFFFFFF" by (simp add: ext_len64_def)
  then have "announced ?d = 18446744073709551629" by (simp add: announced_def frame_length_def)
  then show ?thesis using parseFrame_bounds [of ?d] by simp
qed



end
