(* ===== verification/Http_Message.thy ===== *)
theory Http_Message
  imports Base64
begin

text \<open>
  Request and response objects of \<^verbatim>\<open>include/http_message.h\<close> and the rendering of response
  headers in \<^verbatim>\<open>src/http_message.cc\<close>. The operations that touch a connection (\<^verbatim>\<open>send\<close>,
  \<^verbatim>\<open>abort\<close>, \<^verbatim>\<open>resp_with_404\<close>) are in the theory of the server.

  \<^verbatim>\<open>snprintf\<close> is modelled with its C semantics: it reports the length of the whole text, stores
  at most \<open>sz - 1\<close> bytes of it and a terminating NUL, and nothing if \<open>sz\<close> is 0; storing
  outside the buffer is the fault \<open>OutOfBounds\<close>. The remaining size \<^verbatim>\<open>header_len - offset\<close> is
  computed in \<^verbatim>\<open>size_t\<close>, where it wraps. The buffer is an array on the stack, so its initial
  contents are an argument.
\<close>

section \<open>Objects\<close>

record request_object =
  verb :: "byte list"
  uri :: "byte list"

datatype body_buffer = BNone | BHeap nat | BStatic "byte list"

text \<open>
  \<^verbatim>\<open>headers\<close> is a \<^verbatim>\<open>std::map\<close> from key pointers to value pointers. Its iteration order is the
  order of the keys' addresses, and two equal keys from different calls are two entries: it is a
  list of pairs.
\<close>

record response_object =
  response_len :: size_t
  response_buffer :: body_buffer
  res_req :: nat
  res_headers :: "(byte list \<times> byte list) list"
  header_size :: int
  is_static :: bool
  res_cli :: nat
  res_guard :: "nat option"

definition new_response :: "nat \<Rightarrow> response_object" where
  "new_response req = \<lparr>response_len = 0, response_buffer = BNone, res_req = req, res_headers = [],
     header_size = 0, is_static = False, res_cli = 0, res_guard = None\<rparr>"

section \<open>Formatting\<close>

fun dec_digits :: "nat \<Rightarrow> byte list" where
  "dec_digits n = (if n < 10 then [of_nat (48 + n)] else dec_digits (n div 10) @ [of_nat (48 + n mod 10)])"

declare dec_digits.simps [simp del]

definition CRLF :: "byte list" where "CRLF = [13, 10]"

definition snprintf :: "byte list \<Rightarrow> size_t \<Rightarrow> size_t \<Rightarrow> byte list \<Rightarrow> (size_t \<times> byte list) res" where
  "snprintf buf off sz str =
     (if sz = 0 then Inr (of_nat (length str), buf)
      else
        let m = min (length str) (unat sz - 1)
        in if length buf < unat off + m + 1 then Inl OutOfBounds
           else Inr (of_nat (length str),
                     take (unat off) buf @ take m str @ 0 # drop (unat off + m + 1) buf))"

definition default_headers :: "size_t \<Rightarrow> byte list" where
  "default_headers len =
     ascii ''HTTP/1.1 200 OK'' @ CRLF @ ascii ''Content-Type: text/plain'' @ CRLF @
     ascii ''Content-Length: '' @ dec_digits (unat len) @ CRLF @
     ascii ''Connection: keep-alive'' @ CRLF @ CRLF"

definition standard_headers :: "size_t \<Rightarrow> byte list" where
  "standard_headers len =
     ascii ''HTTP/1.1 200 OK'' @ CRLF @
     ascii ''Content-Length: '' @ dec_digits (unat len) @ CRLF @
     ascii ''Connection: keep-alive'' @ CRLF"

definition header_line :: "byte list \<times> byte list \<Rightarrow> byte list" where
  "header_line kv = fst kv @ ascii '': '' @ snd kv @ CRLF"

fun append_headers ::
    "size_t \<Rightarrow> (byte list \<times> byte list) list \<Rightarrow> size_t \<Rightarrow> byte list \<Rightarrow> (size_t \<times> byte list) res" where
  "append_headers header_len [] offset buf = Inr (offset, buf)"
| "append_headers header_len (kv # kvs) offset buf =
     res_bind (snprintf buf offset (header_len - offset) (header_line kv))
       (\<lambda>(n, buf'). append_headers header_len kvs (offset + n) buf')"

definition ResponseObject_build_headers ::
    "byte list option \<Rightarrow> size_t \<Rightarrow> response_object \<Rightarrow> (int \<times> byte list) res" where
  "ResponseObject_build_headers header_buf header_len res =
     (case header_buf of None \<Rightarrow> Inr (-1, [])
      | Some buf \<Rightarrow>
          if header_len = 0 then Inr (-1, buf)
          else if header_size res = 0 then
            res_bind (snprintf buf 0 header_len (default_headers (response_len res)))
              (\<lambda>(n, buf'). Inr (sint (ucast n :: 32 word), buf'))
          else
            res_bind (snprintf buf 0 header_len (standard_headers (response_len res))) (\<lambda>(n0, buf0).
            res_bind (append_headers header_len (res_headers res) n0 buf0) (\<lambda>(offset, buf1).
            res_bind (snprintf buf1 offset (header_len - offset) CRLF) (\<lambda>(n2, buf2).
              Inr (sint (ucast (offset + n2) :: 32 word), buf2)))))"

text \<open>What the response should start with.\<close>

definition header_text :: "response_object \<Rightarrow> byte list" where
  "header_text res =
     (if header_size res = 0 then default_headers (response_len res)
      else standard_headers (response_len res) @ concat (map header_line (res_headers res)) @ CRLF)"

section \<open>Lengths\<close>

lemma length_dec_digits: "n < 10 ^ k \<Longrightarrow> 0 < k \<Longrightarrow> length (dec_digits n) \<le> k"
proof (induction n arbitrary: k rule: dec_digits.induct)
  case (1 n)
  show ?case
  proof (cases "n < 10")
    case True
    then show ?thesis using 1(3) by (simp add: dec_digits.simps)
  next
    case False
    obtain k' where k': "k = Suc k'" using 1(3) by (cases k) auto
    with False 1(2) have k: "k = Suc k'" "0 < k'" by (cases k'; simp)+
    have "n div 10 < 10 ^ k'" using 1(2) k by (simp add: less_mult_imp_div_less mult.commute)
    then show ?thesis using False 1(1) [OF False _ k(2)] k by (subst dec_digits.simps) simp
  qed
qed

lemma dec_digits_size_t: "length (dec_digits (unat (x :: size_t))) \<le> 20"
  using unat_lt_64 [of x] by (intro length_dec_digits) simp_all

lemma length_ascii [simp]: "length (ascii s) = length s"
  by (simp add: ascii_def)

lemma length_CRLF [simp]: "length CRLF = 2"
  by (simp add: CRLF_def)

lemma length_standard_headers: "length (standard_headers len) = 59 + length (dec_digits (unat len))"
  by (simp add: standard_headers_def)

lemma length_default_headers: "length (default_headers len) = 87 + length (dec_digits (unat len))"
  by (simp add: default_headers_def)

lemma length_header_line: "length (header_line kv) = length (fst kv) + length (snd kv) + 4"
  by (simp add: header_line_def)

section \<open>Rendering\<close>

lemma snprintf_fits:
  assumes "unat off + length str < unat hl" "unat hl = length buf"
  shows "snprintf buf off (hl - off) str =
    Inr (of_nat (length str), take (unat off) buf @ str @ 0 # drop (unat off + length str + 1) buf)"
proof -
  have "off \<le> hl" using assms by (simp add: word_le_nat_alt)
  then have u: "unat (hl - off) = unat hl - unat off" by (rule unat_sub)
  then have "hl - off \<noteq> 0" using assms by auto
  moreover have "min (length str) (unat (hl - off) - 1) = length str" using u assms by simp
  ultimately show ?thesis using assms by (simp add: snprintf_def Let_def del: unat_eq_zero)
qed

lemma snprintf_at_end:
  assumes "length t + length str < unat hl" "unat hl = length buf" "take (length t) buf = t"
  shows "snprintf buf (of_nat (length t)) (hl - of_nat (length t)) str =
    Inr (of_nat (length str), t @ str @ 0 # drop (length t + length str + 1) buf)"
proof -
  have "unat (of_nat (length t) :: size_t) = length t"
    using assms(1) unat_lt_64 [of hl] by (intro unat_of_nat_64) simp
  then show ?thesis using snprintf_fits [of "of_nat (length t)" str hl buf] assms by simp
qed

lemma append_headers_fits:
  assumes "length t + length (concat (map header_line kvs)) < unat hl" "unat hl = length buf"
    and "take (length t) buf = t"
  shows "\<exists>buf'. append_headers hl kvs (of_nat (length t)) buf =
      Inr (of_nat (length (t @ concat (map header_line kvs))), buf') \<and> length buf' = length buf \<and>
      take (length (t @ concat (map header_line kvs))) buf' = t @ concat (map header_line kvs)"
  using assms
proof (induction kvs arbitrary: t buf)
  case (Cons kv kvs)
  let ?b = "t @ header_line kv @ 0 # drop (length t + length (header_line kv) + 1) buf"
  have s: "snprintf buf (of_nat (length t)) (hl - of_nat (length t)) (header_line kv) =
      Inr (of_nat (length (header_line kv)), ?b)"
    using Cons.prems by (intro snprintf_at_end) auto
  have "length ?b = length buf" using Cons.prems by simp
  with Cons.IH [of "t @ header_line kv" ?b] Cons.prems show ?case by (simp add: s)
qed auto

lemma build_headers_fits:
  assumes "length (header_text res) < unat hl" "unat hl = length buf" "length buf \<le> INT_MAX"
  shows "\<exists>rest. ResponseObject_build_headers (Some buf) hl res =
    Inr (int (length (header_text res)), header_text res @ 0 # rest) \<and>
    length (header_text res @ 0 # rest) = length buf"
proof -
  have nz: "hl \<noteq> 0" using assms(1) by auto
  have s: "sint (ucast (of_nat n :: size_t) :: 32 word) = int n" if "n < length buf" for n
    using that assms(3) by (simp add: INT_MAX_def unsigned_of_nat signed_of_nat take_bit_nat_eq_self signed_take_bit_int_eq_self)
  show ?thesis
  proof (cases "header_size res = 0")
    case True
    then have "header_text res = default_headers (response_len res)" by (simp add: header_text_def)
    with snprintf_at_end [of "[]" "default_headers (response_len res)" hl buf] assms nz True s
    show ?thesis by (auto simp: ResponseObject_build_headers_def)
  next
    case False
    let ?t0 = "standard_headers (response_len res)"
    let ?hs = "concat (map header_line (res_headers res))"
    have t: "header_text res = ?t0 @ ?hs @ CRLF" using False by (simp add: header_text_def)
    let ?b0 = "?t0 @ 0 # drop (length ?t0 + 1) buf"
    have 0: "snprintf buf 0 hl ?t0 = Inr (of_nat (length ?t0), ?b0)"
      using snprintf_at_end [of "[]" ?t0 hl buf] assms t by simp
    have "length ?b0 = length buf" using assms t by simp
    with append_headers_fits [of ?t0 "res_headers res" hl ?b0] assms t
    obtain b1 where 1: "append_headers hl (res_headers res) (of_nat (length ?t0)) ?b0 =
        Inr (of_nat (length (?t0 @ ?hs)), b1)" "length b1 = length buf" "take (length (?t0 @ ?hs)) b1 = ?t0 @ ?hs"
      by auto
    have 2: "snprintf b1 (of_nat (length (?t0 @ ?hs))) (hl - of_nat (length (?t0 @ ?hs))) CRLF =
        Inr (of_nat (length CRLF), (?t0 @ ?hs) @ CRLF @ 0 # drop (length (?t0 @ ?hs) + length CRLF + 1) b1)"
      using 1 assms t by (intro snprintf_at_end) auto
    have "of_nat (length (?t0 @ ?hs)) + of_nat (length CRLF) = (of_nat (length (header_text res)) :: size_t)"
      by (simp add: t)
    with s [of "length (header_text res)"] assms(1,2)
    have "sint (ucast (of_nat (length (?t0 @ ?hs)) + of_nat (length CRLF) :: size_t) :: 32 word) =
        int (length (header_text res))" by simp
    with 0 1 2 False nz have "ResponseObject_build_headers (Some buf) hl res =
        Inr (int (length (header_text res)), (?t0 @ ?hs) @ CRLF @ 0 # drop (length (?t0 @ ?hs) + length CRLF + 1) b1)"
      by (simp add: ResponseObject_build_headers_def del: length_append length_CRLF)
    with 1(2) assms show ?thesis by (simp add: t)
  qed
qed


section \<open>Overflow\<close>

lemma snprintf_general:
  assumes "unat hl = length buf" "o' < 2 ^ 63" "length buf < 2 ^ 63" "length str < 2 ^ 62"
  shows "if o' \<le> length buf then
      \<exists>buf'. snprintf buf (of_nat o') (hl - of_nat o') str = Inr (of_nat (length str), buf') \<and> length buf' = length buf
    else snprintf buf (of_nat o') (hl - of_nat o') str = Inl OutOfBounds"
proof (cases "o' \<le> length buf")
  case True
  have uo: "unat (of_nat o' :: size_t) = o'" using assms(2) by (intro unat_of_nat_64) simp
  then have "(of_nat o' :: size_t) \<le> hl" using True assms(1) by (simp add: word_le_nat_alt)
  then have us: "unat (hl - of_nat o') = length buf - o'" using uo assms(1) by (simp add: unat_sub)
  show ?thesis
  proof (cases "hl - of_nat o' = 0")
    case False
    then have "0 < unat (hl - of_nat o')" by (simp add: unat_gt_0)
    then have lt: "0 < length buf - o'" unfolding us .
    have "o' + min (length str) (length buf - o' - 1) + 1 \<le> length buf" using lt by simp
    then show ?thesis using True False unfolding snprintf_def Let_def us uo by simp
  qed (use True in \<open>simp add: snprintf_def\<close>)
next
  case False
  have uo: "unat (of_nat o' :: size_t) = o'" using assms(2) by (intro unat_of_nat_64) simp
  have ne: "hl - of_nat o' \<noteq> 0" using False assms(1) uo by auto
  have "length buf < o' + m + 1" for m using False by simp
  then show ?thesis using ne False by (simp add: snprintf_def Let_def uo)
qed

lemma append_headers_general:
  assumes "unat hl = length buf" "length buf < 2 ^ 62" "o' + length (concat (map header_line kvs)) < 2 ^ 62"
  shows "if o' + length (concat (map header_line (butlast kvs))) \<le> length buf \<or> kvs = [] then
      \<exists>buf'. append_headers hl kvs (of_nat o') buf =
        Inr (of_nat (o' + length (concat (map header_line kvs))), buf') \<and> length buf' = length buf
    else append_headers hl kvs (of_nat o') buf = Inl OutOfBounds"
  using assms
proof (induction kvs arbitrary: o' buf)
  case (Cons kv kvs)
  have sn: "if o' \<le> length buf then
      \<exists>buf'. snprintf buf (of_nat o') (hl - of_nat o') (header_line kv) = Inr (of_nat (length (header_line kv)), buf') \<and> length buf' = length buf
    else snprintf buf (of_nat o') (hl - of_nat o') (header_line kv) = Inl OutOfBounds"
    using Cons.prems by (intro snprintf_general) auto
  show ?case
  proof (cases "o' \<le> length buf")
    case False
    then show ?thesis using sn by (auto simp del: of_nat_add)
  next
    case True
    with sn obtain b where b: "length b = length buf"
      "snprintf buf (of_nat o') (hl - of_nat o') (header_line kv) = Inr (of_nat (length (header_line kv)), b)" by auto
    have "of_nat o' + of_nat (length (header_line kv)) = (of_nat (o' + length (header_line kv)) :: size_t)" by simp
    then have ap: "append_headers hl (kv # kvs) (of_nat o') buf = append_headers hl kvs (of_nat (o' + length (header_line kv))) b"
      using b by (simp del: of_nat_add)
    show ?thesis
      using Cons.IH [of b "o' + length (header_line kv)"] Cons.prems b(1) True
      unfolding ap by (cases "kvs = []") (auto simp: add.assoc simp del: of_nat_add)
  qed
qed auto

lemma length_butlast_headers:
  "length (concat (map header_line (butlast kvs))) \<le> length (concat (map header_line kvs))"
  by (induction kvs) auto

lemma build_headers_general:
  assumes "unat hl = length buf" "256 \<le> length buf" "length (header_text res) \<le> INT_MAX" "length buf \<le> INT_MAX"
    and "header_size res \<noteq> 0"
  shows "if length (header_text res) \<le> length buf + 2 then
      \<exists>buf'. ResponseObject_build_headers (Some buf) hl res = Inr (int (length (header_text res)), buf') \<and>
        length buf' = length buf
    else ResponseObject_build_headers (Some buf) hl res = Inl OutOfBounds"
proof -
  let ?t0 = "standard_headers (response_len res)"
  let ?hs = "concat (map header_line (res_headers res))"
  have t: "length (header_text res) = length ?t0 + length ?hs + 2" using assms(5) by (simp add: header_text_def)
  have t0: "length ?t0 \<le> 79" using dec_digits_size_t [of "response_len res"] by (simp add: length_standard_headers)
  have nz: "hl \<noteq> 0" using assms(1,2) by auto
  have "if 0 \<le> length buf then
      \<exists>buf'. snprintf buf (of_nat 0) (hl - of_nat 0) ?t0 = Inr (of_nat (length ?t0), buf') \<and> length buf' = length buf
    else snprintf buf (of_nat 0) (hl - of_nat 0) ?t0 = Inl OutOfBounds"
    using assms t0 by (intro snprintf_general) (auto simp: INT_MAX_def)
  then obtain b0 where 0: "snprintf buf 0 hl ?t0 = Inr (of_nat (length ?t0), b0)" "length b0 = length buf" by auto
  have ap: "if length ?t0 + length (concat (map header_line (butlast (res_headers res)))) \<le> length b0 \<or> res_headers res = [] then
      \<exists>b1. append_headers hl (res_headers res) (of_nat (length ?t0)) b0 =
        Inr (of_nat (length ?t0 + length ?hs), b1) \<and> length b1 = length b0
    else append_headers hl (res_headers res) (of_nat (length ?t0)) b0 = Inl OutOfBounds"
    using assms 0 t by (intro append_headers_general) (auto simp: INT_MAX_def)
  show ?thesis
  proof (cases "append_headers hl (res_headers res) (of_nat (length ?t0)) b0 = Inl OutOfBounds")
    case True
    then have "length buf < length ?t0 + length (concat (map header_line (butlast (res_headers res))))"
      using ap 0(2) by (auto split: if_splits)
    then have "length buf + 2 < length (header_text res)" using t length_butlast_headers [of "res_headers res"] by linarith
    with True 0 nz assms(5) show ?thesis by (simp add: ResponseObject_build_headers_def)
  next
    case False
    with ap obtain b1 where 1: "append_headers hl (res_headers res) (of_nat (length ?t0)) b0 =
        Inr (of_nat (length ?t0 + length ?hs), b1)" "length b1 = length buf" using 0(2) by (auto split: if_splits)
    have 2: "if length ?t0 + length ?hs \<le> length b1 then
        \<exists>b2. snprintf b1 (of_nat (length ?t0 + length ?hs)) (hl - of_nat (length ?t0 + length ?hs)) CRLF =
          Inr (of_nat (length CRLF), b2) \<and> length b2 = length b1
      else snprintf b1 (of_nat (length ?t0 + length ?hs)) (hl - of_nat (length ?t0 + length ?hs)) CRLF = Inl OutOfBounds"
      using assms 1 t by (intro snprintf_general) (auto simp: INT_MAX_def)
    define n where "n = length ?t0 + length ?hs"
    have "sint (ucast (of_nat (length (header_text res)) :: size_t) :: 32 word) = int (length (header_text res))"
      using assms(3) by (simp add: INT_MAX_def unsigned_of_nat signed_of_nat take_bit_nat_eq_self signed_take_bit_int_eq_self)
    moreover have "of_nat (length (header_text res)) = (of_nat n + 2 :: size_t)" by (simp add: t n_def)
    ultimately have "sint (ucast (of_nat n + 2 :: size_t) :: 32 word) = int (length (header_text res))" by simp
    then show ?thesis
      using 0 1 2 nz assms(5) t unfolding n_def [symmetric]
      by (auto simp: ResponseObject_build_headers_def split: if_splits)
  qed
qed

section \<open>Properties\<close>

text \<open>
  C20. Response headers. If the rendered header block is shorter than the buffer,
  \<^verbatim>\<open>build_headers\<close> stores exactly it and returns its length.
\<close>

theorem build_headers_exact:
  assumes "length (header_text res) < unat header_len" "unat header_len = length buf" "length buf \<le> INT_MAX"
  shows "\<exists>rest. ResponseObject_build_headers (Some buf) header_len res =
      Inr (int (length (header_text res)), header_text res @ 0 # rest) \<and>
    length (header_text res @ 0 # rest) = length buf"
  using build_headers_fits [OF assms] .

theorem build_headers_exact_witness:
  "\<exists>rest. ResponseObject_build_headers (Some (replicate 256 7)) 256 ((new_response 0)\<lparr>response_len := 2\<rparr>) =
      Inr (88, header_text ((new_response 0)\<lparr>response_len := 2\<rparr>) @ 0 # rest)"
  using build_headers_exact [of "(new_response 0)\<lparr>response_len := 2\<rparr>" 256 "replicate 256 7"]
  by (auto simp: header_text_def new_response_def length_default_headers dec_digits.simps INT_MAX_def)

text \<open>
  C21. The header buffer of \<^verbatim>\<open>send\<close> has \<^verbatim>\<open>header_size + 256\<close> bytes, and \<^verbatim>\<open>header_size\<close> counts
  the bytes of the values only. With keys that are too many or too long the block no longer fits:
  the call then reports at least as many bytes as the buffer has, and if the block exceeds the
  buffer by more than two bytes it writes outside the buffer.
\<close>

theorem build_headers_overflow:
  assumes "header_size res = int (length (concat (map snd (res_headers res))))" "header_size res \<noteq> 0"
    and "length buf = nat (header_size res) + 256" "length (header_text res) \<le> INT_MAX" "length buf \<le> INT_MAX"
    and "195 \<le> length (dec_digits (unat (response_len res))) +
           sum_list (map (\<lambda>kv. length (fst kv) + 4) (res_headers res))"
  shows "length buf \<le> length (header_text res) \<and>
    (if length (header_text res) \<le> length buf + 2 then
       \<exists>buf'. ResponseObject_build_headers (Some buf) (of_nat (length buf)) res =
         Inr (int (length (header_text res)), buf') \<and> length buf' = length buf
     else ResponseObject_build_headers (Some buf) (of_nat (length buf)) res = Inl OutOfBounds)"
proof -
  have split: "length (concat (map header_line kvs)) =
      length (concat (map snd kvs)) + sum_list (map (\<lambda>kv. length (fst kv) + 4) kvs)"
    for kvs :: "(byte list \<times> byte list) list"
    by (induction kvs) (auto simp: length_header_line)
  have "length (header_text res) = length (standard_headers (response_len res)) +
      length (concat (map header_line (res_headers res))) + 2"
    using assms(2) by (simp add: header_text_def)
  then have len: "length (header_text res) = 61 + length (dec_digits (unat (response_len res))) +
      nat (header_size res) + sum_list (map (\<lambda>kv. length (fst kv) + 4) (res_headers res))"
    unfolding split length_standard_headers assms(1) by simp
  have u: "unat (of_nat (length buf) :: size_t) = length buf"
    using assms(5) by (intro unat_of_nat_64) (simp add: INT_MAX_def)
  have "256 \<le> length buf" using assms(3) by simp
  from build_headers_general [OF u this assms(4,5,2)] len assms(3,6) show ?thesis by linarith
qed

definition sample_headers :: response_object where
  "sample_headers = (new_response 0)\<lparr>header_size := 1, res_headers := [(replicate 200 88, [49])]\<rparr>"

theorem build_headers_overflow_witness:
  "ResponseObject_build_headers (Some (replicate 257 0)) 257 sample_headers = Inl OutOfBounds"
  using build_headers_overflow [of sample_headers "replicate 257 0"]
  by (simp add: sample_headers_def new_response_def header_text_def length_standard_headers
      length_header_line dec_digits.simps INT_MAX_def)

end
