(* ===== verification/Path_Util.thy ===== *)
theory Path_Util
  imports Base64
begin

text \<open>
  File helpers of \<^verbatim>\<open>src/util.cc\<close>: \<^verbatim>\<open>read_file\<close>, \<^verbatim>\<open>get_file_extension\<close> and
  \<^verbatim>\<open>get_content_type\<close>. A C string is the list of its bytes before the NUL; \<open>None\<close> is a null
  pointer. A pointer into a string is its offset.
\<close>

section \<open>C strings\<close>

definition strncmp_eq :: "byte list \<Rightarrow> byte list \<Rightarrow> nat \<Rightarrow> bool" where
  "strncmp_eq s t n \<longleftrightarrow> take n s = take n t"

fun strrchr_from :: "nat \<Rightarrow> byte list \<Rightarrow> byte \<Rightarrow> nat option" where
  "strrchr_from i [] c = None"
| "strrchr_from i (x # xs) c =
     (case strrchr_from (Suc i) xs c of Some j \<Rightarrow> Some j
      | None \<Rightarrow> if x = c then Some i else None)"

definition strrchr :: "byte list \<Rightarrow> byte \<Rightarrow> nat option" where
  "strrchr s c = strrchr_from 0 s c"

text \<open>\<^verbatim>\<open>slash > backslash ? slash : backslash\<close>, where a null pointer is below every other.\<close>

definition later_ptr :: "nat option \<Rightarrow> nat option \<Rightarrow> nat option" where
  "later_ptr a b =
     (case a of None \<Rightarrow> b
      | Some i \<Rightarrow> (case b of None \<Rightarrow> a | Some j \<Rightarrow> if i > j then a else b))"

section \<open>File names\<close>

definition get_file_extension :: "byte list option \<Rightarrow> byte list option" where
  "get_file_extension filename =
     (case filename of None \<Rightarrow> None
      | Some f \<Rightarrow>
          (let dot = strrchr f 46; slash = strrchr f 47; backslash = strrchr f 92;
               last_sep = later_ptr slash backslash
           in case dot of None \<Rightarrow> None
              | Some d \<Rightarrow>
                  if (case last_sep of None \<Rightarrow> False | Some s \<Rightarrow> d < s) \<or> d = 0 then None
                  else Some (drop (d + 1) f)))"

definition get_content_type :: "byte list option \<Rightarrow> byte list res" where
  "get_content_type ext =
     (case ext of None \<Rightarrow> Inl NullDeref
      | Some e \<Rightarrow>
          if strncmp_eq e (ascii ''js'') 2 then Inr (ascii ''text/javascript'')
          else if strncmp_eq e (ascii ''html'') 4 then Inr (ascii ''text/html'')
          else if strncmp_eq e (ascii ''ico'') 3 then Inr (ascii ''image/vnd.microsoft.icon'')
          else if strncmp_eq e (ascii ''css'') 3 then Inr (ascii ''text/css'')
          else Inr (ascii ''text/plaintext''))"

section \<open>Reading a file\<close>

text \<open>
  An open file: what \<^verbatim>\<open>ftell\<close> reports at its end (\<open>-1\<close> for one that cannot seek) and the
  bytes \<^verbatim>\<open>fread\<close> finds. \<open>garbage\<close> is what \<^verbatim>\<open>malloc\<close> returned, \<open>None\<close> if it failed.
\<close>

record c_file =
  ftell_end :: int
  contents :: "byte list"

definition read_file ::
    "c_file option \<Rightarrow> (nat \<Rightarrow> byte list option) \<Rightarrow> (byte list \<times> size_t) option res" where
  "read_file f malloc =
     (case f of None \<Rightarrow> Inr None
      | Some file \<Rightarrow>
          (let len = (of_int (ftell_end file) :: size_t)
           in case malloc (unat (len + 1)) of None \<Rightarrow> Inr None
              | Some garbage \<Rightarrow>
                  (let got = take (unat len) (contents file);
                       buf = got @ drop (length got) garbage
                   in if length garbage < length got \<or> length buf \<le> unat len then Inl OutOfBounds
                      else Inr (Some (buf[unat len := 0], len)))))"

section \<open>Lemmas\<close>

lemma strrchr_from_shift:
  "strrchr_from i s c = (case strrchr s c of None \<Rightarrow> None | Some j \<Rightarrow> Some (i + j))"
proof (induction s arbitrary: i)
  case Nil
  then show ?case by (simp add: strrchr_def)
next
  case (Cons x s)
  from Cons [of "Suc i"] Cons [of "Suc 0"] show ?case
    by (simp add: strrchr_def split: option.splits)
qed

lemma strrchr_simps [simp]:
  "strrchr [] c = None"
  "strrchr (x # xs) c = (case strrchr xs c of Some j \<Rightarrow> Some (Suc j) | None \<Rightarrow> if x = c then Some 0 else None)"
  using strrchr_from_shift [of 1 xs c] by (auto simp: strrchr_def split: option.splits)

lemma strrchr_None: "strrchr s c = None \<longleftrightarrow> c \<notin> set s"
  by (induction s) (auto split: option.splits)

lemma strrchr_Some: "strrchr s c = Some i \<longleftrightarrow> i < length s \<and> s ! i = c \<and> c \<notin> set (drop (Suc i) s)"
proof (induction s arbitrary: i)
  case (Cons x s)
  show ?case
  proof (cases i)
    case 0
    then show ?thesis by (auto simp: strrchr_None [symmetric] split: option.splits)
  next
    case (Suc j)
    then show ?thesis using Cons [of j] by (auto simp: strrchr_None split: option.splits)
  qed
qed simp

lemma strrchr_split:
  assumes "c \<notin> set t"
  shows "strrchr (s @ c # t) c = Some (length s)"
  using assms by (simp add: strrchr_Some)

lemma strrchr_less:
  assumes "strrchr s c = Some i" "strrchr s d = Some j" "i \<noteq> j"
  shows "i < j \<longleftrightarrow> d \<in> set (drop (Suc i) s)"
proof -
  from assms have j: "j < length s" "s ! j = d" "d \<notin> set (drop (Suc j) s)" by (simp_all add: strrchr_Some)
  show ?thesis
  proof
    assume "i < j"
    then have "s ! j \<in> set (drop (Suc i) s)" using j(1) by (auto simp: in_set_conv_nth intro!: exI [of _ "j - Suc i"])
    then show "d \<in> set (drop (Suc i) s)" using j(2) by simp
  next
    assume "d \<in> set (drop (Suc i) s)"
    then have "\<not> Suc j \<le> Suc i" using j(3) set_drop_subset_set_drop [of "Suc j" "Suc i" s] by blast
    then show "i < j" using assms(3) by simp
  qed
qed

lemma later_ptr_ge: "a = Some j \<or> b = Some j \<Longrightarrow> \<exists>s. later_ptr a b = Some s \<and> j \<le> s"
  by (auto simp: later_ptr_def split: option.splits)

lemma get_file_extension_iff:
  "get_file_extension (Some f) = Some e \<longleftrightarrow>
   (\<exists>p. f = p @ 46 # e \<and> p \<noteq> [] \<and> 46 \<notin> set e \<and> 47 \<notin> set e \<and> 92 \<notin> set e)"
  (is "?l \<longleftrightarrow> ?r")
proof
  assume ?l
  then obtain d where d: "strrchr f 46 = Some d" "d \<noteq> 0" "e = drop (Suc d) f"
    and s: "\<And>s. later_ptr (strrchr f 47) (strrchr f 92) = Some s \<Longrightarrow> \<not> d < s"
    by (auto simp: get_file_extension_def Let_def split: option.splits if_splits)
  from d(1) have f: "d < length f" "f ! d = 46" "46 \<notin> set (drop (Suc d) f)" by (simp_all add: strrchr_Some)
  have no: "c \<notin> set (drop (Suc d) f)" if c: "c = 47 \<or> c = 92" for c
  proof
    assume in_rest: "c \<in> set (drop (Suc d) f)"
    then obtain j where j: "strrchr f c = Some j" using strrchr_None [of f c] by (auto dest: in_set_dropD)
    then have "d \<noteq> j" using f(2) c by (auto simp: strrchr_Some)
    with strrchr_less [OF d(1) j] in_rest have "d < j" by simp
    moreover obtain s' where "later_ptr (strrchr f 47) (strrchr f 92) = Some s'" "j \<le> s'"
      using later_ptr_ge [of "strrchr f 47" j "strrchr f 92"] c j by blast
    ultimately show False using s by force
  qed
  have "f = take d f @ 46 # e" using id_take_nth_drop [OF f(1)] f(2) d(3) by simp
  with no [of 47] no [of 92] f(3) d show ?r by (intro exI [of _ "take d f"]) auto
next
  assume ?r
  then obtain p where p: "f = p @ 46 # e" "p \<noteq> []" "46 \<notin> set e" "47 \<notin> set e" "92 \<notin> set e" by blast
  have d: "strrchr f 46 = Some (length p)" using p by (simp add: strrchr_split)
  have "\<not> length p < s" if "strrchr f 47 = Some s \<or> strrchr f 92 = Some s" for s
  proof
    assume lt: "length p < s"
    from that obtain c where c: "c = 47 \<or> c = 92" "strrchr f c = Some s" by blast
    with strrchr_less [OF d c(2)] lt have "c \<in> set (drop (Suc (length p)) f)" by simp
    then show False using p c(1) by auto
  qed
  then show ?l using d p(1,2)
    by (auto simp: get_file_extension_def Let_def later_ptr_def split: option.splits if_splits)
qed

section \<open>Properties\<close>

text \<open>
  C22. The extension of a file name is what follows its last dot, provided no path separator
  follows that dot and something precedes it; in all other cases there is none.
\<close>

theorem file_extension_spec:
  "get_file_extension (Some f) = Some e \<longleftrightarrow>
   (\<exists>p. f = p @ 46 # e \<and> p \<noteq> [] \<and> 46 \<notin> set e \<and> 47 \<notin> set e \<and> 92 \<notin> set e)"
  by (rule get_file_extension_iff)

text \<open>
  C23. The content type of a static file is computed from its extension by a prefix test, and a
  file without an extension makes the computation dereference a null pointer.
\<close>

theorem content_type_spec:
  "(get_content_type (get_file_extension (Some f)) = Inl NullDeref \<longleftrightarrow>
      \<not> (\<exists>p e. f = p @ 46 # e \<and> p \<noteq> [] \<and> 46 \<notin> set e \<and> 47 \<notin> set e \<and> 92 \<notin> set e)) \<and>
   (get_content_type (get_file_extension (Some f)) = Inr (ascii ''text/javascript'') \<longleftrightarrow>
      (\<exists>p e. f = p @ 46 # 106 # 115 # e \<and> p \<noteq> [] \<and> 46 \<notin> set e \<and> 47 \<notin> set e \<and> 92 \<notin> set e))"
proof -
  have js: "strncmp_eq e (ascii ''js'') 2 \<longleftrightarrow> (\<exists>e'. e = 106 # 115 # e')" for e
    by (cases e; cases "tl e") (auto simp: strncmp_eq_def ascii_def numeral_2_eq_2)
  have ct: "get_content_type x = Inr (ascii ''text/javascript'') \<longleftrightarrow> (\<exists>e. x = Some (106 # 115 # e))" for x
    by (cases x) (auto simp: get_content_type_def js, auto simp: ascii_def)
  have ne: "get_content_type x = Inl NullDeref \<longleftrightarrow> x = None" for x
    by (cases x) (auto simp: get_content_type_def)
  have "get_file_extension (Some f) = None \<longleftrightarrow> \<not> (\<exists>e. get_file_extension (Some f) = Some e)" by auto
  then show ?thesis unfolding ct ne by (simp add: get_file_extension_iff) blast
qed

text \<open>
  C24. Reading a file. A regular file is returned whole with a NUL behind it and its length; a file
  that cannot seek makes the terminating store fall outside the allocation, whatever is in it.
\<close>

theorem read_file_spec:
  assumes "malloc (unat (of_int (ftell_end file) + 1 :: size_t)) = Some garbage"
    and "length garbage = unat (of_int (ftell_end file) + 1 :: size_t)"
  shows "(ftell_end file = int (length (contents file)) \<and> length (contents file) < 2 ^ 63 \<longrightarrow>
      read_file (Some file) malloc = Inr (Some (contents file @ [0], of_nat (length (contents file))))) \<and>
    (ftell_end file = -1 \<longrightarrow> read_file (Some file) malloc = Inl OutOfBounds)"
proof (intro conjI impI)
  assume a: "ftell_end file = int (length (contents file)) \<and> length (contents file) < 2 ^ 63"
  then have u: "unat (of_nat (length (contents file)) :: size_t) = length (contents file)"
    by (intro unat_of_nat_64) simp
  have "unat (of_nat (length (contents file)) + 1 :: size_t) = Suc (length (contents file))"
    using a u by (subst unat_add_one_64) simp_all
  then have g: "length garbage = Suc (length (contents file))" using assms(2) a by simp
  then have "length (drop (length (contents file)) garbage) = Suc 0" by simp
  then obtain x where "drop (length (contents file)) garbage = [x]"
    by (cases "drop (length (contents file)) garbage") simp_all
  with a u g assms(1) show "read_file (Some file) malloc = Inr (Some (contents file @ [0], of_nat (length (contents file))))"
    by (simp add: read_file_def Let_def list_update_append)
next
  assume a: "ftell_end file = -1"
  then have "garbage = []" using assms(2) by simp
  with a assms(1) show "read_file (Some file) malloc = Inl OutOfBounds"
    by (simp add: read_file_def Let_def)
qed

theorem read_file_spec_witness:
  "read_file (Some \<lparr>ftell_end = 2, contents = [104, 105]\<rparr>) (\<lambda>k. Some (replicate k 7)) = Inr (Some ([104, 105, 0], 2))"
  using read_file_spec [of "\<lambda>k. Some (replicate k 7)" "\<lparr>ftell_end = 2, contents = [104, 105]\<rparr>" "replicate 3 7"] by simp

end
