(* ===== verification/Ws_Upgrade.thy ===== *)
theory Ws_Upgrade
  imports Ws_Frame Base64 Http_Parser
begin

text \<open>
  Recognition of a WebSocket upgrade request: \<^verbatim>\<open>parseWSUpgrade\<close> of \<^verbatim>\<open>src/server.cc\<close>, with the
  C library functions \<^verbatim>\<open>strncasecmp\<close> and \<^verbatim>\<open>strcasestr\<close> it uses (in the C locale).
\<close>

section \<open>Case-insensitive comparison\<close>

definition tolower :: "byte \<Rightarrow> byte" where
  "tolower c = (if 65 \<le> c \<and> c \<le> 90 then c + 32 else c)"

fun strncasecmp_eq :: "byte list \<Rightarrow> byte list \<Rightarrow> nat \<Rightarrow> bool" where
  "strncasecmp_eq s t 0 = True"
| "strncasecmp_eq [] [] (Suc n) = True"
| "strncasecmp_eq [] (y # t) (Suc n) = False"
| "strncasecmp_eq (x # s) [] (Suc n) = False"
| "strncasecmp_eq (x # s) (y # t) (Suc n) = (tolower x = tolower y \<and> strncasecmp_eq s t n)"

fun strcasestr :: "byte list \<Rightarrow> byte list \<Rightarrow> byte list option" where
  "strcasestr hay needle =
     (if strncasecmp_eq hay needle (length needle) then Some hay
      else case hay of [] \<Rightarrow> None | _ # hay' \<Rightarrow> strcasestr hay' needle)"

declare strcasestr.simps [simp del]

section \<open>\<^verbatim>\<open>parseWSUpgrade\<close>\<close>

record ws_upgrade_info =
  isUpgrade :: bool
  ws_key :: "byte list"
  version :: "byte list"
  protocol :: "byte list"

record upgrade_scan =
  hasUpgrade :: bool
  hasConnection :: bool
  info :: ws_upgrade_info

definition header_is :: "byte list \<Rightarrow> string \<Rightarrow> bool" where
  "header_is name lit \<longleftrightarrow>
     length name = length lit \<and> strncasecmp_eq (c_str name) (ascii lit) (length lit)"

definition scan_header :: "phr_header \<Rightarrow> upgrade_scan \<Rightarrow> upgrade_scan" where
  "scan_header h s =
     (let name = (case hname h of None \<Rightarrow> [] | Some n \<Rightarrow> n); value = hvalue h
      in if header_is name ''Upgrade'' then
           s\<lparr>hasUpgrade := strncasecmp_eq (c_str value) (ascii ''websocket'') 9\<rparr>
         else if header_is name ''Connection'' then
           s\<lparr>hasConnection := (strcasestr (c_str value) (ascii ''upgrade'') \<noteq> None)\<rparr>
         else if header_is name ''Sec-WebSocket-Key'' then s\<lparr>info := (info s)\<lparr>ws_key := value\<rparr>\<rparr>
         else if header_is name ''Sec-WebSocket-Version'' then s\<lparr>info := (info s)\<lparr>version := value\<rparr>\<rparr>
         else if header_is name ''Sec-WebSocket-Protocol'' then s\<lparr>info := (info s)\<lparr>protocol := value\<rparr>\<rparr>
         else s)"

definition parseWSUpgrade :: "phr_header list \<Rightarrow> ws_upgrade_info" where
  "parseWSUpgrade hs =
     (let s = fold scan_header hs
          \<lparr>hasUpgrade = False, hasConnection = False,
           info = \<lparr>isUpgrade = False, ws_key = [], version = [], protocol = []\<rparr>\<rparr>
      in (info s)\<lparr>isUpgrade := hasUpgrade s \<and> hasConnection s \<and> ws_key (info s) \<noteq> []\<rparr>)"

section \<open>Lemmas\<close>

lemma strncasecmp_prefix:
  "strncasecmp_eq s t (length t) \<longleftrightarrow> map tolower (take (length t) s) = map tolower t"
  by (induction t arbitrary: s; case_tac s) auto

lemma strcasestr_iff:
  "strcasestr hay needle \<noteq> None \<longleftrightarrow>
   (\<exists>a b c. hay = a @ b @ c \<and> map tolower b = map tolower needle)"
proof (induction hay needle rule: strcasestr.induct)
  case (1 hay needle)
  show ?case
  proof (cases "strncasecmp_eq hay needle (length needle)")
    case True
    then have "hay = [] @ take (length needle) hay @ drop (length needle) hay \<and>
        map tolower (take (length needle) hay) = map tolower needle"
      by (simp add: strncasecmp_prefix)
    then have "\<exists>a b c. hay = a @ b @ c \<and> map tolower b = map tolower needle" by blast
    with True show ?thesis by (simp add: strcasestr.simps)
  next
    case no: False
    have start: "\<not> (\<exists>b c. hay = b @ c \<and> map tolower b = map tolower needle)"
    proof
      assume "\<exists>b c. hay = b @ c \<and> map tolower b = map tolower needle"
      then obtain b c where b: "hay = b @ c" "map tolower b = map tolower needle" by blast
      from b(2) have "length b = length needle" by (rule map_eq_imp_length_eq)
      with b no show False by (simp add: strncasecmp_prefix)
    qed
    show ?thesis
    proof (cases hay)
      case Nil
      with no start show ?thesis by (simp add: strcasestr.simps)
    next
      case (Cons x hay')
      have "(\<exists>a b c. hay = a @ b @ c \<and> map tolower b = map tolower needle) \<longleftrightarrow>
          (\<exists>a b c. hay' = a @ b @ c \<and> map tolower b = map tolower needle)"
      proof
        assume "\<exists>a b c. hay = a @ b @ c \<and> map tolower b = map tolower needle"
        then obtain a b c where a: "hay = a @ b @ c" "map tolower b = map tolower needle" by blast
        with start obtain a' where "a = x # a'" using Cons by (cases a) auto
        with a Cons show "\<exists>a b c. hay' = a @ b @ c \<and> map tolower b = map tolower needle" by auto
      qed (use Cons in \<open>metis append_Cons\<close>)
      moreover have "strcasestr hay needle = strcasestr hay' needle"
        using no Cons by (subst strcasestr.simps) simp
      ultimately show ?thesis using 1 [OF no Cons] by simp
    qed
  qed
qed

lemma header_is_ci:
  assumes "0 \<notin> set name"
  shows "header_is name lit \<longleftrightarrow> map tolower name = map tolower (ascii lit)"
proof -
  have "c_str name = name" using assms by (auto simp: c_str_def takeWhile_eq_all_conv)
  moreover have "length name = length lit" if "map tolower name = map tolower (ascii lit)"
    using map_eq_imp_length_eq [OF that] by (simp add: ascii_def)
  ultimately show ?thesis using strncasecmp_prefix [of name "ascii lit"]
    by (auto simp: header_is_def ascii_def)
qed


section \<open>What the headers say\<close>

text \<open>
  The value of a header field, the last one if it is repeated; field names are compared without
  regard to case. A continuation line belongs to no field.
\<close>

definition field_name :: "phr_header \<Rightarrow> byte list" where
  "field_name h = (case hname h of None \<Rightarrow> [] | Some n \<Rightarrow> n)"

definition header_value :: "string \<Rightarrow> phr_header list \<Rightarrow> byte list option" where
  "header_value lit hs =
     map_option hvalue (find (\<lambda>h. map tolower (field_name h) = map tolower (ascii lit)) (rev hs))"

lemma header_value_snoc:
  "header_value lit (hs @ [h]) =
     (if map tolower (field_name h) = map tolower (ascii lit) then Some (hvalue h) else header_value lit hs)"
  by (simp add: header_value_def)

lemma header_value_Nil [simp]: "header_value lit [] = None"
  by (simp add: header_value_def)

definition websocket_value :: "byte list \<Rightarrow> bool" where
  "websocket_value v \<longleftrightarrow> map tolower (take 9 v) = ascii ''websocket''"

definition mentions_upgrade :: "byte list \<Rightarrow> bool" where
  "mentions_upgrade v \<longleftrightarrow> (\<exists>a b c. v = a @ b @ c \<and> map tolower b = ascii ''upgrade'')"

definition value_or :: "byte list \<Rightarrow> byte list option \<Rightarrow> byte list" where
  "value_or d v = (case v of None \<Rightarrow> d | Some x \<Rightarrow> x)"

lemma value_or_simps [simp]: "value_or d None = d" "value_or d (Some x) = x"
  by (simp_all add: value_or_def)

lemma wf_header_no_nul:
  assumes "wf_header h" shows "0 \<notin> set (field_name h)" "0 \<notin> set (hvalue h)"
proof -
  have "\<not> is_token_char 0" "is_ctl 0" by (simp_all add: is_token_char_iff is_ctl_iff)
  with assms show "0 \<notin> set (field_name h)" "0 \<notin> set (hvalue h)"
    by (auto simp: wf_header_def field_name_def split: option.splits)
qed

lemma tolower_websocket: "map tolower (ascii ''websocket'') = ascii ''websocket''"
  "map tolower (ascii ''upgrade'') = ascii ''upgrade''"
  by (simp_all add: ascii_def tolower_def)

lemma scan_header_eq:
  assumes "wf_header h"
  shows "scan_header h s =
     (let is = (\<lambda>lit. map tolower (field_name h) = map tolower (ascii lit))
      in if is ''Upgrade'' then s\<lparr>hasUpgrade := websocket_value (hvalue h)\<rparr>
         else if is ''Connection'' then s\<lparr>hasConnection := mentions_upgrade (hvalue h)\<rparr>
         else if is ''Sec-WebSocket-Key'' then s\<lparr>info := (info s)\<lparr>ws_key := hvalue h\<rparr>\<rparr>
         else if is ''Sec-WebSocket-Version'' then s\<lparr>info := (info s)\<lparr>version := hvalue h\<rparr>\<rparr>
         else if is ''Sec-WebSocket-Protocol'' then s\<lparr>info := (info s)\<lparr>protocol := hvalue h\<rparr>\<rparr>
         else s)"
proof -
  have c: "c_str (hvalue h) = hvalue h"
    using wf_header_no_nul [OF assms] by (auto simp: c_str_def takeWhile_eq_all_conv)
  have w: "strncasecmp_eq (hvalue h) (ascii ''websocket'') 9 = websocket_value (hvalue h)"
  proof -
    have l: "length (ascii ''websocket'') = 9" by (simp add: ascii_def)
    show ?thesis
      using strncasecmp_prefix [of "hvalue h" "ascii ''websocket''", unfolded l tolower_websocket]
      by (simp only: websocket_value_def)
  qed
  have u: "(strcasestr (hvalue h) (ascii ''upgrade'') \<noteq> None) = mentions_upgrade (hvalue h)"
    by (simp only: strcasestr_iff mentions_upgrade_def tolower_websocket)
  show ?thesis
    unfolding scan_header_def Let_def field_name_def [symmetric] header_is_ci [OF wf_header_no_nul(1) [OF assms]] c w u ..
qed

lemma lit_lengths:
  assumes "map tolower n = map tolower (ascii a)" "map tolower n = map tolower (ascii b)"
  shows "length a = length b"
  using map_eq_imp_length_eq [OF trans [OF assms(1) [symmetric] assms(2)]] by (simp add: ascii_def)

lemma scan_headers_eq:
  assumes "\<forall>h \<in> set hs. wf_header h"
  shows "fold scan_header hs \<lparr>hasUpgrade = False, hasConnection = False,
           info = \<lparr>isUpgrade = False, ws_key = [], version = [], protocol = []\<rparr>\<rparr> =
     \<lparr>hasUpgrade = (\<exists>v. header_value ''Upgrade'' hs = Some v \<and> websocket_value v),
      hasConnection = (\<exists>v. header_value ''Connection'' hs = Some v \<and> mentions_upgrade v),
      info = \<lparr>isUpgrade = False, ws_key = value_or [] (header_value ''Sec-WebSocket-Key'' hs),
        version = value_or [] (header_value ''Sec-WebSocket-Version'' hs),
        protocol = value_or [] (header_value ''Sec-WebSocket-Protocol'' hs)\<rparr>\<rparr>"
  using assms
proof (induction hs rule: rev_induct)
  case (snoc h hs)
  define P where "P = (\<lambda>lit. map tolower (field_name h) = map tolower (ascii lit))"
  have d: "\<not> (P a \<and> P b)" if "length a \<noteq> length b" for a b
    using lit_lengths [of "field_name h" a b] that by (auto simp: P_def)
  have ex: "\<not> (P ''Upgrade'' \<and> P ''Connection'')" "\<not> (P ''Upgrade'' \<and> P ''Sec-WebSocket-Key'')"
    "\<not> (P ''Upgrade'' \<and> P ''Sec-WebSocket-Version'')" "\<not> (P ''Upgrade'' \<and> P ''Sec-WebSocket-Protocol'')"
    "\<not> (P ''Connection'' \<and> P ''Sec-WebSocket-Key'')" "\<not> (P ''Connection'' \<and> P ''Sec-WebSocket-Version'')"
    "\<not> (P ''Connection'' \<and> P ''Sec-WebSocket-Protocol'')"
    "\<not> (P ''Sec-WebSocket-Key'' \<and> P ''Sec-WebSocket-Version'')"
    "\<not> (P ''Sec-WebSocket-Key'' \<and> P ''Sec-WebSocket-Protocol'')"
    "\<not> (P ''Sec-WebSocket-Version'' \<and> P ''Sec-WebSocket-Protocol'')"
    by (intro d, simp)+
  have hv: "header_value lit (hs @ [h]) = (if P lit then Some (hvalue h) else header_value lit hs)" for lit
    by (simp add: header_value_snoc P_def)
  from snoc.prems have wf: "wf_header h" and IH: "\<forall>h \<in> set hs. wf_header h" by simp_all
  show ?case
    unfolding fold_append snoc.IH [OF IH] comp_def fold_simps scan_header_eq [OF wf] Let_def hv P_def [symmetric]
    using ex by (cases "P ''Upgrade''"; cases "P ''Connection''"; cases "P ''Sec-WebSocket-Key''";
        cases "P ''Sec-WebSocket-Version''"; cases "P ''Sec-WebSocket-Protocol''") simp_all
qed simp

section \<open>Properties\<close>

text \<open>
  C25. A parsed request is taken as a WebSocket upgrade exactly if its (last) Upgrade field starts
  with \<^verbatim>\<open>websocket\<close>, its Connection field mentions \<^verbatim>\<open>upgrade\<close>, both in any case, and its
  Sec-WebSocket-Key field is not empty; key, version and protocol are the values of their fields.
\<close>

theorem parseWSUpgrade_spec:
  assumes "wf_request mx q"
  shows "parseWSUpgrade (headers q) =
    \<lparr>isUpgrade =
       ((\<exists>v. header_value ''Upgrade'' (headers q) = Some v \<and> websocket_value v) \<and>
        (\<exists>v. header_value ''Connection'' (headers q) = Some v \<and> mentions_upgrade v) \<and>
        value_or [] (header_value ''Sec-WebSocket-Key'' (headers q)) \<noteq> []),
     ws_key = value_or [] (header_value ''Sec-WebSocket-Key'' (headers q)),
     version = value_or [] (header_value ''Sec-WebSocket-Version'' (headers q)),
     protocol = value_or [] (header_value ''Sec-WebSocket-Protocol'' (headers q))\<rparr>"
  using scan_headers_eq [of "headers q"] assms by (simp add: parseWSUpgrade_def Let_def wf_request_def)


definition sample_upgrade :: phr_request where
  "sample_upgrade = \<lparr>req_method = ascii ''GET'', path = ascii ''/'', minor_version = 1,
     headers = [\<lparr>hname = Some (ascii ''upgrade''), hvalue = ascii ''WebSocket''\<rparr>,
       \<lparr>hname = Some (ascii ''CONNECTION''), hvalue = ascii ''Upgrade''\<rparr>,
       \<lparr>hname = Some (ascii ''Sec-WebSocket-Key''), hvalue = ascii ''x''\<rparr>]\<rparr>"

lemma sample_upgrade_wf: "wf_request 100 sample_upgrade"
  by (simp add: sample_upgrade_def wf_request_def wf_header_def ascii_def is_token_char_iff is_ctl_iff
      bad_path_char_def)

theorem parseWSUpgrade_spec_witness:
  "isUpgrade (parseWSUpgrade (headers sample_upgrade)) \<and>
   ws_key (parseWSUpgrade (headers sample_upgrade)) = ascii ''x''"
proof -
  have m: "mentions_upgrade (ascii ''Upgrade'')"
    unfolding mentions_upgrade_def
    by (rule exI [of _ "[]"], rule exI [of _ "ascii ''Upgrade''"], rule exI [of _ "[]"]) (simp add: ascii_def tolower_def)
  have "header_value ''Upgrade'' (headers sample_upgrade) = Some (ascii ''WebSocket'')"
    "header_value ''Connection'' (headers sample_upgrade) = Some (ascii ''Upgrade'')"
    "header_value ''Sec-WebSocket-Key'' (headers sample_upgrade) = Some (ascii ''x'')"
    "websocket_value (ascii ''WebSocket'')"
    by (simp_all add: header_value_def sample_upgrade_def field_name_def ascii_def tolower_def websocket_value_def)
  then show ?thesis
    using m by (simp add: parseWSUpgrade_spec [OF sample_upgrade_wf]) (simp add: ascii_def)
qed

end
