(* ===== verification/Server.thy ===== *)
theory Server
  imports Client_State Http_Parser Http_Message Path_Util Ws_Upgrade
begin

text \<open>
  The HTTP and WebSocket server: \<^verbatim>\<open>src/server.cc\<close>, the operations of
  \<^verbatim>\<open>src/http_message.cc\<close> and \<^verbatim>\<open>src/ws.cc\<close> that touch a connection, the route table of
  \<^verbatim>\<open>src/http_context.cc\<close>, and the JavaScript methods \<^verbatim>\<open>res.end\<close>, \<^verbatim>\<open>res.setHeader\<close>,
  \<^verbatim>\<open>req.uri\<close> and \<^verbatim>\<open>ws.send\<close> of \<^verbatim>\<open>src/builtins/\<close>.

  The state is the record \<open>world\<close>: the pools, the objects allocated with \<^verbatim>\<open>new\<close> and
  \<^verbatim>\<open>malloc\<close> (maps from addresses; deleting removes the entry, and using an address without an
  entry is \<open>UseAfterFree\<close>), the route table and the calls made into JavaScript. A connection is
  named by its slot in the client pool, which is also its socket, its idle timer and its write
  request, since they are embedded in it.

  JavaScript callbacks are numbers. Calling a route callback appends an event to the trace; what
  the callback does with the response happens through later calls of \<open>response_end\<close> and
  \<open>response_set_header\<close>, since the server does nothing after the call. What the setup callback
  of a WebSocket route does before the handshake is the argument \<open>js\<close>. The results of the
  kernel's \<^verbatim>\<open>write\<close> calls are the field \<open>kern\<close>, one list per call of \<^verbatim>\<open>uv_write\<close>.
\<close>

section \<open>State\<close>

datatype handler = JsHandler nat | StaticHandler "byte list"

record mapped_file =
  mf_data :: "byte list option"
  mf_size :: size_t

record http_context =
  registerd_cb :: "nat list"
  static_files :: "byte list \<Rightarrow> mapped_file option"
  routes :: "byte list \<times> byte list \<Rightarrow> handler option"
  ws_routes :: "byte list \<Rightarrow> nat option"

datatype js_call =
    CallRoute nat nat nat
  | CallWsSetup nat nat
  | CallWs nat ws_event

record world =
  sp :: server_pool
  requests :: "nat \<Rightarrow> request_object option"
  responses :: "nat \<Rightarrow> response_object option"
  websockets :: "nat \<Rightarrow> web_socket option"
  mallocs :: "nat \<Rightarrow> byte list option"
  next_addr :: nat
  http_ctx :: http_context
  temp_sockets :: nat
  kern :: "nat \<Rightarrow> kwrite list"
  kern_pos :: nat
  trace :: "js_call list"

text \<open>What the setup callback of a WebSocket route does: which handlers it installs and which messages it sends.\<close>

type_synonym js_setup = "nat \<Rightarrow> sock_js \<times> byte list list"

section \<open>Access to connections and objects\<close>

definition get_client :: "world \<Rightarrow> nat \<Rightarrow> client_state res" where
  "get_client w c = MemPool_get (clients (sp w)) c"

definition put_client :: "world \<Rightarrow> nat \<Rightarrow> client_state \<Rightarrow> world res" where
  "put_client w c cl = res_bind (MemPool_set (clients (sp w)) c cl) (\<lambda>p. Inr (w\<lparr>sp := (sp w)\<lparr>clients := p\<rparr>\<rparr>))"

definition upd_client :: "world \<Rightarrow> nat \<Rightarrow> (client_state \<Rightarrow> client_state) \<Rightarrow> world res" where
  "upd_client w c f = res_bind (get_client w c) (\<lambda>cl. put_client w c (f cl))"

definition upd_socket :: "world \<Rightarrow> nat \<Rightarrow> (tcp_stream \<Rightarrow> tcp_stream) \<Rightarrow> world res" where
  "upd_socket w c f = upd_client w c (\<lambda>cl. cl\<lparr>socket := f (socket cl)\<rparr>)"

definition lookup :: "('a \<Rightarrow> 'b option) \<Rightarrow> 'a \<Rightarrow> 'b res" where
  "lookup m k = (case m k of None \<Rightarrow> Inl UseAfterFree | Some v \<Rightarrow> Inr v)"

definition delete_request :: "world \<Rightarrow> nat \<Rightarrow> world res" where
  "delete_request w q = res_bind (lookup (requests w) q) (\<lambda>_. Inr (w\<lparr>requests := (requests w)(q := None)\<rparr>))"

definition delete_response :: "world \<Rightarrow> nat \<Rightarrow> world res" where
  "delete_response w r = res_bind (lookup (responses w) r) (\<lambda>_. Inr (w\<lparr>responses := (responses w)(r := None)\<rparr>))"

definition free_mem :: "world \<Rightarrow> nat option \<Rightarrow> world res" where
  "free_mem w a = (case a of None \<Rightarrow> Inr w
     | Some i \<Rightarrow> res_bind (lookup (mallocs w) i) (\<lambda>_. Inr (w\<lparr>mallocs := (mallocs w)(i := None)\<rparr>)))"

definition malloc_copy :: "world \<Rightarrow> byte list \<Rightarrow> nat \<times> world" where
  "malloc_copy w bs = (next_addr w, w\<lparr>mallocs := (mallocs w)(next_addr w \<mapsto> bs), next_addr := Suc (next_addr w)\<rparr>)"

definition get_guard :: "world \<Rightarrow> nat option \<Rightarrow> conn_guard res" where
  "get_guard w g = (case g of None \<Rightarrow> Inl NullDeref | Some i \<Rightarrow> MemPool_get (guards (sp w)) i)"

definition guard_release :: "bool \<Rightarrow> world \<Rightarrow> nat option \<Rightarrow> world res" where
  "guard_release nd w g =
     res_bind (ConnGuard_release nd (guards (sp w)) g) (\<lambda>p. Inr (w\<lparr>sp := (sp w)\<lparr>guards := p\<rparr>\<rparr>))"

definition guard_acquire :: "world \<Rightarrow> nat option \<Rightarrow> world res" where
  "guard_acquire w g =
     res_bind (ConnGuard_acquire (guards (sp w)) g) (\<lambda>p. Inr (w\<lparr>sp := (sp w)\<lparr>guards := p\<rparr>\<rparr>))"

section \<open>libuv calls on a connection\<close>

text \<open>Buffers on the heap must still be allocated when libuv writes from them.\<close>

definition bufs_live :: "world \<Rightarrow> uv_buf list \<Rightarrow> bool" where
  "bufs_live w bufs = list_all (\<lambda>b. case fst b of LHeap i \<Rightarrow> snd b = [] \<or> mallocs w i \<noteq> None | _ \<Rightarrow> True) bufs"

definition queue_live :: "world \<Rightarrow> tcp_stream \<Rightarrow> bool" where
  "queue_live w st = list_all (\<lambda>req. bufs_live w (wr_bufs req)) (write_queue st)"

definition client_write :: "world \<Rightarrow> nat \<Rightarrow> write_cb \<Rightarrow> uv_buf list \<Rightarrow> (int \<times> world) res" where
  "client_write w c cb bufs =
     res_bind (get_client w c) (\<lambda>cl.
       if \<not> (bufs_live w bufs \<and> queue_live w (socket cl)) then Inl UseAfterFree
       else res_bind (uv_write cb bufs (kern w (kern_pos w)) (socket cl)) (\<lambda>(rc, st).
         res_bind (put_client w c (cl\<lparr>socket := st\<rparr>)) (\<lambda>w'. Inr (rc, w'\<lparr>kern_pos := Suc (kern_pos w)\<rparr>))))"

definition return_frame :: "world \<Rightarrow> nat \<Rightarrow> world res" where
  "return_frame w c = upd_socket w c drop_frame"

definition client_close :: "world \<Rightarrow> nat \<Rightarrow> world res" where
  "client_close w c =
     res_bind (get_client w c) (\<lambda>cl. res_bind (uv_close (socket cl)) (\<lambda>st. put_client w c (cl\<lparr>socket := st\<rparr>)))"

definition close_if_open :: "world \<Rightarrow> nat \<Rightarrow> world res" where
  "close_if_open w c =
     res_bind (get_client w c) (\<lambda>cl. if \<not> uv_is_closing (socket cl) then client_close w c else Inr w)"

definition client_read_start :: "world \<Rightarrow> nat \<Rightarrow> world res" where
  "client_read_start w c = upd_socket w c (\<lambda>st. snd (uv_read_start st))"

section \<open>\<^verbatim>\<open>ResponseObject\<close>\<close>

text \<open>\<^verbatim>\<open>guard->release(); delete this->req; delete this;\<close>\<close>

definition drop_response :: "bool \<Rightarrow> world \<Rightarrow> nat \<Rightarrow> response_object \<Rightarrow> world res" where
  "drop_response nd w r res =
     res_bind (guard_release nd w (res_guard res)) (\<lambda>w1.
     res_bind (delete_request w1 (res_req res)) (\<lambda>w2. delete_response w2 r))"

definition header_block :: "response_object \<Rightarrow> byte list res" where
  "header_block res =
     (if int INT_MAX < header_size res + 256 then Inl SignedOverflow
      else
        let header_len = (of_int (header_size res + 256) :: size_t)
        in res_bind (ResponseObject_build_headers (Some (replicate (unat header_len) 0)) header_len res) (\<lambda>(n, buf).
             if n < 0 \<or> int (length buf) < n then Inl OutOfBounds else Inr (take (nat n) buf)))"

definition send_static :: "bool \<Rightarrow> world \<Rightarrow> nat \<Rightarrow> response_object \<Rightarrow> byte list \<Rightarrow> world res" where
  "send_static nd w r res hdr =
     (case response_buffer res of
        BStatic body \<Rightarrow>
          if length body < unat (response_len res) then Inl OutOfBounds
          else res_bind (client_write w (res_cli res) OnStaticWrite
                   [(LStack, hdr), (LStatic, take (unat (response_len res)) body)]) (\<lambda>(rc, w1).
               res_bind (guard_release nd w1 (res_guard res)) (\<lambda>w2. delete_response w2 r))
      | _ \<Rightarrow> Inl Uninitialised)"

definition send_dynamic :: "bool \<Rightarrow> world \<Rightarrow> nat \<Rightarrow> response_object \<Rightarrow> byte list \<Rightarrow> world res" where
  "send_dynamic nd w r res hdr =
     (case response_buffer res of
        BHeap b \<Rightarrow>
          res_bind (lookup (mallocs w) b) (\<lambda>body.
            if length body < unat (response_len res) then Inl OutOfBounds
            else let body' = take (unat (response_len res)) body; (a, w1) = malloc_copy w body'
                 in res_bind (upd_client w1 (res_cli res) (\<lambda>cl. cl\<lparr>pending_write_buffer := Some a\<rparr>)) (\<lambda>w2.
                    res_bind (free_mem w2 (Some b)) (\<lambda>w3.
                    res_bind (client_write w3 (res_cli res) OnWrite [(LStack, hdr), (LHeap a, body')]) (\<lambda>(rc, w4).
                    res_bind (guard_release nd w4 (res_guard res)) (\<lambda>w5. delete_response w5 r)))))
      | _ \<Rightarrow> Inl Uninitialised)"

definition ResponseObject_send :: "bool \<Rightarrow> world \<Rightarrow> nat \<Rightarrow> world res" where
  "ResponseObject_send nd w r =
     res_bind (lookup (responses w) r) (\<lambda>res.
     res_bind (get_guard w (res_guard res)) (\<lambda>g.
       if \<not> alive g then drop_response nd w r res
       else res_bind (get_client w (res_cli res)) (\<lambda>client.
         if closing client then drop_response nd w r res
         else res_bind (header_block res) (\<lambda>hdr.
              res_bind (delete_request w (res_req res)) (\<lambda>w1.
              res_bind (if is_static res then send_static nd w1 r res hdr
                        else send_dynamic nd w1 r (res\<lparr>res_headers := []\<rparr>) hdr) (\<lambda>w2.
                return_frame w2 (res_cli res)))))))"

definition abort_text :: "byte list" where
  "abort_text = ascii ''HTTP/1.1 503 Service Unavailable'' @ CRLF @ ascii ''Connection: close'' @ CRLF @
     ascii ''Content-Length: 0'' @ CRLF @ CRLF"

definition ResponseObject_abort :: "bool \<Rightarrow> world \<Rightarrow> nat \<Rightarrow> world res" where
  "ResponseObject_abort nd w r =
     res_bind (lookup (responses w) r) (\<lambda>res.
     res_bind (get_guard w (res_guard res)) (\<lambda>g.
       let finish = (\<lambda>w. res_bind (guard_release nd w (res_guard res)) (\<lambda>w'. delete_response w' r))
       in if \<not> alive g then finish w
          else res_bind (get_client w (res_cli res)) (\<lambda>client.
            if closing client then finish w
            else res_bind (client_write w (res_cli res) OnAbortWrite [(LStatic, abort_text)]) (\<lambda>(rc, w1).
                 res_bind (if rc < 0 then client_close w1 (res_cli res) else Inr w1) finish))))"

definition not_found_text :: "byte list" where
  "not_found_text = ascii ''HTTP/1.1 404 Not Found'' @ CRLF @ ascii ''Content-Type: text/plain'' @ CRLF @
     ascii ''Content-Length: 9'' @ CRLF @ ascii ''Connection: keep-alive'' @ CRLF @ CRLF @ ascii ''Not Found''"

definition resp_with_404 :: "bool \<Rightarrow> world \<Rightarrow> nat \<Rightarrow> world res" where
  "resp_with_404 nd w r =
     res_bind (lookup (responses w) r) (\<lambda>res.
     res_bind (client_write w (res_cli res) OnStaticWrite [(LStatic, not_found_text)]) (\<lambda>(rc, w1).
     res_bind (guard_release nd w1 (res_guard res)) (\<lambda>w2. delete_response w2 r)))"

section \<open>Write, shutdown and idle callbacks\<close>

definition on_write_cb :: "world \<Rightarrow> nat \<Rightarrow> world res" where
  "on_write_cb w c =
     res_bind (upd_client w c (\<lambda>cl. cl\<lparr>write_in_flight := False\<rparr>)) (\<lambda>w1.
     res_bind (get_client w1 c) (\<lambda>cl.
     res_bind (free_mem w1 (pending_write_buffer cl)) (\<lambda>w2. client_read_start w2 c)))"

definition on_static_write_cb :: "world \<Rightarrow> nat \<Rightarrow> world res" where
  "on_static_write_cb w c =
     res_bind (upd_client w c (\<lambda>cl. cl\<lparr>write_in_flight := False\<rparr>)) (\<lambda>w1. client_read_start w1 c)"

definition on_shutdown_cb :: "world \<Rightarrow> nat \<Rightarrow> world res" where
  "on_shutdown_cb w c =
     res_bind (upd_client w c (\<lambda>cl. cl\<lparr>write_in_flight := False\<rparr>)) (\<lambda>w1. client_read_start w1 c)"

definition on_abort_shutdown_cb :: "world \<Rightarrow> nat \<Rightarrow> world res" where
  "on_abort_shutdown_cb w c = client_close w c"

definition on_abort_write_cb :: "world \<Rightarrow> nat \<Rightarrow> world res" where
  "on_abort_write_cb w c = upd_socket w c (\<lambda>st. snd (uv_shutdown OnAbortShutdown st))"

text \<open>The handshake's and a frame's callback only free their request.\<close>

definition call_write_cb :: "world \<Rightarrow> nat \<Rightarrow> write_cb \<Rightarrow> world res" where
  "call_write_cb w c cb =
     (case cb of OnWrite \<Rightarrow> on_write_cb w c | OnStaticWrite \<Rightarrow> on_static_write_cb w c
      | OnAbortWrite \<Rightarrow> on_abort_write_cb w c | OnHandshakeWrite \<Rightarrow> Inr w | OnFrameWrite \<Rightarrow> Inr w)"

definition call_shutdown_cb :: "world \<Rightarrow> nat \<Rightarrow> shutdown_cb \<Rightarrow> world res" where
  "call_shutdown_cb w c cb =
     (case cb of OnAbortShutdown \<Rightarrow> on_abort_shutdown_cb w c | OnShutdown \<Rightarrow> on_shutdown_cb w c)"

definition on_idle_timeout_cb :: "world \<Rightarrow> nat \<Rightarrow> world res" where
  "on_idle_timeout_cb w c = close_if_open w c"

definition on_idle_timer_closed_cb :: "bool \<Rightarrow> world \<Rightarrow> nat \<Rightarrow> world res" where
  "on_idle_timer_closed_cb nd w c =
     res_bind (release_client nd (sp w) (Some c)) (\<lambda>p. Inr (w\<lparr>sp := p\<rparr>))"

definition on_client_closed_emergency :: "world \<Rightarrow> world res" where
  "on_client_closed_emergency w =
     (if temp_sockets w = 0 then Inl UseAfterFree else Inr (w\<lparr>temp_sockets := temp_sockets w - 1\<rparr>))"

section \<open>Closing a connection\<close>

definition close_ws :: "world \<Rightarrow> nat \<Rightarrow> world res" where
  "close_ws w c =
     res_bind (get_client w c) (\<lambda>cl.
       case activeWs cl of None \<Rightarrow> Inr w
       | Some a \<Rightarrow>
           res_bind (lookup (websockets w) a) (\<lambda>ws.
           res_bind (onClose ws) (\<lambda>evs.
             put_client (w\<lparr>trace := trace w @ map (CallWs a) evs, websockets := (websockets w)(a := None)\<rparr>)
               c (cl\<lparr>activeWs := None\<rparr>))))"

definition close_guard :: "bool \<Rightarrow> world \<Rightarrow> nat \<Rightarrow> world res" where
  "close_guard nd w c =
     res_bind (get_client w c) (\<lambda>cl.
       case guard cl of None \<Rightarrow> Inr w
       | Some g \<Rightarrow>
           res_bind (MemPool_get (guards (sp w)) g) (\<lambda>cg.
           res_bind (MemPool_set (guards (sp w)) g (cg\<lparr>alive := False\<rparr>)) (\<lambda>p.
           res_bind (guard_release nd (w\<lparr>sp := (sp w)\<lparr>guards := p\<rparr>\<rparr>) (Some g)) (\<lambda>w1.
             put_client w1 c (cl\<lparr>guard := None\<rparr>)))))"

definition close_idle_timer :: "world \<Rightarrow> nat \<Rightarrow> world res" where
  "close_idle_timer w c =
     res_bind (get_client w c) (\<lambda>cl.
       if idle_timer cl = HLive then put_client w c (cl\<lparr>idle_timer := HClosing\<rparr>) else Inl AssertFail)"

definition on_client_closed_cb :: "bool \<Rightarrow> world \<Rightarrow> nat \<Rightarrow> world res" where
  "on_client_closed_cb nd w c =
     res_bind (upd_client w c (\<lambda>cl. cl\<lparr>closing := True\<rparr>)) (\<lambda>w1.
     res_bind (clear_buffer nd (sp w1) (Some c)) (\<lambda>p.
     res_bind (close_ws (w1\<lparr>sp := p\<rparr>) c) (\<lambda>w2.
     res_bind (close_guard nd w2 c) (\<lambda>w3. close_idle_timer w3 c))))"


section \<open>WebSocket connections\<close>

definition ws_send_frame :: "world \<Rightarrow> nat \<Rightarrow> byte list \<Rightarrow> world res" where
  "ws_send_frame w a data =
     res_bind (lookup (websockets w) a) (\<lambda>ws.
     res_bind (client_write w (ws_cli ws) OnFrameWrite [(LStack, send_frame data)]) (\<lambda>(rc, w1).
       return_frame w1 (ws_cli ws)))"

fun ws_send_all :: "world \<Rightarrow> nat \<Rightarrow> byte list list \<Rightarrow> world res" where
  "ws_send_all w a [] = Inr w"
| "ws_send_all w a (d # ds) = res_bind (ws_send_frame w a d) (\<lambda>w'. ws_send_all w' a ds)"

definition handshake_text :: "byte list \<Rightarrow> byte list" where
  "handshake_text exchange_key =
     ascii ''HTTP/1.1 101 Switching Protocols'' @ CRLF @ ascii ''Upgrade: websocket'' @ CRLF @
     ascii ''Connection: Upgrade'' @ CRLF @ ascii ''Sec-WebSocket-Accept: '' @ exchange_key @ CRLF @ CRLF"

definition complete_protocol_upgrade_handshake :: "world \<Rightarrow> nat \<Rightarrow> byte list \<Rightarrow> world res" where
  "complete_protocol_upgrade_handshake w a exchange_key =
     res_bind (lookup (websockets w) a) (\<lambda>ws.
     res_bind (get_client w (ws_cli ws)) (\<lambda>cl.
       if closing cl then Inr w
       else res_bind (client_write w (ws_cli ws) OnHandshakeWrite [(LStack, handshake_text exchange_key)]) (\<lambda>(rc, w1).
            res_bind (upd_client w1 (ws_cli ws)
                        (\<lambda>cl. cl\<lparr>activeWs := Some a, conn_protocol := TYPE_WEB_SOCKET\<rparr>)) (\<lambda>w2.
              return_frame w2 (ws_cli ws)))))"

section \<open>Routes\<close>

definition register_api_function ::
    "http_context \<Rightarrow> byte list \<Rightarrow> byte list \<Rightarrow> handler \<Rightarrow> http_context" where
  "register_api_function h verb_name route h' = h\<lparr>routes := (routes h)((verb_name, route) \<mapsto> h')\<rparr>"

definition register_ws_cb :: "http_context \<Rightarrow> byte list \<Rightarrow> nat \<Rightarrow> http_context" where
  "register_ws_cb h route cb = h\<lparr>ws_routes := (ws_routes h)(route \<mapsto> cb)\<rparr>"

text \<open>
  A handler: for a JavaScript route the callback is called with the two objects; for a static
  route the mapped file is sent.
\<close>

definition call_handler :: "bool \<Rightarrow> world \<Rightarrow> handler \<Rightarrow> nat \<Rightarrow> nat \<Rightarrow> world res" where
  "call_handler nd w h q r =
     (case h of
        JsHandler cb \<Rightarrow> Inr (w\<lparr>trace := trace w @ [CallRoute cb q r]\<rparr>)
      | StaticHandler fp \<Rightarrow>
          (let f = (case static_files (http_ctx w) fp of
                      None \<Rightarrow> \<lparr>mf_data = None, mf_size = 0\<rparr> | Some f \<Rightarrow> f)
           in res_bind (get_content_type (get_file_extension (Some fp))) (\<lambda>ct.
              res_bind (lookup (responses w) r) (\<lambda>res.
                ResponseObject_send nd
                  (w\<lparr>responses := (responses w)(r \<mapsto>
                       res\<lparr>res_headers := [(ascii ''Content-Type'', ct)],
                           header_size := header_size res + 21,
                           is_static := True, response_len := mf_size f,
                           response_buffer := BStatic (case mf_data f of None \<Rightarrow> [] | Some d \<Rightarrow> d)\<rparr>)\<rparr>) r))))"

definition invoke_function :: "bool \<Rightarrow> world \<Rightarrow> nat \<Rightarrow> nat \<Rightarrow> world res" where
  "invoke_function nd w q r =
     res_bind (lookup (requests w) q) (\<lambda>req.
       case routes (http_ctx w) (verb req, uri req) of
         Some h \<Rightarrow> call_handler nd w h q r
       | None \<Rightarrow> resp_with_404 nd w r)"

definition invoke_ws_function :: "js_setup \<Rightarrow> world \<Rightarrow> nat \<Rightarrow> byte list \<Rightarrow> world res" where
  "invoke_ws_function js w a route =
     (case ws_routes (http_ctx w) route of
        None \<Rightarrow> Inr w
      | Some cb \<Rightarrow>
          res_bind (lookup (websockets w) a) (\<lambda>ws.
            ws_send_all (w\<lparr>trace := trace w @ [CallWsSetup cb a],
                          websockets := (websockets w)(a \<mapsto> ws\<lparr>ws_sock_js := Some (fst (js cb))\<rparr>)\<rparr>)
              a (snd (js cb))))"

section \<open>Requests\<close>

definition append_read :: "world \<Rightarrow> nat \<Rightarrow> int \<Rightarrow> nat \<Rightarrow> world res" where
  "append_read w c nread rb =
     res_bind (MemPool_get (read_buffers (sp w)) rb) (\<lambda>buf.
     res_bind (MemPool_set (read_buffers (sp w)) rb (buf\<lparr>rb_len := of_int nread\<rparr>)) (\<lambda>p.
     res_bind (recv_new_buffer ((sp w)\<lparr>read_buffers := p\<rparr>) (Some c) (Some rb)) (\<lambda>sp'. Inr (w\<lparr>sp := sp'\<rparr>))))"

definition received :: "world \<Rightarrow> nat \<Rightarrow> byte list res" where
  "received w c = res_bind (get_client w c) (\<lambda>cl. flatten_recv (read_buffers (sp w)) cl)"

definition clear_received :: "bool \<Rightarrow> world \<Rightarrow> nat \<Rightarrow> world res" where
  "clear_received nd w c = res_bind (clear_buffer nd (sp w) (Some c)) (\<lambda>p. Inr (w\<lparr>sp := p\<rparr>))"

text \<open>The two objects of a request; method and path are cut to the size of their arrays.\<close>

definition new_objects :: "world \<Rightarrow> phr_request \<Rightarrow> nat \<times> nat \<times> world" where
  "new_objects w q =
     (let rq = next_addr w; rs = Suc rq
      in (rq, rs,
          w\<lparr>requests := (requests w)(rq \<mapsto> \<lparr>verb = c_str (take 15 (req_method q)), uri = c_str (take 511 (path q))\<rparr>),
            responses := (responses w)(rs \<mapsto> new_response rq), next_addr := Suc rs\<rparr>))"

definition upgrade_connection :: "js_setup \<Rightarrow> world \<Rightarrow> nat \<Rightarrow> nat \<Rightarrow> byte list \<Rightarrow> byte list \<Rightarrow> world res" where
  "upgrade_connection js w c r route client_key =
     (let a = next_addr w;
          w1 = w\<lparr>websockets := (websockets w)(a \<mapsto> \<lparr>ws_sock_js = None, ws_cli = c\<rparr>), next_addr := Suc a\<rparr>
      in res_bind (invoke_ws_function js w1 a route) (\<lambda>w2.
         res_bind (complete_protocol_upgrade_handshake w2 a (compute_ws_accept_key client_key)) (\<lambda>w3.
           delete_response w3 r)))"

definition dispatch_request :: "bool \<Rightarrow> js_setup \<Rightarrow> world \<Rightarrow> nat \<Rightarrow> phr_request \<Rightarrow> world res" where
  "dispatch_request nd js w c q =
     res_bind (upd_client w c (\<lambda>cl. cl\<lparr>write_in_flight := True\<rparr>)) (\<lambda>w1.
       let (rq, rs, w2) = new_objects w1 q
       in res_bind (clear_received nd w2 c) (\<lambda>w3.
            let inf = parseWSUpgrade (headers q)
            in if isUpgrade inf then
                 upgrade_connection js w3 c rs (c_str (take 511 (path q))) (ws_key inf)
               else
                 res_bind (get_client w3 c) (\<lambda>cl.
                 res_bind (lookup (responses w3) rs) (\<lambda>res.
                 res_bind (guard_acquire
                     (w3\<lparr>responses := (responses w3)(rs \<mapsto> res\<lparr>res_cli := c, res_req := rq, res_guard := guard cl\<rparr>)\<rparr>)
                     (guard cl)) (\<lambda>w4.
                   invoke_function nd w4 rq rs)))))"

definition process_http_1_request ::
    "bool \<Rightarrow> bool \<Rightarrow> js_setup \<Rightarrow> world \<Rightarrow> nat \<Rightarrow> int \<Rightarrow> nat \<Rightarrow> world res" where
  "process_http_1_request nd sse js w c nread rb =
     res_bind (append_read w c nread rb) (\<lambda>w1.
     res_bind (received w1 c) (\<lambda>buffer_data.
       case phr_parse_request sse buffer_data 100 0 of
         OobRead \<Rightarrow> Inl OutOfBounds
       | Ret pret \<Rightarrow> if pret = -2 then Inr w1 else close_if_open w1 c
       | Parsed (pret, q) \<Rightarrow>
           res_bind (get_client w1 c) (\<lambda>cl.
             if write_in_flight cl \<or> closing cl then
               res_bind (clear_received nd w1 c) (\<lambda>w2. upd_socket w2 c uv_read_stop)
             else dispatch_request nd js w1 c q)))"

definition process_web_socket_request ::
    "bool \<Rightarrow> world \<Rightarrow> nat \<Rightarrow> int \<Rightarrow> nat \<Rightarrow> world res" where
  "process_web_socket_request nd w c nread rb =
     res_bind (get_client w c) (\<lambda>cl.
     res_bind (append_read w c nread rb) (\<lambda>w1.
     res_bind (received w1 c) (\<lambda>buffer_data.
       case activeWs cl of None \<Rightarrow> Inl NullDeref
       | Some a \<Rightarrow>
           res_bind (lookup (websockets w1) a) (\<lambda>ws.
           res_bind (onMessage ws buffer_data) (\<lambda>(rc, evs).
             let w2 = w1\<lparr>trace := trace w1 @ map (CallWs a) evs\<rparr>
             in if rc = 0 then Inr w2 else clear_received nd w2 c)))))"

definition on_read_cb ::
    "bool \<Rightarrow> bool \<Rightarrow> js_setup \<Rightarrow> world \<Rightarrow> nat \<Rightarrow> int \<Rightarrow> nat option \<Rightarrow> world res" where
  "on_read_cb nd sse js w c nread rb =
     res_bind (get_client w c) (\<lambda>cl.
       if 0 < nread then
         (case rb of None \<Rightarrow> Inl NullDeref
          | Some b \<Rightarrow>
              (case conn_protocol cl of
                 TYPE_HTTP_1 \<Rightarrow> process_http_1_request nd sse js w c nread b
               | TYPE_WEB_SOCKET \<Rightarrow> process_web_socket_request nd w c nread b
               | _ \<Rightarrow> if nd then Inr w else Inl AssertFail))
       else if nread = UV_ENOBUFS then close_if_open w c
       else res_bind (release_read_buffer nd (sp w) rb) (\<lambda>p. close_if_open (w\<lparr>sp := p\<rparr>) c))"

definition on_alloc_buffer_cb :: "world \<Rightarrow> (nat option \<times> world) res" where
  "on_alloc_buffer_cb w = res_bind (acquire_read_buffer (sp w)) (\<lambda>(rb, p). Inr (rb, w\<lparr>sp := p\<rparr>))"

section \<open>New connections\<close>

definition init_client_state :: "client_state \<Rightarrow> client_state" where
  "init_client_state cli =
     cli\<lparr>closing := False, write_in_flight := False, conn_protocol := TYPE_HTTP_1,
         pending_write_buffer := None, recv_count := 0, recv_len := 0, recv_head := None, recv_tail := None\<rparr>"

text \<open>
  A connection that cannot be served is accepted into a temporary socket and closed at once; the
  socket is freed by its close callback, or right away if accepting failed.
\<close>

definition reject_connection :: "bool \<Rightarrow> world \<Rightarrow> world" where
  "reject_connection accepted w = (if accepted then w\<lparr>temp_sockets := Suc (temp_sockets w)\<rparr> else w)"

text \<open>
  \<open>pending\<close>: the listening socket has a connection to accept; \<open>peer_rc\<close>: the result of
  \<^verbatim>\<open>uv_tcp_getpeername\<close>. \<^verbatim>\<open>uv_tcp_init\<close> with an unspecified address family opens no
  descriptor and does not fail.
\<close>

definition on_peer_connected :: "bool \<Rightarrow> world \<Rightarrow> int \<Rightarrow> bool \<Rightarrow> int \<Rightarrow> world res" where
  "on_peer_connected nd w st pending peer_rc =
     (if st < 0 then Inr w
      else res_bind (acquire_client (sp w)) (\<lambda>(co, p1).
        case co of None \<Rightarrow> Inr (reject_connection pending (w\<lparr>sp := p1\<rparr>))
        | Some c \<Rightarrow>
            res_bind (upd_client (w\<lparr>sp := p1\<rparr>) c (\<lambda>cl. (init_client_state cl)\<lparr>server_set := True\<rparr>)) (\<lambda>w1.
            res_bind (acquire_guard (sp w1)) (\<lambda>(go, p2).
              case go of
                None \<Rightarrow> res_bind (release_client nd p2 (Some c)) (\<lambda>p3. Inr (reject_connection pending (w1\<lparr>sp := p3\<rparr>)))
              | Some g \<Rightarrow>
                  res_bind (MemPool_set (guards p2) g \<lparr>alive = True, ref_count = 0, guard_pool = GuardPool\<rparr>) (\<lambda>gp.
                  res_bind (guard_acquire (w1\<lparr>sp := p2\<lparr>guards := gp\<rparr>\<rparr>) (Some g)) (\<lambda>w2.
                  res_bind (upd_client w2 c (\<lambda>cl. cl\<lparr>guard := Some g, socket := uv__stream_init, idle_timer := HLive\<rparr>)) (\<lambda>w3.
                  res_bind (get_client w3 c) (\<lambda>cl.
                    let (rc, s) = uv_accept pending (socket cl)
                    in res_bind (put_client w3 c (cl\<lparr>socket := s\<rparr>)) (\<lambda>w4.
                         if rc = 0 \<and> 0 \<le> peer_rc then client_read_start w4 c else Inr w4)))))))))"

section \<open>Events delivered by libuv\<close>

text \<open>The results of the successive \<^verbatim>\<open>read\<close> calls on a socket; when they are used up, \<^verbatim>\<open>EAGAIN\<close>.\<close>

datatype kread = KData "byte list" | KEnd | KReadError int

definition store_read :: "world \<Rightarrow> nat \<Rightarrow> byte list \<Rightarrow> world res" where
  "store_read w rb bs =
     res_bind (MemPool_get (read_buffers (sp w)) rb) (\<lambda>buf.
       if 256 < length bs then Inl OutOfBounds
       else res_bind (MemPool_set (read_buffers (sp w)) rb (buf\<lparr>read_data := bs @ drop (length bs) (read_data buf)\<rparr>))
              (\<lambda>p. Inr (w\<lparr>sp := (sp w)\<lparr>read_buffers := p\<rparr>\<rparr>)))"

definition uv__read_error :: "tcp_stream \<Rightarrow> tcp_stream" where
  "uv__read_error st = st\<lparr>f_readable := False, f_writable := False\<rparr>"

fun uv__read :: "bool \<Rightarrow> bool \<Rightarrow> js_setup \<Rightarrow> nat \<Rightarrow> kread list \<Rightarrow> world \<Rightarrow> nat \<Rightarrow> world res" where
  "uv__read nd sse js 0 ks w c = Inr w"
| "uv__read nd sse js (Suc count) ks w c =
     res_bind (get_client w c) (\<lambda>cl.
       if \<not> f_reading (socket cl) then Inr w
       else res_bind (on_alloc_buffer_cb w) (\<lambda>(rb, w1).
         case rb of None \<Rightarrow> on_read_cb nd sse js w1 c UV_ENOBUFS None
         | Some b \<Rightarrow>
             (case ks of
                [] \<Rightarrow> on_read_cb nd sse js w1 c 0 rb
              | KReadError e # ks' \<Rightarrow>
                  res_bind (upd_socket w1 c uv__read_error) (\<lambda>w2.
                  res_bind (on_read_cb nd sse js w2 c e rb) (\<lambda>w3. upd_socket w3 c uv_read_stop))
              | KEnd # ks' \<Rightarrow>
                  res_bind (upd_socket w1 c uv__stream_eof) (\<lambda>w2. on_read_cb nd sse js w2 c UV_EOF rb)
              | KData bs # ks' \<Rightarrow>
                  res_bind (store_read w1 b bs) (\<lambda>w2.
                  res_bind (on_read_cb nd sse js w2 c (int (length bs)) rb) (\<lambda>w3.
                    if length bs < 256 then Inr w3 else uv__read nd sse js count ks' w3 c)))))"

fun call_write_cbs :: "world \<Rightarrow> nat \<Rightarrow> (write_cb \<times> int) list \<Rightarrow> world res" where
  "call_write_cbs w c [] = Inr w"
| "call_write_cbs w c (cb # cbs) = res_bind (call_write_cb w c (fst cb)) (\<lambda>w'. call_write_cbs w' c cbs)"

definition run_write_callbacks :: "world \<Rightarrow> nat \<Rightarrow> world res" where
  "run_write_callbacks w c =
     res_bind (get_client w c) (\<lambda>cl.
       let (cbs, st) = uv__write_callbacks (socket cl)
       in res_bind (put_client w c (cl\<lparr>socket := st\<rparr>)) (\<lambda>w'. call_write_cbs w' c cbs))"

definition run_drain :: "int \<Rightarrow> world \<Rightarrow> nat \<Rightarrow> world res" where
  "run_drain rc w c =
     res_bind (get_client w c) (\<lambda>cl.
       let (cb, st) = uv__drain rc (socket cl)
       in res_bind (put_client w c (cl\<lparr>socket := st\<rparr>)) (\<lambda>w'.
            case cb of None \<Rightarrow> Inr w' | Some (f, _) \<Rightarrow> call_shutdown_cb w' c f))"

text \<open>What \<^verbatim>\<open>poll\<close> reports for a connection, and what the system calls made for it return.\<close>

record poll_event =
  pollin :: bool
  pollout :: bool
  pollhup :: bool
  kreads :: "kread list"
  kwrites :: "kwrite list"
  shutdown_rc :: int

definition stream_write_io :: "poll_event \<Rightarrow> world \<Rightarrow> nat \<Rightarrow> world res" where
  "stream_write_io ev w c =
     res_bind (get_client w c) (\<lambda>cl.
       if \<not> queue_live w (socket cl) then Inl UseAfterFree
       else res_bind (uv__write 32 (kwrites ev) (socket cl)) (\<lambda>st.
            res_bind (put_client w c (cl\<lparr>socket := st\<rparr>)) (\<lambda>w1.
            res_bind (run_write_callbacks w1 c) (\<lambda>w2.
            res_bind (get_client w2 c) (\<lambda>cl2.
              if write_queue (socket cl2) = [] then run_drain (shutdown_rc ev) w2 c else Inr w2)))))"

definition uv__stream_io :: "bool \<Rightarrow> bool \<Rightarrow> js_setup \<Rightarrow> poll_event \<Rightarrow> world \<Rightarrow> nat \<Rightarrow> world res" where
  "uv__stream_io nd sse js ev w c =
     res_bind (if pollin ev then uv__read nd sse js 32 (kreads ev) w c else Inr w) (\<lambda>w1.
     res_bind (get_client w1 c) (\<lambda>cl1.
       if \<not> fd_open (socket cl1) then Inr w1
       else res_bind
         (if pollhup ev \<and> \<not> pollin ev \<and> f_reading (socket cl1) \<and> \<not> f_read_eof (socket cl1)
          then res_bind (upd_socket w1 c uv__stream_eof) (\<lambda>w2. on_read_cb nd sse js w2 c UV_EOF None)
          else Inr w1) (\<lambda>w3.
         res_bind (get_client w3 c) (\<lambda>cl3.
           if \<not> fd_open (socket cl3) then Inr w3
           else if pollout ev \<or> pollhup ev then stream_write_io ev w3 c else Inr w3))))"

text \<open>
  \<^verbatim>\<open>uv__finish_close\<close> of a connection's socket: pending writes are cancelled and their callbacks
  made, a pending shutdown is cancelled, then the close callback runs.
\<close>

definition finish_close_socket :: "bool \<Rightarrow> world \<Rightarrow> nat \<Rightarrow> world res" where
  "finish_close_socket nd w c =
     res_bind (get_client w c) (\<lambda>cl.
       if \<not> f_closing (socket cl) \<or> f_closed (socket cl) then Inl AssertFail
       else res_bind (put_client w c
               (cl\<lparr>socket := uv__stream_flush_write_queue UV_ECANCELED ((socket cl)\<lparr>f_closed := True\<rparr>)\<rparr>)) (\<lambda>w1.
            res_bind (run_write_callbacks w1 c) (\<lambda>w2.
            res_bind (run_drain 0 w2 c) (\<lambda>w3. on_client_closed_cb nd w3 c))))"

definition finish_close_timer :: "bool \<Rightarrow> world \<Rightarrow> nat \<Rightarrow> world res" where
  "finish_close_timer nd w c =
     res_bind (get_client w c) (\<lambda>cl.
       if idle_timer cl \<noteq> HClosing then Inl AssertFail
       else res_bind (put_client w c (cl\<lparr>idle_timer := HClosed\<rparr>)) (\<lambda>w1. on_idle_timer_closed_cb nd w1 c))"

section \<open>Methods called from JavaScript\<close>

text \<open>
  \<^verbatim>\<open>res.end(body)\<close>: \<open>None\<close> is an argument that has no string value. \<open>malloc_ok\<close> tells
  whether the copy of the body could be allocated.
\<close>

definition response_end :: "bool \<Rightarrow> world \<Rightarrow> nat \<Rightarrow> byte list option \<Rightarrow> bool \<Rightarrow> world res" where
  "response_end nd w r body malloc_ok =
     (case body of None \<Rightarrow> Inl NullDeref
      | Some s \<Rightarrow>
          res_bind (lookup (responses w) r) (\<lambda>res.
            let len = (of_nat (length (c_str s)) :: size_t)
            in if \<not> malloc_ok then ResponseObject_abort nd w r
               else let (a, w1) = malloc_copy w (c_str s @ [0])
                    in ResponseObject_send nd
                         (w1\<lparr>responses := (responses w1)(r \<mapsto> res\<lparr>response_buffer := BHeap a, response_len := len\<rparr>)\<rparr>) r))"

text \<open>
  \<^verbatim>\<open>res.setHeader(key, value)\<close>: the new entry's place in the map depends on the address of the
  copied key; \<open>pos\<close> is that place.
\<close>

definition response_set_header :: "world \<Rightarrow> nat \<Rightarrow> nat \<Rightarrow> byte list option \<Rightarrow> byte list option \<Rightarrow> world res" where
  "response_set_header w r pos key val =
     (case (key, val) of
        (Some k, Some v) \<Rightarrow>
          res_bind (lookup (responses w) r) (\<lambda>res.
            let hs = res_headers res; size' = header_size res + int (length (c_str v))
            in if int INT_MAX < size' then Inl SignedOverflow
               else Inr (w\<lparr>responses := (responses w)(r \<mapsto>
                      res\<lparr>res_headers := take pos hs @ (c_str k, c_str v) # drop pos hs, header_size := size'\<rparr>)\<rparr>))
      | _ \<Rightarrow> Inl NullDeref)"

definition request_uri_getter :: "world \<Rightarrow> nat \<Rightarrow> byte list res" where
  "request_uri_getter w q = res_bind (lookup (requests w) q) (\<lambda>req. Inr (uri req))"

section \<open>The server object\<close>

definition registerFuncHandler :: "world \<Rightarrow> byte list \<Rightarrow> byte list \<Rightarrow> handler \<Rightarrow> world" where
  "registerFuncHandler w verb_name route h = w\<lparr>http_ctx := register_api_function (http_ctx w) verb_name route h\<rparr>"

definition registerWsFuncHandler :: "world \<Rightarrow> byte list \<Rightarrow> nat \<Rightarrow> world" where
  "registerWsFuncHandler w route cb = w\<lparr>http_ctx := register_ws_cb (http_ctx w) route cb\<rparr>"

definition keep_callback :: "world \<Rightarrow> nat \<Rightarrow> world" where
  "keep_callback w cb = w\<lparr>http_ctx := (http_ctx w)\<lparr>registerd_cb := registerd_cb (http_ctx w) @ [cb]\<rparr>\<rparr>"

definition register_get_url :: "world \<Rightarrow> byte list \<Rightarrow> nat \<Rightarrow> world" where
  "register_get_url w route cb = keep_callback (registerFuncHandler w (ascii ''GET'') (c_str route) (JsHandler cb)) cb"

definition register_ws_url :: "world \<Rightarrow> byte list \<Rightarrow> nat \<Rightarrow> world" where
  "register_ws_url w route cb = keep_callback (registerWsFuncHandler w (c_str route) cb) cb"

text \<open>
  \<^verbatim>\<open>mmap_static_file\<close>: opening a missing file throws (\<open>None\<close>); if \<^verbatim>\<open>fstat\<close> or \<^verbatim>\<open>mmap\<close> fails the
  result is empty. \<^verbatim>\<open>mmap\<close> of an empty file fails.
\<close>

datatype disk_file = Missing | Unmappable | Mappable "byte list"

definition mmap_static_file :: "disk_file \<Rightarrow> mapped_file option" where
  "mmap_static_file d =
     (case d of Missing \<Rightarrow> None
      | Unmappable \<Rightarrow> Some \<lparr>mf_data = None, mf_size = 0\<rparr>
      | Mappable bs \<Rightarrow>
          if bs = [] then Some \<lparr>mf_data = None, mf_size = 0\<rparr>
          else Some \<lparr>mf_data = Some bs, mf_size = of_nat (length bs)\<rparr>)"

definition server_serve_static :: "world \<Rightarrow> byte list \<Rightarrow> byte list \<Rightarrow> disk_file \<Rightarrow> world option" where
  "server_serve_static w route fp d =
     (case mmap_static_file d of None \<Rightarrow> None
      | Some f \<Rightarrow>
          let h = http_ctx w;
              w1 = w\<lparr>http_ctx := h\<lparr>static_files := (static_files h)(c_str fp \<mapsto> f)\<rparr>\<rparr>
          in Some (registerFuncHandler w1 (ascii ''GET'') (c_str route) (StaticHandler (c_str fp))))"

definition Server_new :: "size_t \<Rightarrow> (nat \<Rightarrow> kwrite list) \<Rightarrow> world res" where
  "Server_new max_connections k =
     res_bind (ServerPool_new max_connections) (\<lambda>p.
       Inr \<lparr>sp = p, requests = (\<lambda>_. None), responses = (\<lambda>_. None), websockets = (\<lambda>_. None),
            mallocs = (\<lambda>_. None), next_addr = 0,
            http_ctx = \<lparr>registerd_cb = [], static_files = (\<lambda>_. None), routes = (\<lambda>_. None), ws_routes = (\<lambda>_. None)\<rparr>,
            temp_sockets = 0, kern = k, kern_pos = 0, trace = []\<rparr>)"

end
