(* ===== verification/Uv_Heap.thy ===== *)
theory Uv_Heap
  imports Prelude
begin

text \<open>
  The binary heap of libuv, \<^verbatim>\<open>deps/libuv/src/heap-inl.h\<close>, which orders the timers of the event
  loop. The nodes are linked by pointers and embedded in the objects they order; the model keeps
  them in a memory, a map from addresses to nodes.

  The theory shows that the pointer structure always represents a complete binary tree: with
  positions numbered from 1 at the root, row by row, the children of position \<open>k\<close> are at
  \<open>2 * k\<close> and \<open>2 * k + 1\<close>. Inserting appends a position, removing takes the last one away, and
  both restore the order.
\<close>

section \<open>Nodes and the heap\<close>

record heap_node =
  h_left :: "nat option"
  h_right :: "nat option"
  h_parent :: "nat option"

record uv_heap =
  heap_top :: "nat option"
  nelts :: u32
  heap_mem :: "nat \<Rightarrow> heap_node option"

definition heap_init :: "uv_heap \<Rightarrow> uv_heap" where
  "heap_init h = h\<lparr>heap_top := None, nelts := 0\<rparr>"

definition heap_min :: "uv_heap \<Rightarrow> nat option" where
  "heap_min h = heap_top h"

definition get_node :: "uv_heap \<Rightarrow> nat \<Rightarrow> heap_node res" where
  "get_node h a = (case heap_mem h a of None \<Rightarrow> Inl UseAfterFree | Some n \<Rightarrow> Inr n)"

definition upd_node :: "uv_heap \<Rightarrow> nat \<Rightarrow> (heap_node \<Rightarrow> heap_node) \<Rightarrow> uv_heap res" where
  "upd_node h a f = res_bind (get_node h a) (\<lambda>n. Inr (h\<lparr>heap_mem := (heap_mem h)(a \<mapsto> f n)\<rparr>))"

text \<open>\<^verbatim>\<open>if (p != NULL) p->parent = q;\<close>\<close>

definition set_parent :: "uv_heap \<Rightarrow> nat option \<Rightarrow> nat \<Rightarrow> uv_heap res" where
  "set_parent h p q = (case p of None \<Rightarrow> Inr h | Some a \<Rightarrow> upd_node h a (h_parent_update (\<lambda>_. Some q)))"

text \<open>The child pointer of a node that leads to \<open>old\<close> is made to lead to \<open>new\<close>.\<close>

definition relinked :: "nat \<Rightarrow> nat \<Rightarrow> heap_node \<Rightarrow> heap_node" where
  "relinked old new n = (if h_left n = Some old then n\<lparr>h_left := Some new\<rparr> else n\<lparr>h_right := Some new\<rparr>)"

text \<open>Makes the pointer that leads from \<open>up\<close> (or from the heap) to \<open>old\<close> lead to \<open>new\<close>.\<close>

definition relink :: "uv_heap \<Rightarrow> nat option \<Rightarrow> nat \<Rightarrow> nat \<Rightarrow> uv_heap res" where
  "relink h up old new =
     (case up of None \<Rightarrow> Inr (h\<lparr>heap_top := Some new\<rparr>)
      | Some u \<Rightarrow> upd_node h u (relinked old new))"

definition heap_node_swap :: "uv_heap \<Rightarrow> nat \<Rightarrow> nat \<Rightarrow> uv_heap res" where
  "heap_node_swap h parent child =
     res_bind (get_node h parent) (\<lambda>t.
     res_bind (get_node h child) (\<lambda>c.
     res_bind (upd_node h parent (\<lambda>_. c\<lparr>h_parent := Some child\<rparr>)) (\<lambda>h1.
     res_bind (upd_node h1 child (\<lambda>_. relinked child parent t)) (\<lambda>h2.
     res_bind (set_parent h2 (if h_left t = Some child then h_right t else h_left t) child) (\<lambda>h3.
     res_bind (set_parent h3 (h_left c) parent) (\<lambda>h4.
     res_bind (set_parent h4 (h_right c) parent) (\<lambda>h5.
       relink h5 (h_parent t) parent child)))))))"

section \<open>Finding a position\<close>

text \<open>
  The path from the root to position \<open>n\<close>, as bits taken from the low end, and its length.
\<close>

function heap_path :: "u32 \<Rightarrow> u32 \<Rightarrow> nat \<Rightarrow> u32 \<times> nat" where
  "heap_path n path k =
     (if n < 2 then (path, k) else heap_path (n div 2) (push_bit 1 path OR (n AND 1)) (k + 1))"
  by pat_completeness auto
termination
  by (relation "measure (\<lambda>(n, _, _). unat n)") (auto simp: unat_div word_less_nat_alt)

text \<open>A pointer to a node pointer: the heap's own or a child pointer of a node.\<close>

datatype node_ref = MinRef | LeftRef nat | RightRef nat

definition deref :: "uv_heap \<Rightarrow> node_ref \<Rightarrow> nat option res" where
  "deref h r =
     (case r of MinRef \<Rightarrow> Inr (heap_top h)
      | LeftRef a \<Rightarrow> res_bind (get_node h a) (\<lambda>n. Inr (h_left n))
      | RightRef a \<Rightarrow> res_bind (get_node h a) (\<lambda>n. Inr (h_right n)))"

definition assign :: "uv_heap \<Rightarrow> node_ref \<Rightarrow> nat option \<Rightarrow> uv_heap res" where
  "assign h r v =
     (case r of MinRef \<Rightarrow> Inr (h\<lparr>heap_top := v\<rparr>)
      | LeftRef a \<Rightarrow> upd_node h a (h_left_update (\<lambda>_. v))
      | RightRef a \<Rightarrow> upd_node h a (h_right_update (\<lambda>_. v)))"

fun heap_walk :: "uv_heap \<Rightarrow> nat \<Rightarrow> u32 \<Rightarrow> node_ref \<Rightarrow> node_ref \<Rightarrow> (node_ref \<times> node_ref) res" where
  "heap_walk h 0 path parent child = Inr (parent, child)"
| "heap_walk h (Suc k) path parent child =
     res_bind (deref h child) (\<lambda>p.
       case p of None \<Rightarrow> Inl NullDeref
       | Some a \<Rightarrow> heap_walk h k (drop_bit 1 path) child (if path AND 1 \<noteq> 0 then RightRef a else LeftRef a))"

section \<open>Restoring the order\<close>

fun heap_up :: "(nat \<Rightarrow> nat \<Rightarrow> bool) \<Rightarrow> nat \<Rightarrow> uv_heap \<Rightarrow> nat \<Rightarrow> uv_heap res" where
  "heap_up lt 0 h node = Inl NoReturn"
| "heap_up lt (Suc rounds) h node =
     res_bind (get_node h node) (\<lambda>n.
       case h_parent n of None \<Rightarrow> Inr h
       | Some p \<Rightarrow>
           if lt node p then res_bind (heap_node_swap h p node) (\<lambda>h'. heap_up lt rounds h' node)
           else Inr h)"

definition heap_smaller :: "(nat \<Rightarrow> nat \<Rightarrow> bool) \<Rightarrow> nat option \<Rightarrow> nat \<Rightarrow> nat" where
  "heap_smaller lt p smallest = (case p of None \<Rightarrow> smallest | Some a \<Rightarrow> if lt a smallest then a else smallest)"

fun heap_down :: "(nat \<Rightarrow> nat \<Rightarrow> bool) \<Rightarrow> nat \<Rightarrow> uv_heap \<Rightarrow> nat \<Rightarrow> uv_heap res" where
  "heap_down lt 0 h child = Inl NoReturn"
| "heap_down lt (Suc rounds) h child =
     res_bind (get_node h child) (\<lambda>n.
       let smallest = heap_smaller lt (h_right n) (heap_smaller lt (h_left n) child)
       in if smallest = child then Inr h
          else res_bind (heap_node_swap h child smallest) (\<lambda>h'. heap_down lt rounds h' child))"

section \<open>Insertion and removal\<close>

text \<open>The rounds given to the loops are the number of positions, more than a path can have.\<close>

definition heap_insert :: "(nat \<Rightarrow> nat \<Rightarrow> bool) \<Rightarrow> uv_heap \<Rightarrow> nat \<Rightarrow> uv_heap res" where
  "heap_insert lt h newnode =
     res_bind (upd_node h newnode (\<lambda>_. \<lparr>h_left = None, h_right = None, h_parent = None\<rparr>)) (\<lambda>h1.
     let (path, k) = heap_path (1 + nelts h1) 0 0
     in res_bind (heap_walk h1 k path MinRef MinRef) (\<lambda>(parent, child).
        res_bind (deref h1 parent) (\<lambda>p.
        res_bind (upd_node h1 newnode (h_parent_update (\<lambda>_. p))) (\<lambda>h2.
        res_bind (assign h2 child (Some newnode)) (\<lambda>h3.
          heap_up lt (unat (nelts h3 + 1)) (h3\<lparr>nelts := nelts h3 + 1\<rparr>) newnode)))))"

definition heap_remove :: "(nat \<Rightarrow> nat \<Rightarrow> bool) \<Rightarrow> uv_heap \<Rightarrow> nat \<Rightarrow> uv_heap res" where
  "heap_remove lt h node =
     (if nelts h = 0 then Inr h
      else
        let (path, k) = heap_path (nelts h) 0 0
        in res_bind (heap_walk h k path MinRef MinRef) (\<lambda>(_, max_ref).
           res_bind (deref h max_ref) (\<lambda>co.
           res_bind (assign (h\<lparr>nelts := nelts h - 1\<rparr>) max_ref None) (\<lambda>h1.
             if co = Some node then Inr (if co = heap_top h1 then h1\<lparr>heap_top := None\<rparr> else h1)
             else (case co of None \<Rightarrow> Inl NullDeref
             | Some child \<Rightarrow>
                 res_bind (get_node h1 node) (\<lambda>n.
                 res_bind (upd_node h1 child (\<lambda>_. n)) (\<lambda>h2.
                 res_bind (set_parent h2 (h_left n) child) (\<lambda>h3.
                 res_bind (set_parent h3 (h_right n) child) (\<lambda>h4.
                 res_bind (relink h4 (h_parent n) node child) (\<lambda>h5.
                 res_bind (heap_down lt (unat (nelts h)) h5 child) (\<lambda>h6.
                   heap_up lt (unat (nelts h)) h6 child)))))))))))"

definition heap_dequeue :: "(nat \<Rightarrow> nat \<Rightarrow> bool) \<Rightarrow> uv_heap \<Rightarrow> uv_heap res" where
  "heap_dequeue lt h =
     (case heap_top h of
        None \<Rightarrow> if nelts h = 0 then Inr h else Inl NullDeref
      | Some a \<Rightarrow> heap_remove lt h a)"


section \<open>Positions\<close>

text \<open>
  A layout says which node is at which position. The node at position \<open>k\<close> points to those at
  \<open>2 * k\<close>, \<open>2 * k + 1\<close> and \<open>k div 2\<close>; position 0 does not exist.
\<close>

type_synonym layout = "nat \<Rightarrow> nat option"

definition node_at :: "layout \<Rightarrow> nat \<Rightarrow> heap_node" where
  "node_at P k = \<lparr>h_left = P (2 * k), h_right = P (2 * k + 1), h_parent = P (k div 2)\<rparr>"

definition placed :: "layout \<Rightarrow> nat \<Rightarrow> bool" where
  "placed P n \<longleftrightarrow> dom P = {1..n} \<and> inj_on P (dom P)"

definition stores :: "(nat \<Rightarrow> heap_node option) \<Rightarrow> layout \<Rightarrow> (nat \<Rightarrow> heap_node) \<Rightarrow> bool" where
  "stores m P N \<longleftrightarrow> (\<forall>k a. P k = Some a \<longrightarrow> m a = Some (N k))"

definition heap_repr :: "uv_heap \<Rightarrow> layout \<Rightarrow> bool" where
  "heap_repr h P \<longleftrightarrow> placed P (unat (nelts h)) \<and> heap_top h = P 1 \<and> stores (heap_mem h) P (node_at P)"

lemma placed_inj: "placed P n \<Longrightarrow> P j = Some a \<Longrightarrow> P k = Some a \<Longrightarrow> j = k"
  by (auto simp: placed_def inj_on_def dom_def)

lemma placed_at: "placed P n \<Longrightarrow> P j = Some a \<Longrightarrow> P k = Some a \<longleftrightarrow> k = j"
  using placed_inj by blast

lemma placed_0: "placed P n \<Longrightarrow> P 0 = None"
  unfolding placed_def by (metis atLeastAtMost_iff domIff not_one_le_zero)

lemma placed_Some: "placed P n \<Longrightarrow> 1 \<le> k \<Longrightarrow> k \<le> n \<Longrightarrow> \<exists>a. P k = Some a"
  by (auto simp: placed_def dom_def set_eq_iff)

lemma placed_le: "placed P n \<Longrightarrow> P k = Some a \<Longrightarrow> 1 \<le> k \<and> k \<le> n"
  by (auto simp: placed_def dom_def set_eq_iff)

lemma storesD: "stores m P N \<Longrightarrow> P k = Some a \<Longrightarrow> m a = Some (N k)"
  by (simp add: stores_def)

lemma stores_upd:
  assumes "stores m P N" "placed P n" "P k = Some a"
  shows "stores (m(a \<mapsto> x)) P (N(k := x))"
  using assms placed_inj [OF assms(2)] by (auto simp: stores_def)

text \<open>Steps that change node contents only; nodes outside the heap stay as they are.\<close>

definition rewired :: "uv_heap \<Rightarrow> uv_heap \<Rightarrow> layout \<Rightarrow> (nat \<Rightarrow> heap_node) \<Rightarrow> bool" where
  "rewired h h' P N \<longleftrightarrow> (\<exists>m. h' = h\<lparr>heap_mem := m\<rparr> \<and> stores m P N \<and> (\<forall>b. b \<notin> ran P \<longrightarrow> m b = heap_mem h b))"

lemma rewired_stores: "rewired h h' P N \<Longrightarrow> stores (heap_mem h') P N"
  by (auto simp: rewired_def)

lemma rewired_frame:
  assumes "rewired h h' P N"
  shows "nelts h' = nelts h" "heap_top h' = heap_top h" "\<forall>x. x \<notin> ran P \<longrightarrow> heap_mem h' x = heap_mem h x"
  using assms by (auto simp: rewired_def)

lemma rewired_trans: "rewired h h1 P N1 \<Longrightarrow> rewired h1 h2 P N2 \<Longrightarrow> rewired h h2 P N2"
  by (auto simp: rewired_def)

lemma get_node_stores: "stores (heap_mem h) P N \<Longrightarrow> P k = Some a \<Longrightarrow> get_node h a = Inr (N k)"
  by (simp add: get_node_def storesD)

lemma upd_node_stores:
  assumes "stores (heap_mem h) P N" "placed P n" "P k = Some a"
  shows "\<exists>h'. upd_node h a f = Inr h' \<and> rewired h h' P (N(k := f (N k)))"
proof -
  have "a \<in> ran P" using assms(3) by (auto simp: ran_def)
  then have "rewired h (h\<lparr>heap_mem := (heap_mem h)(a \<mapsto> f (N k))\<rparr>) P (N(k := f (N k)))"
    unfolding rewired_def using stores_upd [OF assms] by (intro exI conjI refl) auto
  then show ?thesis using get_node_stores [OF assms(1,3)] by (simp add: upd_node_def)
qed

lemma set_parent_stores:
  assumes "stores (heap_mem h) P N" "placed P n"
  shows "\<exists>h'. set_parent h (P k) q = Inr h' \<and> rewired h h' P (N(k := (N k)\<lparr>h_parent := Some q\<rparr>))"
proof (cases "P k")
  case None
  then have "stores (heap_mem h) P (N(k := (N k)\<lparr>h_parent := Some q\<rparr>))"
    using assms(1) by (auto simp: stores_def)
  then have "rewired h h P (N(k := (N k)\<lparr>h_parent := Some q\<rparr>))"
    unfolding rewired_def by (intro exI [of _ "heap_mem h"]) simp
  with None show ?thesis by (simp add: set_parent_def)
next
  case (Some a)
  from upd_node_stores [OF assms Some, of "h_parent_update (\<lambda>_. Some q)"]
  show ?thesis by (simp add: set_parent_def Some)
qed

section \<open>Swapping a node with its child\<close>

definition swapped :: "layout \<Rightarrow> nat \<Rightarrow> nat \<Rightarrow> layout" where
  "swapped P j k = P(j := P k, k := P j)"

lemma ran_swapped: "ran (swapped P j k) = ran P"
  by (auto simp: ran_def swapped_def) (metis+)

lemma placed_swapped: "placed P n \<Longrightarrow> P j = Some a \<Longrightarrow> P k = Some b \<Longrightarrow> placed (swapped P j k) n"
  unfolding placed_def by (auto simp: swapped_def inj_on_def dom_def split: if_splits)

text \<open>
  What the assignments of \<^verbatim>\<open>heap_node_swap\<close> leave in the nodes, by their old positions: \<open>p\<close> and
  \<open>c\<close> are those of parent and child, \<open>s\<close> that of the sibling, \<open>d\<close> and \<open>e\<close> those of the child's
  children, and \<open>q\<close> that of the node above.
\<close>

definition swap_nodes ::
    "(nat \<Rightarrow> heap_node) \<Rightarrow> nat \<Rightarrow> nat \<Rightarrow> nat \<Rightarrow> nat \<Rightarrow> nat \<Rightarrow> nat \<Rightarrow> nat \<Rightarrow> nat \<Rightarrow> nat \<Rightarrow> heap_node" where
  "swap_nodes N p c s d e q a b =
     (let N1 = N(p := (N c)\<lparr>h_parent := Some b\<rparr>); N2 = N1(c := relinked b a (N p));
          N3 = N2(s := (N2 s)\<lparr>h_parent := Some b\<rparr>); N4 = N3(d := (N3 d)\<lparr>h_parent := Some a\<rparr>);
          N5 = N4(e := (N4 e)\<lparr>h_parent := Some a\<rparr>)
      in N5(q := relinked a b (N5 q)))"

lemma swap_nodes_at:
  assumes "q < p" "p < c" "p < s" "c \<noteq> s" "c < d" "s < d" "d < e"
  shows "swap_nodes N p c s d e q a b k =
    (if k = p then (N c)\<lparr>h_parent := Some b\<rparr> else if k = c then relinked b a (N p)
     else if k = s then (N s)\<lparr>h_parent := Some b\<rparr> else if k = d \<or> k = e then (N k)\<lparr>h_parent := Some a\<rparr>
     else if k = q then relinked a b (N k) else N k)"
  using assms by (simp add: swap_nodes_def Let_def)

lemma swap_nodes_layout:
  assumes pl: "placed P n" and p: "P p = Some a" "P c = Some b" "c div 2 = p"
    and s: "s = (if c = 2 * p then 2 * p + 1 else 2 * p)"
    and k: "swapped P p c k = Some x"
  shows "swap_nodes (node_at P) p c s (2 * c) (2 * c + 1) (p div 2) a b (if k = p then c else if k = c then p else k) =
    node_at (swapped P p c) k"
proof -
  have p1: "1 \<le> p" using placed_le [OF pl p(1)] by simp
  have k1: "1 \<le> k" using placed_le [OF placed_swapped [OF pl p(1,2)] k] by simp
  have c: "c = 2 * p \<or> c = 2 * p + 1" using p(3) by linarith
  have pos: "p div 2 < p" "p < c" "p < s" "c \<noteq> s" "c < 2 * c" "s < 2 * c" "2 * c < 2 * c + 1"
    using p1 c s by (auto split: if_splits)
  note is_a = placed_at [OF pl p(1)] and is_b = placed_at [OF pl p(2)]
  note at = swap_nodes_at [OF pos]
  consider "k = p" | "k = c" | "k = s" | "k = 2 * c" | "k = 2 * c + 1" | "k = p div 2"
    | "k \<noteq> p" "k \<noteq> c" "k \<noteq> s" "k \<noteq> 2 * c" "k \<noteq> 2 * c + 1" "k \<noteq> p div 2" by blast
  then show ?thesis
  proof cases
    case 1
    have v: "swap_nodes (node_at P) p c s (2 * c) (2 * c + 1) (p div 2) a b c = relinked b a (node_at P p)"
      unfolding at using pos(2) by simp
    from c show ?thesis
    proof
      assume cp: "c = 2 * p"
      have "P (2 * p) = Some b" "p div 2 \<noteq> p" "p div 2 \<noteq> 2 * p" using cp p(2) p1 by auto
      then show ?thesis using 1 v cp by (simp add: relinked_def node_at_def swapped_def p)
    next
      assume cp: "c = 2 * p + 1"
      then have "P (2 * p) \<noteq> Some b" "p div 2 \<noteq> p" "p div 2 \<noteq> 2 * p + 1" unfolding is_b using p1 by auto
      then show ?thesis using 1 v cp p1 by (simp add: relinked_def node_at_def swapped_def p)
    qed
  next
    case 2
    have v: "swap_nodes (node_at P) p c s (2 * c) (2 * c + 1) (p div 2) a b p = (node_at P c)\<lparr>h_parent := Some b\<rparr>"
      unfolding at by simp
    with 2 pos(2) show ?thesis by (simp add: node_at_def swapped_def p)
  next
    case 3
    have ks: "k div 2 = p" using 3 s by (simp split: if_splits)
    have ne: "k \<noteq> p" "k \<noteq> c" "2 * k \<noteq> p" "2 * k + 1 \<noteq> p" using 3 pos by simp_all
    have "2 * k \<noteq> c" "2 * k + 1 \<noteq> c" using ne(1) p(3) by linarith+
    moreover have "swap_nodes (node_at P) p c s (2 * c) (2 * c + 1) (p div 2) a b k = (node_at P k)\<lparr>h_parent := Some b\<rparr>"
      unfolding at using 3 ne by simp
    ultimately show ?thesis using ks ne pos(2) by (simp add: node_at_def swapped_def p)
  next
    case 4
    then have "k \<noteq> p" "k \<noteq> c" "k \<noteq> s" "k div 2 = c" "2 * k \<noteq> p" "2 * k + 1 \<noteq> p" "2 * k \<noteq> c" "2 * k + 1 \<noteq> c"
      using pos(1-3,5-7) by linarith+
    with 4 pos(2) show ?thesis unfolding at by (simp add: node_at_def swapped_def p)
  next
    case 5
    then have "k \<noteq> p" "k \<noteq> c" "k \<noteq> s" "k div 2 = c" "2 * k \<noteq> p" "2 * k + 1 \<noteq> p" "2 * k \<noteq> c" "2 * k + 1 \<noteq> c"
      using pos(1-3,5-7) by linarith+
    with 5 pos(2) show ?thesis unfolding at by (simp add: node_at_def swapped_def p)
  next
    case 6
    then have p2: "2 \<le> p" using k1 by simp
    have ne: "k \<noteq> p" "k \<noteq> c" "k \<noteq> s" "k \<noteq> 2 * c" "k \<noteq> 2 * c + 1" using 6 pos(1-3,5-7) by linarith+
    have ne': "k div 2 \<noteq> p" "k div 2 \<noteq> c" "2 * k \<noteq> c" "2 * k + 1 \<noteq> c" using 6 pos(1-3,5-7) p2 p(3) by linarith+
    have v: "swap_nodes (node_at P) p c s (2 * c) (2 * c + 1) (p div 2) a b k = relinked a b (node_at P k)"
      unfolding at using ne 6 by simp
    show ?thesis
    proof (cases "even p")
      case True
      then have "2 * k = p" using 6 by simp
      then show ?thesis using ne ne' v by (simp add: relinked_def node_at_def swapped_def p)
    next
      case False
      then have "2 * k + 1 = p" using 6 by simp
      then have "2 * k \<noteq> p" "P (2 * k) \<noteq> Some a" unfolding is_a by simp_all
      then show ?thesis using \<open>2 * k + 1 = p\<close> ne ne' v by (simp add: relinked_def node_at_def swapped_def p)
    qed
  next
    case 7
    have "2 * k \<noteq> p" "2 * k + 1 \<noteq> p" using 7(6) by linarith+
    moreover have "k div 2 \<noteq> c" using 7(4,5) by linarith
    moreover have "2 * k \<noteq> c" "2 * k + 1 \<noteq> c" using 7(1) p(3) by linarith+
    moreover have "k div 2 \<noteq> p"
    proof
      assume "k div 2 = p"
      then have "k = 2 * p \<or> k = 2 * p + 1" by linarith
      then show False using 7(2,3) c s by (auto split: if_splits)
    qed
    moreover have "swap_nodes (node_at P) p c s (2 * c) (2 * c + 1) (p div 2) a b k = node_at P k"
      unfolding at using 7 by simp
    ultimately show ?thesis using 7(1,2) by (simp add: node_at_def swapped_def)
  qed
qed

lemma relink_stores:
  assumes "stores (heap_mem h) P N" "placed P n" "P p = Some x"
  shows "\<exists>h'. relink h (P (p div 2)) a b = Inr h' \<and> nelts h' = nelts h \<and>
    heap_top h' = (if p = 1 then Some b else heap_top h) \<and>
    stores (heap_mem h') P (N(p div 2 := relinked a b (N (p div 2)))) \<and>
    (\<forall>x. x \<notin> ran P \<longrightarrow> heap_mem h' x = heap_mem h x)"
proof (cases "P (p div 2)")
  case None
  have "1 \<le> p" "p \<le> n" using placed_le [OF assms(2,3)] by simp_all
  moreover from this have "p div 2 \<le> n" by linarith
  ultimately have "p = 1" using None placed_Some [OF assms(2), of "p div 2"]
    by (cases "2 \<le> p") (simp_all add: div_greater_zero_iff Suc_le_eq)
  moreover have "stores (heap_mem h) P (N(p div 2 := relinked a b (N (p div 2))))"
    using assms(1) None by (auto simp: stores_def)
  ultimately show ?thesis using None by (simp add: relink_def)
next
  case (Some u)
  then have "p \<noteq> 1" using placed_0 [OF assms(2)] by auto
  moreover from upd_node_stores [OF assms(1,2) Some, of "relinked a b"]
  obtain h' where "upd_node h u (relinked a b) = Inr h'" "rewired h h' P (N(p div 2 := relinked a b (N (p div 2))))"
    by blast
  ultimately show ?thesis using Some by (auto simp: relink_def rewired_def)
qed

text \<open>Swapping two neighbours in the pointer structure swaps them in the layout.\<close>

lemma heap_node_swap_repr:
  assumes repr: "heap_repr h P" and p: "P p = Some a" "P c = Some b" "c div 2 = p"
  shows "\<exists>h'. heap_node_swap h a b = Inr h' \<and> heap_repr h' (swapped P p c) \<and> nelts h' = nelts h \<and>
    (\<forall>x. x \<notin> ran P \<longrightarrow> heap_mem h' x = heap_mem h x)"
proof -
  define s where "s = (if c = 2 * p then 2 * p + 1 else 2 * p)"
  define N1 where "N1 = (node_at P)(p := (node_at P c)\<lparr>h_parent := Some b\<rparr>)"
  define N2 where "N2 = N1(c := relinked b a (node_at P p))"
  define N3 where "N3 = N2(s := (N2 s)\<lparr>h_parent := Some b\<rparr>)"
  define N4 where "N4 = N3(2 * c := (N3 (2 * c))\<lparr>h_parent := Some a\<rparr>)"
  define N5 where "N5 = N4(2 * c + 1 := (N4 (2 * c + 1))\<lparr>h_parent := Some a\<rparr>)"
  define N6 where "N6 = N5(p div 2 := relinked a b (N5 (p div 2)))"
  from repr have pl: "placed P (unat (nelts h))" and top: "heap_top h = P 1" and st: "stores (heap_mem h) P (node_at P)"
    by (simp_all add: heap_repr_def)
  have p1: "1 \<le> p" using placed_le [OF pl p(1)] by simp
  have c: "c = 2 * p \<or> c = 2 * p + 1" using p(3) by linarith
  have isb: "h_left (node_at P p) = Some b \<longleftrightarrow> c = 2 * p"
    using placed_at [OF pl p(2), of "2 * p"] unfolding node_at_def heap_node.simps by (simp only: eq_commute [of c])
  have sib: "(if h_left (node_at P p) = Some b then h_right (node_at P p) else h_left (node_at P p)) = P s"
    unfolding isb s_def by (simp add: node_at_def)
  have fields: "h_left (node_at P c) = P (2 * c)" "h_right (node_at P c) = P (2 * c + 1)" "h_parent (node_at P p) = P (p div 2)"
    by (simp_all add: node_at_def)
  obtain h1 where h1: "upd_node h a (\<lambda>_. (node_at P c)\<lparr>h_parent := Some b\<rparr>) = Inr h1" "rewired h h1 P N1"
    using upd_node_stores [OF st pl p(1), of "\<lambda>_. (node_at P c)\<lparr>h_parent := Some b\<rparr>"] unfolding N1_def by blast
  obtain h2 where h2: "upd_node h1 b (\<lambda>_. relinked b a (node_at P p)) = Inr h2" "rewired h1 h2 P N2"
    using upd_node_stores [OF rewired_stores [OF h1(2)] pl p(2), of "\<lambda>_. relinked b a (node_at P p)"] unfolding N2_def by blast
  obtain h3 where h3: "set_parent h2 (P s) b = Inr h3" "rewired h2 h3 P N3"
    using set_parent_stores [OF rewired_stores [OF h2(2)] pl, of s b] unfolding N3_def by blast
  obtain h4 where h4: "set_parent h3 (P (2 * c)) a = Inr h4" "rewired h3 h4 P N4"
    using set_parent_stores [OF rewired_stores [OF h3(2)] pl, of "2 * c" a] unfolding N4_def by blast
  obtain h5 where h5: "set_parent h4 (P (2 * c + 1)) a = Inr h5" "rewired h4 h5 P N5"
    using set_parent_stores [OF rewired_stores [OF h4(2)] pl, of "2 * c + 1" a] unfolding N5_def by blast
  have r: "rewired h h5 P N5"
    by (rule rewired_trans [OF rewired_trans [OF rewired_trans [OF rewired_trans [OF h1(2) h2(2)] h3(2)] h4(2)] h5(2)])
  obtain h6 where h6: "relink h5 (P (p div 2)) a b = Inr h6" "nelts h6 = nelts h5"
    "heap_top h6 = (if p = 1 then Some b else heap_top h5)" "stores (heap_mem h6) P N6"
    "\<forall>x. x \<notin> ran P \<longrightarrow> heap_mem h6 x = heap_mem h5 x"
    using relink_stores [OF rewired_stores [OF h5(2)] pl p(1), of a b] unfolding N6_def by blast
  have N: "N6 = swap_nodes (node_at P) p c s (2 * c) (2 * c + 1) (p div 2) a b"
    by (simp only: swap_nodes_def Let_def N1_def N2_def N3_def N4_def N5_def N6_def)
  have run: "heap_node_swap h a b = Inr h6"
    unfolding heap_node_swap_def
    by (simp only: get_node_stores [OF st p(1)] get_node_stores [OF st p(2)] h1(1) h2(1) sib h3(1) h4(1) h5(1) h6(1)
        fields res_bind_Inr)
  have "stores (heap_mem h6) (swapped P p c) (node_at (swapped P p c))"
    unfolding stores_def
  proof (intro allI impI)
    fix k x assume k: "swapped P p c k = Some x"
    let ?j = "if k = p then c else if k = c then p else k"
    have "P ?j = Some x" using k by (auto simp: swapped_def split: if_splits)
    from storesD [OF h6(4) this] show "heap_mem h6 x = Some (node_at (swapped P p c) k)"
      unfolding N swap_nodes_layout [OF pl p s_def k] .
  qed
  moreover have "heap_top h6 = swapped P p c 1"
  proof -
    have "c \<noteq> 1" using p(3) p1 by (cases "c = 1") simp_all
    then show ?thesis using h6(3) rewired_frame(2) [OF r] top p(2) by (cases "p = 1") (simp_all add: swapped_def)
  qed
  moreover have "nelts h6 = nelts h" using h6(2) rewired_frame(1) [OF r] by simp
  moreover have "\<forall>x. x \<notin> ran P \<longrightarrow> heap_mem h6 x = heap_mem h x"
    using h6(5) rewired_frame(3) [OF r] by simp
  ultimately show ?thesis
    using run placed_swapped [OF pl p(1,2)] by (simp add: heap_repr_def)
qed


section \<open>Walking to a position\<close>

text \<open>The position reached from position \<open>m\<close> by a path, and the reference that holds a position's node.\<close>

fun walk_pos :: "nat \<Rightarrow> u32 \<Rightarrow> nat \<Rightarrow> nat" where
  "walk_pos 0 path m = m"
| "walk_pos (Suc k) path m = walk_pos k (drop_bit 1 path) (if path AND 1 \<noteq> 0 then 2 * m + 1 else 2 * m)"

lemma walk_pos_le: "m \<le> walk_pos k path m"
proof (induction k arbitrary: path m)
  case (Suc k)
  have "(if path AND 1 \<noteq> 0 then 2 * m + 1 else 2 * m) \<le> walk_pos (Suc k) path m" using Suc.IH by simp
  then show ?case by (simp split: if_splits)
qed simp

lemma walk_pos_half: "m \<le> walk_pos (Suc k) path m div 2"
  using walk_pos_le [of "if path AND 1 \<noteq> 0 then 2 * m + 1 else 2 * m" k "drop_bit 1 path"] by (auto split: if_splits)

lemma path_bit:
  fixes path n :: u32
  assumes "unat path < 2 ^ 31"
  shows "drop_bit 1 (push_bit 1 path OR (n AND 1)) = path" "(push_bit 1 path OR (n AND 1)) AND 1 = n AND 1"
proof -
  have "take_bit 31 (unat path) = unat path" using assms by (rule take_bit_nat_eq_self)
  then have "\<not> bit (unat path) 31" by (metis bit_take_bit_iff less_irrefl)
  then have top: "\<not> bit path 31" by (simp add: bit_unsigned_iff)
  show "drop_bit 1 (push_bit 1 path OR (n AND 1)) = path"
  proof (rule bit_word_eqI)
    fix i assume "i < LENGTH(32)"
    then have i: "i < 32" by simp
    have "bit (drop_bit 1 (push_bit 1 path OR (n AND 1))) i \<longleftrightarrow> Suc i < 32 \<and> bit path i"
      using i by (simp only: bit_drop_bit_eq comp_def bit_or_iff bit_push_bit_iff bit_and_iff bit_1_iff)
         (simp add: bit_simps mult.commute [of path])
    then show "bit (drop_bit 1 (push_bit 1 path OR (n AND 1))) i \<longleftrightarrow> bit path i"
      using i top by (cases "i = 31") auto
  qed
  show "(push_bit 1 path OR (n AND 1)) AND 1 = n AND 1"
    by (rule bit_word_eqI) (auto simp: bit_simps bit_1_iff mult.commute [of path])
qed

lemma path_word:
  fixes path n :: u32
  assumes "unat path < 2 ^ 31" "unat path < 2 ^ k"
  shows "unat (push_bit 1 path OR (n AND 1)) < 2 ^ Suc k"
proof -
  let ?x = "push_bit 1 path OR (n AND 1)"
  have "unat (drop_bit 1 ?x) = unat ?x div 2" for x by (simp add: drop_bit_eq_div unat_div)
  then have "unat ?x div 2 < 2 ^ k" using assms(2) unfolding path_bit(1) [OF assms(1)] by simp
  then show ?thesis unfolding power_Suc by linarith
qed

lemma low_bit: "(n :: u32) AND 1 \<noteq> 0 \<longleftrightarrow> odd (unat n)"
proof -
  have "unat (n AND 1) = unat n mod 2" by (simp add: and_one_eq unat_mod)
  then show ?thesis by (metis odd_iff_mod_2_eq_one even_iff_mod_2_eq_zero unat_eq_zero zero_neq_one)
qed

declare heap_path.simps [simp del]

lemma heap_path_pos:
  assumes "heap_path n path k = (path', k')" "unat path < 2 ^ k" "unat n * 2 ^ k < 2 ^ 32" "n \<noteq> 0"
  shows "walk_pos k' path' 1 = walk_pos k path (unat n)"
  using assms
proof (induction n path k rule: heap_path.induct)
  case (1 n path k)
  show ?case
  proof (cases "n < 2")
    case True
    then have "n = 1" using 1(5) by (simp add: word_less_nat_alt word_unat_eq_iff)
    with True 1(2) show ?thesis by (simp add: heap_path.simps)
  next
    case False
    let ?p = "push_bit 1 path OR (n AND 1)"
    have n2: "2 \<le> unat n" using False by (simp add: word_less_nat_alt)
    have "2 * 2 ^ k \<le> unat n * 2 ^ k" using n2 by (rule mult_le_mono1)
    from le_less_trans [OF this 1(4)] have k: "2 ^ k < (2 :: nat) ^ 31" by simp
    then have small: "unat path < 2 ^ 31" using 1(3) by linarith
    have d: "unat (n div 2) = unat n div 2" by (simp add: unat_div)
    have "heap_path (n div 2) ?p (k + 1) = (path', k')" using 1(2) False by (subst (asm) heap_path.simps) simp
    moreover have "unat ?p < 2 ^ (k + 1)" using path_word [OF small 1(3)] by simp
    moreover have "unat (n div 2) * 2 ^ (k + 1) < 2 ^ 32"
    proof -
      have "unat n div 2 * 2 * 2 ^ k \<le> unat n * 2 ^ k" by (intro mult_le_mono1) simp
      from le_less_trans [OF this 1(4)] show ?thesis unfolding d by (simp add: ac_simps)
    qed
    moreover have "n div 2 \<noteq> 0" using n2 d by (metis div_greater_zero_iff less_irrefl unat_0 zero_less_numeral)
    ultimately have "walk_pos k' path' 1 = walk_pos (k + 1) ?p (unat (n div 2))" using 1(1) [OF False] by blast
    also have "\<dots> = walk_pos k path (if n AND 1 \<noteq> 0 then 2 * (unat n div 2) + 1 else 2 * (unat n div 2))"
      by (simp only: Suc_eq_plus1 [symmetric] walk_pos.simps path_bit [OF small] d)
    also have "(if n AND 1 \<noteq> 0 then 2 * (unat n div 2) + 1 else 2 * (unat n div 2)) = unat n"
      unfolding low_bit by simp
    finally show ?thesis .
  qed
qed

text \<open>The path computed for a number leads from the root to the position of that number.\<close>

lemma heap_path_to:
  assumes "n \<noteq> 0"
  obtains path k where "heap_path n 0 0 = (path, k)" "walk_pos k path 1 = unat n"
proof -
  obtain path k where hp: "heap_path n 0 0 = (path, k)" by fastforce
  moreover have "walk_pos k path 1 = unat n"
    using heap_path_pos [OF hp] assms unat_lt_32 [of n] by simp
  ultimately show ?thesis ..
qed

definition ref_at :: "layout \<Rightarrow> nat \<Rightarrow> node_ref" where
  "ref_at P k = (if k = 1 then MinRef else if even k then LeftRef (the (P (k div 2))) else RightRef (the (P (k div 2))))"

lemma deref_at:
  assumes "heap_repr h P" "1 \<le> k" "k div 2 \<le> unat (nelts h)"
  shows "deref h (ref_at P k) = Inr (P k)"
proof (cases "k = 1")
  case True
  with assms(1) show ?thesis by (simp add: ref_at_def deref_def heap_repr_def)
next
  case False
  from assms(1) have pl: "placed P (unat (nelts h))" and st: "stores (heap_mem h) P (node_at P)" by (simp_all add: heap_repr_def)
  from False assms(2) have "1 \<le> k div 2" by linarith
  then obtain a where a: "P (k div 2) = Some a" using placed_Some [OF pl] assms(3) by blast
  have "2 * (k div 2) = k" if "even k" using that by simp
  moreover have "Suc (2 * (k div 2)) = k" if "odd k" using that by simp
  ultimately show ?thesis
    using False get_node_stores [OF st a] by (cases "even k") (simp_all add: ref_at_def deref_def a node_at_def)
qed

lemma heap_walk_at:
  assumes "heap_repr h P" "1 \<le> m" "walk_pos k path m div 2 \<le> unat (nelts h)"
  shows "heap_walk h k path pr (ref_at P m) =
    Inr (if k = 0 then pr else ref_at P (walk_pos k path m div 2), ref_at P (walk_pos k path m))"
  using assms(2,3)
proof (induction k arbitrary: path m pr)
  case (Suc k)
  let ?m = "if path AND 1 \<noteq> 0 then 2 * m + 1 else 2 * m"
  from assms(1) have pl: "placed P (unat (nelts h))" by (simp add: heap_repr_def)
  have mh: "m \<le> unat (nelts h)" using walk_pos_half [of m k path] Suc.prems(2) by linarith
  then obtain a where a: "P m = Some a" using placed_Some [OF pl Suc.prems(1)] by blast
  have d: "deref h (ref_at P m) = Inr (Some a)"
    using deref_at [OF assms(1) Suc.prems(1)] mh a by simp
  have r: "(if path AND 1 \<noteq> 0 then RightRef a else LeftRef a) = ref_at P ?m"
    using a Suc.prems(1) by (simp add: ref_at_def)
  have "walk_pos k (drop_bit 1 path) ?m = walk_pos (Suc k) path m" by simp
  moreover have "1 \<le> ?m" using Suc.prems(1) by simp
  ultimately have IH: "heap_walk h k (drop_bit 1 path) (ref_at P m) (ref_at P ?m) =
      Inr (if k = 0 then ref_at P m else ref_at P (walk_pos (Suc k) path m div 2), ref_at P (walk_pos (Suc k) path m))"
    using Suc.IH [of ?m "drop_bit 1 path" "ref_at P m"] Suc.prems(2) by (simp only:)
  have "walk_pos (Suc k) path m div 2 = m" if "k = 0" using that by simp
  then show ?case using IH by (simp only: heap_walk.simps d res_bind_Inr option.simps r) (simp del: walk_pos.simps)
qed simp

section \<open>Order\<close>

definition above :: "(nat \<Rightarrow> nat \<Rightarrow> bool) \<Rightarrow> layout \<Rightarrow> nat \<Rightarrow> bool" where
  "above lt P k \<longleftrightarrow> (\<forall>a b. P k = Some a \<longrightarrow> P (k div 2) = Some b \<longrightarrow> \<not> lt a b)"

text \<open>The children of position \<open>k\<close> are in order with the node above \<open>k\<close>.\<close>

definition skips :: "(nat \<Rightarrow> nat \<Rightarrow> bool) \<Rightarrow> layout \<Rightarrow> nat \<Rightarrow> bool" where
  "skips lt P k \<longleftrightarrow> (\<forall>j a b. j div 2 = k \<longrightarrow> P j = Some a \<longrightarrow> P (k div 2) = Some b \<longrightarrow> \<not> lt a b)"

definition heap_ordered :: "(nat \<Rightarrow> nat \<Rightarrow> bool) \<Rightarrow> layout \<Rightarrow> bool" where
  "heap_ordered lt P \<longleftrightarrow> (\<forall>k. above lt P k)"

text \<open>In order except between position \<open>k\<close> and the node above, or except around position \<open>k\<close>.\<close>

definition up_ok :: "(nat \<Rightarrow> nat \<Rightarrow> bool) \<Rightarrow> layout \<Rightarrow> nat \<Rightarrow> bool" where
  "up_ok lt P k \<longleftrightarrow> (\<forall>j. j \<noteq> k \<longrightarrow> above lt P j) \<and> skips lt P k"

definition around_ok :: "(nat \<Rightarrow> nat \<Rightarrow> bool) \<Rightarrow> layout \<Rightarrow> nat \<Rightarrow> bool" where
  "around_ok lt P k \<longleftrightarrow> (\<forall>j. j \<noteq> k \<longrightarrow> j div 2 \<noteq> k \<longrightarrow> above lt P j) \<and> skips lt P k"

lemma aboveD: "above lt P k \<Longrightarrow> P k = Some a \<Longrightarrow> P (k div 2) = Some b \<Longrightarrow> \<not> lt a b"
  by (simp add: above_def)

lemma skipsD: "skips lt P k \<Longrightarrow> j div 2 = k \<Longrightarrow> P j = Some a \<Longrightarrow> P (k div 2) = Some b \<Longrightarrow> \<not> lt a b"
  unfolding skips_def by blast

lemma above_cong: "P k = P' k \<Longrightarrow> P (k div 2) = P' (k div 2) \<Longrightarrow> above lt P k \<longleftrightarrow> above lt P' k"
  by (simp add: above_def)

lemma swapped_at [simp]:
  "j \<noteq> k \<Longrightarrow> swapped P j k j = P k" "swapped P j k k = P j" "i \<noteq> j \<Longrightarrow> i \<noteq> k \<Longrightarrow> swapped P j k i = P i"
  by (simp_all add: swapped_def)

text \<open>What a heap needs of its comparison: the negation of a total preorder.\<close>

locale heap_order =
  fixes lt :: "nat \<Rightarrow> nat \<Rightarrow> bool"
  assumes asym: "lt a b \<Longrightarrow> \<not> lt b a"
    and not_lt_trans: "\<not> lt a b \<Longrightarrow> \<not> lt b c \<Longrightarrow> \<not> lt a c"
begin

lemma up_step:
  assumes pl: "placed P n" and ok: "up_ok lt P k" and k: "P k = Some a" "P (k div 2) = Some b" "lt a b"
  shows "up_ok lt (swapped P (k div 2) k) (k div 2)"
proof -
  define p where "p = k div 2"
  let ?P = "swapped P p k"
  have p1: "1 \<le> p" using placed_le [OF pl k(2)] by (simp add: p_def)
  then have pk: "p \<noteq> k" "p div 2 \<noteq> p" "p div 2 \<noteq> k" unfolding p_def by linarith+
  have ab: "above lt P j" if "j \<noteq> k" for j using ok that by (simp add: up_ok_def)
  have at: "?P p = Some a" "?P k = Some b" "P p = Some b" using k pk(1) by (simp_all add: p_def)
  have ba: "\<not> lt b a" by (rule asym [OF k(3)])
  have "above lt ?P j" if "j \<noteq> p" for j
  proof (cases "j = k")
    case True
    then show ?thesis using ba at by (simp add: above_def flip: p_def)
  next
    case jk: False
    have j: "?P j = P j" using that jk by simp
    consider "j div 2 = p" | "j div 2 = k" | "j div 2 \<noteq> p" "j div 2 \<noteq> k" by blast
    then show ?thesis
    proof cases
      case 1
      show ?thesis unfolding above_def j 1 at
        using aboveD [OF ab [OF jk]] not_lt_trans [OF _ ba] 1 at(3) by auto
    next
      case 2
      show ?thesis unfolding above_def j 2 at
        using ok skipsD [of lt P k j] 2 k(2) by (auto simp: up_ok_def)
    next
      case 3
      then show ?thesis using ab [OF jk] above_cong [of P j ?P] j by simp
    qed
  qed
  moreover have "skips lt ?P p"
    unfolding skips_def
  proof (intro allI impI)
    fix j x y assume j: "j div 2 = p" "?P j = Some x" "?P (p div 2) = Some y"
    have y: "P (p div 2) = Some y" using j(3) pk by simp
    then have by': "\<not> lt b y" using aboveD [OF ab [OF pk(1)] at(3)] by blast
    have "j \<noteq> p" using j(1) p1 by (cases "j = p") simp_all
    show "\<not> lt x y"
    proof (cases "j = k")
      case True
      then show ?thesis using j(2) at by' by simp
    next
      case False
      then have "\<not> lt x b" using aboveD [OF ab [OF False], of x b] j(1,2) at(3) \<open>j \<noteq> p\<close> by simp
      then show ?thesis using by' by (rule not_lt_trans)
    qed
  qed
  ultimately show ?thesis unfolding up_ok_def p_def by blast
qed

lemma down_step:
  assumes pl: "placed P n" and ok: "around_ok lt P k" and k: "P k = Some x" "P c = Some s" "c div 2 = k" "lt s x"
    and small: "\<And>j z. j div 2 = k \<Longrightarrow> P j = Some z \<Longrightarrow> \<not> lt z s"
  shows "around_ok lt (swapped P k c) c"
proof -
  let ?P = "swapped P k c"
  have k1: "1 \<le> k" using placed_le [OF pl k(1)] by simp
  have ck: "c \<noteq> k" "k div 2 \<noteq> k" "k div 2 \<noteq> c" using k1 k(3) by linarith+
  have at: "?P k = Some s" "?P c = Some x" using k ck by simp_all
  have "above lt ?P j" if j: "j \<noteq> c" "j div 2 \<noteq> c" for j
  proof (cases "j = k")
    case True
    show ?thesis
      using ok skipsD [of lt P k c s] k(2,3) at ck unfolding True above_def around_ok_def by auto
  next
    case False
    show ?thesis
    proof (cases "j div 2 = k")
      case True
      then show ?thesis using small [OF True] at j False by (simp add: above_def)
    next
      case jk: False
      have "above lt P j" using ok False jk by (simp add: around_ok_def)
      then show ?thesis using above_cong [of P j ?P] j False jk by simp
    qed
  qed
  moreover have "skips lt ?P c"
    unfolding skips_def
  proof (intro allI impI)
    fix j z y assume j: "j div 2 = c" "?P j = Some z" "?P (c div 2) = Some y"
    have "j \<noteq> k" "j \<noteq> c" using j(1) k(3) k1 by linarith+
    then have "P j = Some z" "above lt P j" using j ok ck k(3) by (simp_all add: around_ok_def)
    moreover have "y = s" using j(3) k(3) at(1) by simp
    ultimately show "\<not> lt z y" using j(1) k(2) aboveD [of lt P j z s] by simp
  qed
  ultimately show ?thesis unfolding around_ok_def by blast
qed

end

section \<open>The loops\<close>

text \<open>
  What a step on the heap keeps: the number of nodes, the nodes in it, and everything outside.
\<close>

definition same_nodes :: "uv_heap \<Rightarrow> uv_heap \<Rightarrow> nat set \<Rightarrow> bool" where
  "same_nodes h h' S \<longleftrightarrow> nelts h' = nelts h \<and> (\<forall>x. x \<notin> S \<longrightarrow> heap_mem h' x = heap_mem h x)"

lemma same_nodes_refl: "same_nodes h h S"
  by (simp add: same_nodes_def)

lemma same_nodes_trans: "same_nodes h h1 S \<Longrightarrow> same_nodes h1 h2 S \<Longrightarrow> same_nodes h h2 S"
  by (simp add: same_nodes_def)

lemma swap_run:
  assumes "heap_repr h P" "P p = Some a" "P c = Some b" "c div 2 = p"
  obtains h' where "heap_node_swap h a b = Inr h'" "heap_repr h' (swapped P p c)" "same_nodes h h' (ran P)"
  using heap_node_swap_repr [OF assms] unfolding same_nodes_def by blast

lemma repr_node: "heap_repr h P \<Longrightarrow> P k = Some a \<Longrightarrow> get_node h a = Inr (node_at P k)"
  unfolding heap_repr_def using get_node_stores by blast

lemma repr_placed: "heap_repr h P \<Longrightarrow> placed P (unat (nelts h))"
  by (simp add: heap_repr_def)

lemma heap_smaller_cases:
  assumes "heap_smaller lt q x = y"
  shows "(y = x \<and> (\<forall>z. q = Some z \<longrightarrow> \<not> lt z x)) \<or> (q = Some y \<and> lt y x)"
  using assms by (auto simp: heap_smaller_def split: option.splits if_splits)

context heap_order
begin

lemma heap_up_run:
  assumes "heap_repr h P" "P k = Some a" "up_ok lt P k" "k \<le> rounds"
  shows "\<exists>h' P'. heap_up lt rounds h a = Inr h' \<and> heap_repr h' P' \<and> heap_ordered lt P' \<and> ran P' = ran P \<and>
    same_nodes h h' (ran P)"
  using assms
proof (induction rounds arbitrary: h P k)
  case 0
  then show ?case using placed_le [OF repr_placed] by fastforce
next
  case (Suc rounds)
  note pl = repr_placed [OF Suc.prems(1)]
  have get: "get_node h a = Inr (node_at P k)" by (rule repr_node [OF Suc.prems(1,2)])
  have par: "h_parent (node_at P k) = P (k div 2)" by (simp add: node_at_def)
  have stop: "heap_ordered lt P" if "above lt P k"
    using that Suc.prems(3) unfolding heap_ordered_def up_ok_def by metis
  show ?case
  proof (cases "P (k div 2)")
    case None
    then have "above lt P k" by (simp add: above_def)
    with stop None Suc.prems(1) get par show ?thesis by (auto intro: same_nodes_refl)
  next
    case (Some b)
    show ?thesis
    proof (cases "lt a b")
      case False
      then have "above lt P k" using Some Suc.prems(2) by (simp add: above_def)
      with stop Some False Suc.prems(1) get par show ?thesis by (auto intro: same_nodes_refl)
    next
      case True
      obtain h1 where h1: "heap_node_swap h b a = Inr h1" "heap_repr h1 (swapped P (k div 2) k)" "same_nodes h h1 (ran P)"
        by (rule swap_run [OF Suc.prems(1) Some Suc.prems(2) refl])
      have "1 \<le> k div 2" using placed_le [OF pl Some] by simp
      then have kk: "k div 2 \<noteq> k" "k div 2 \<le> rounds" using Suc.prems(4) by linarith+
      have "swapped P (k div 2) k (k div 2) = Some a" using kk(1) Suc.prems(2) by simp
      from Suc.IH [OF h1(2) this up_step [OF pl Suc.prems(3,2) Some True] kk(2)]
      obtain h' P' where "heap_up lt rounds h1 a = Inr h'" "heap_repr h' P'" "heap_ordered lt P'" "ran P' = ran P"
        "same_nodes h1 h' (ran P)" unfolding ran_swapped by blast
      then show ?thesis using get par Some True h1(1,3) by (auto intro: same_nodes_trans)
    qed
  qed
qed

lemma heap_down_run:
  assumes "heap_repr h P" "P k = Some x" "around_ok lt P k" "unat (nelts h) < rounds + k" "0 < rounds"
  shows "\<exists>h' P' k'. heap_down lt rounds h x = Inr h' \<and> heap_repr h' P' \<and> P' k' = Some x \<and> up_ok lt P' k' \<and>
    ran P' = ran P \<and> same_nodes h h' (ran P)"
  using assms
proof (induction rounds arbitrary: h P k)
  case (Suc rounds)
  note pl = repr_placed [OF Suc.prems(1)]
  have k1: "1 \<le> k" using placed_le [OF pl Suc.prems(2)] by simp
  have get: "get_node h x = Inr (node_at P k)" by (rule repr_node [OF Suc.prems(1,2)])
  have ch: "h_left (node_at P k) = P (2 * k)" "h_right (node_at P k) = P (2 * k + 1)" by (simp_all add: node_at_def)
  define l where "l = heap_smaller lt (P (2 * k)) x"
  define s where "s = heap_smaller lt (P (2 * k + 1)) l"
  have half: "j = 2 * k \<or> j = 2 * k + 1" if "j div 2 = k" for j using that by linarith
  note L = heap_smaller_cases [OF l_def [symmetric]] and S = heap_smaller_cases [OF s_def [symmetric]]
  have run: "heap_down lt (Suc rounds) h x =
      (if s = x then Inr h else res_bind (heap_node_swap h x s) (\<lambda>h'. heap_down lt rounds h' x))"
    by (simp add: get ch Let_def del: One_nat_def) (simp add: s_def l_def)
  show ?case
  proof (cases "s = x")
    case True
    have xx: "\<not> lt x x" using asym by blast
    have nolt: "\<not> lt z x" if "P (2 * k) = Some z \<or> P (2 * k + 1) = Some z" for z
      using that L S True xx asym by auto
    have "above lt P j" if "j \<noteq> k" for j
    proof (cases "j div 2 = k")
      case jk: True
      then show ?thesis using nolt half [OF jk] Suc.prems(2) by (auto simp: above_def)
    next
      case False
      with that Suc.prems(3) show ?thesis by (simp add: around_ok_def)
    qed
    then have "up_ok lt P k" using Suc.prems(3) by (simp add: up_ok_def around_ok_def)
    with True run Suc.prems(1,2) show ?thesis by (auto intro: same_nodes_refl)
  next
    case False
    have small: "\<not> lt z s" if "j div 2 = k" "P j = Some z" for j z
    proof -
      have ss: "\<not> lt s s" using asym by blast
      from half [OF that(1)] show ?thesis
      proof
        assume j: "j = 2 * k"
        have "\<not> lt z l" using L that(2) j asym by auto
        moreover have "\<not> lt l s" using S asym ss by auto
        ultimately show ?thesis by (rule not_lt_trans)
      next
        assume "j = 2 * k + 1"
        then show ?thesis using S that(2) ss by auto
      qed
    qed
    have "lt s x \<and> (P (2 * k) = Some s \<or> P (2 * k + 1) = Some s)"
    proof (cases "s = l")
      case True
      then show ?thesis using L False by auto
    next
      case sl: False
      then have sr: "P (2 * k + 1) = Some s" "lt s l" using S by auto
      have "lt s x"
      proof (cases "l = x")
        case False
        then have "\<not> lt x l" using L asym by auto
        show ?thesis
        proof (rule ccontr)
          assume "\<not> lt s x"
          from not_lt_trans [OF this \<open>\<not> lt x l\<close>] sr(2) show False by blast
        qed
      qed (use sr in simp)
      with sr show ?thesis by blast
    qed
    then obtain c where c: "lt s x" "P c = Some s" "c div 2 = k" by fastforce
    then have kc: "k < c" using k1 by linarith
    obtain h1 where h1: "heap_node_swap h x s = Inr h1" "heap_repr h1 (swapped P k c)" "same_nodes h h1 (ran P)"
      by (rule swap_run [OF Suc.prems(1,2) c(2,3)])
    have n1: "nelts h1 = nelts h" using h1(3) by (simp add: same_nodes_def)
    have cn: "c \<le> unat (nelts h)" using placed_le [OF pl c(2)] by simp
    have sx: "swapped P k c c = Some x" using Suc.prems(2) by simp
    have ok: "around_ok lt (swapped P k c) c"
      using small by (intro down_step [OF pl Suc.prems(3,2) c(2,3,1)])
    have "unat (nelts h1) < rounds + c" "0 < rounds" using kc cn Suc.prems(4) unfolding n1 by linarith+
    from Suc.IH [OF h1(2) sx ok this]
    obtain h' P' k' where "heap_down lt rounds h1 x = Inr h'" "heap_repr h' P'" "P' k' = Some x" "up_ok lt P' k'"
      "ran P' = ran P" "same_nodes h1 h' (ran P)"
      unfolding ran_swapped by blast
    then show ?thesis using run False h1(1,3) by (auto intro: same_nodes_trans)
  qed
qed simp

end

section \<open>Insertion\<close>

lemma stores_upd_other:
  assumes "stores m P N" "a \<notin> ran P" "\<And>j. j \<noteq> k \<Longrightarrow> P' j = P j" "P' k = Some a"
    "N' k = x" "\<And>j. j \<noteq> k \<Longrightarrow> P j \<noteq> None \<Longrightarrow> N' j = N j"
  shows "stores (m(a \<mapsto> x)) P' N'"
  unfolding stores_def
proof (intro allI impI)
  fix j b assume j: "P' j = Some b"
  show "(m(a \<mapsto> x)) b = Some (N' j)"
  proof (cases "j = k")
    case False
    then have Pj: "P j = Some b" using j assms(3) by simp
    moreover from this have "b \<noteq> a" using assms(2) by (auto simp: ran_def)
    moreover have "N' j = N j" using assms(6) [OF False] Pj by simp
    ultimately show ?thesis using storesD [OF assms(1)] by simp
  qed (use j assms(4,5) in simp)
qed

lemma placed_new:
  assumes "placed P n" "a \<notin> ran P"
  shows "placed (P(Suc n \<mapsto> a)) (Suc n)" "P (Suc n) = None"
proof -
  show "P (Suc n) = None" using placed_le [OF assms(1), of "Suc n"] by (cases "P (Suc n)") auto
  have "dom (P(Suc n \<mapsto> a)) = {1..Suc n}" using assms(1) by (auto simp: placed_def)
  moreover have "inj_on (P(Suc n \<mapsto> a)) (dom (P(Suc n \<mapsto> a)))"
  proof (rule inj_onI)
    fix i j assume i: "i \<in> dom (P(Suc n \<mapsto> a))" and e: "(P(Suc n \<mapsto> a)) i = (P(Suc n \<mapsto> a)) j"
    then show "i = j" using assms placed_inj [OF assms(1), of i _ j] by (auto simp: ran_def split: if_splits) metis+
  qed
  ultimately show "placed (P(Suc n \<mapsto> a)) (Suc n)" by (simp add: placed_def)
qed

lemma placed_None: "placed P n \<Longrightarrow> n < k \<Longrightarrow> P k = None"
  using placed_le [of P n k] by (cases "P k") auto

lemma stores_cong: "(\<And>k. P k \<noteq> None \<Longrightarrow> N k = N' k) \<Longrightarrow> stores m P N = stores m P N'"
  unfolding stores_def by (metis option.distinct(1))

text \<open>Changing what the reference to a position without children holds.\<close>

lemma assign_at:
  assumes pl: "placed P n" and st: "stores (heap_mem h) P (node_at P)" and top: "heap_top h = P 1"
    and k: "1 \<le> k" "k div 2 \<le> n" "n < 2 * k"
  shows "\<exists>h'. assign h (ref_at P k) v = Inr h' \<and> nelts h' = nelts h \<and> heap_top h' = (P(k := v)) 1 \<and>
    stores (heap_mem h') P (node_at (P(k := v))) \<and> (\<forall>x. x \<notin> ran P \<longrightarrow> heap_mem h' x = heap_mem h x)"
proof -
  have nochild: "j div 2 \<noteq> k" if "P j \<noteq> None" for j using that placed_le [OF pl, of j] k(3) by auto
  show ?thesis
  proof (cases "k = 1")
    case True
    have "stores (heap_mem h) P (node_at (P(1 := v)))"
    proof (subst stores_cong)
      fix j assume "P j \<noteq> None"
      then have "j div 2 \<noteq> 1" "1 \<le> j" using nochild True placed_le [OF pl, of j] by auto
      then show "node_at (P(1 := v)) j = node_at P j" by (simp add: node_at_def)
    qed (rule st)
    with True show ?thesis by (simp add: assign_def ref_at_def)
  next
    case False
    define p where "p = k div 2"
    have p1: "1 \<le> p" using False k(1) unfolding p_def by linarith
    then obtain b where b: "P p = Some b" using placed_Some [OF pl] k(2) p_def by blast
    define f :: "heap_node \<Rightarrow> heap_node" where "f = (if even k then h_left_update (\<lambda>_. v) else h_right_update (\<lambda>_. v))"
    have run: "assign h (ref_at P k) v = upd_node h b f"
      using False b by (simp add: assign_def ref_at_def f_def p_def)
    obtain h' where h': "upd_node h b f = Inr h'" "rewired h h' P ((node_at P)(p := f (node_at P p)))"
      using upd_node_stores [OF st pl b] by blast
    have "stores (heap_mem h') P (node_at (P(k := v)))"
    proof (subst stores_cong)
      fix j assume j: "P j \<noteq> None"
      show "node_at (P(k := v)) j = ((node_at P)(p := f (node_at P p))) j"
      proof (cases "j = p")
        case True
        have "p div 2 \<noteq> k" unfolding p_def using k(1) by linarith
        moreover have "even k \<Longrightarrow> 2 * p = k" "odd k \<Longrightarrow> Suc (2 * p) = k" unfolding p_def by simp_all
        moreover have "2 * p \<noteq> Suc (2 * p)" by simp
        ultimately show ?thesis using True by (cases "even k") (auto simp: node_at_def f_def)
      next
        case False
        then have "2 * j \<noteq> k" "2 * j + 1 \<noteq> k" unfolding p_def by linarith+
        then show ?thesis using False nochild [OF j] by (simp add: node_at_def)
      qed
    qed (rule rewired_stores [OF h'(2)])
    then show ?thesis using run h'(1) rewired_frame [OF h'(2)] top False by simp
  qed
qed

lemma insert_link:
  assumes repr: "heap_repr h P" and new: "a \<notin> ran P" "heap_mem h a \<noteq> None" and n: "unat (nelts h) < 2 ^ 32 - 1"
  shows "\<exists>h'. heap_insert lt h a = heap_up lt (Suc (unat (nelts h))) h' a \<and>
    heap_repr h' (P(Suc (unat (nelts h)) \<mapsto> a)) \<and> nelts h' = nelts h + 1 \<and>
    (\<forall>x. x \<notin> insert a (ran P) \<longrightarrow> heap_mem h' x = heap_mem h x)"
proof -
  define n where "n = unat (nelts h)"
  define P' where "P' = P(Suc n \<mapsto> a)"
  define h1 where "h1 = h\<lparr>heap_mem := (heap_mem h)(a \<mapsto> \<lparr>h_left = None, h_right = None, h_parent = None\<rparr>)\<rparr>"
  have N: "unat (1 + nelts h) = Suc n" using n unfolding n_def by (simp add: unat_word_ariths)
  then have N0: "1 + nelts h \<noteq> 0" by (metis nat.distinct(1) unat_0)
  have ne: "b \<noteq> a" if "P j = Some b" for j b using that new(1) by (auto simp: ran_def)
  have pl: "placed P n" using repr by (simp add: heap_repr_def n_def)
  have repr1: "heap_repr h1 P" using repr ne by (auto simp: heap_repr_def h1_def stores_def)
  have up1: "upd_node h a (\<lambda>_. \<lparr>h_left = None, h_right = None, h_parent = None\<rparr>) = Inr h1"
    using new(2) by (auto simp: upd_node_def get_node_def h1_def)
  obtain path k where path: "heap_path (1 + nelts h) 0 0 = (path, k)" "walk_pos k path 1 = Suc n"
    using heap_path_to [OF N0] N by metis
  have half: "Suc n div 2 \<le> n" by linarith
  define pr where "pr = (if k = 0 then MinRef else ref_at P (Suc n div 2))"
  have min: "ref_at P 1 = MinRef" by (simp add: ref_at_def)
  have n1: "unat (nelts h1) = n" by (simp add: h1_def n_def)
  have walk: "heap_walk h1 k path MinRef MinRef = Inr (pr, ref_at P (Suc n))"
    using heap_walk_at [OF repr1, of 1 k path MinRef] half unfolding path(2) min n1 pr_def by simp
  have dp: "deref h1 pr = Inr (P (Suc n div 2))"
  proof (cases "k = 0")
    case True
    then have "n = 0" using path(2) by simp
    then show ?thesis using True placed_0 [OF pl] placed_new(2) [OF pl new(1)] repr1
      by (simp add: pr_def deref_def heap_repr_def)
  next
    case False
    then have "1 \<le> Suc n div 2" using walk_pos_half [of 1 "k - 1" path] path(2) by simp
    moreover from half have "Suc n div 2 div 2 \<le> unat (nelts h1)" unfolding n1 by linarith
    ultimately show ?thesis using False deref_at [OF repr1] by (simp add: pr_def)
  qed
  define h2 where "h2 = h1\<lparr>heap_mem := (heap_mem h1)(a \<mapsto> \<lparr>h_left = None, h_right = None, h_parent = P (Suc n div 2)\<rparr>)\<rparr>"
  have up2: "upd_node h1 a (h_parent_update (\<lambda>_. P (Suc n div 2))) = Inr h2"
    by (simp add: upd_node_def get_node_def h1_def h2_def)
  have st2: "stores (heap_mem h2) P (node_at P)" using repr1 ne by (auto simp: heap_repr_def h2_def stores_def)
  have top2: "heap_top h2 = P 1" using repr1 by (simp add: heap_repr_def h2_def)
  from assign_at [OF pl st2 top2, of "Suc n" "Some a"] half
  obtain h3 where h3: "assign h2 (ref_at P (Suc n)) (Some a) = Inr h3" "nelts h3 = nelts h2" "heap_top h3 = P' 1"
    "stores (heap_mem h3) P (node_at P')" "\<forall>x. x \<notin> ran P \<longrightarrow> heap_mem h3 x = heap_mem h2 x" unfolding P'_def by auto
  have n3: "nelts h3 = nelts h" using h3(2) by (simp add: h2_def h1_def)
  let ?h = "h3\<lparr>nelts := nelts h + 1\<rparr>"
  have none: "P' (2 * Suc n) = None" "P' (2 * Suc n + 1) = None"
    unfolding P'_def by (simp_all add: placed_None [OF pl])
  have "heap_mem h3 a = Some (node_at P' (Suc n))"
    using h3(5) new(1) none half by (simp add: h2_def node_at_def P'_def)
  then have "stores (heap_mem ?h) P' (node_at P')" using h3(4) unfolding stores_def P'_def by simp
  moreover have "unat (nelts h + 1) = Suc n" using N by (simp add: add.commute)
  ultimately have "heap_repr ?h P'"
    using h3(3) placed_new(1) [OF pl new(1)] unfolding heap_repr_def P'_def by simp
  moreover have "heap_insert lt h a = heap_up lt (Suc n) ?h a"
  proof -
    have "nelts h1 = nelts h" by (simp add: h1_def)
    then show ?thesis
      using N unfolding heap_insert_def up1 res_bind_Inr
      by (simp add: path(1) walk dp up2 h3(1) n3 add.commute)
  qed
  moreover have "\<forall>x. x \<notin> insert a (ran P) \<longrightarrow> heap_mem ?h x = heap_mem h x"
    using h3(5) by (simp add: h2_def h1_def)
  ultimately show ?thesis unfolding P'_def n_def by (intro exI [of _ ?h]) simp
qed

section \<open>Removal\<close>

lemma unat_minus_one_32: "1 \<le> unat (x :: u32) \<Longrightarrow> unat (x - 1) = unat x - 1"
  by (simp add: unat_sub word_le_nat_alt)

lemma placed_drop:
  assumes "placed P n" "1 \<le> n"
  shows "placed (P(n := None)) (n - 1)"
proof -
  have "dom P = {1..n}" using assms(1) by (simp add: placed_def)
  moreover have "{1..n} - {n} = {1..n - 1}" using assms(2) by (simp add: set_eq_iff) linarith
  ultimately have "dom (P(n := None)) = {1..n - 1}" by simp
  moreover have "inj_on (P(n := None)) (dom (P(n := None)))"
  proof (rule inj_onI)
    fix i k assume i: "i \<in> dom (P(n := None))" and e: "(P(n := None)) i = (P(n := None)) k"
    obtain a where a: "(P(n := None)) i = Some a" using i by blast
    then have "P i = Some a" "P k = Some a" using e by (simp_all split: if_splits)
    then show "i = k" by (rule placed_inj [OF assms(1)])
  qed
  ultimately show ?thesis by (simp add: placed_def)
qed

lemma placed_replace:
  assumes "placed P n" "P j = Some a" "b \<notin> ran P"
  shows "placed (P(j \<mapsto> b)) n"
proof -
  have "dom (P(j \<mapsto> b)) = dom P" using assms(2) by auto
  moreover have "inj_on (P(j \<mapsto> b)) (dom P)"
  proof (rule inj_onI)
    fix i k assume "i \<in> dom P" "(P(j \<mapsto> b)) i = (P(j \<mapsto> b)) k"
    then show "i = k" using assms(3) placed_inj [OF assms(1), of i _ k] by (auto simp: ran_def split: if_splits) metis+
  qed
  ultimately show ?thesis using assms(1) by (simp add: placed_def)
qed

lemma ran_drop:
  assumes "placed P n" "P k = Some b"
  shows "ran (P(k := None)) = ran P - {b}"
proof -
  have "P j = Some b \<longleftrightarrow> j = k" for j by (rule placed_at [OF assms])
  then show ?thesis using assms(2) by (auto simp: ran_def) (metis option.inject)
qed

lemma ran_replace:
  assumes "placed P n" "P j = Some a"
  shows "ran (P(j \<mapsto> b)) = insert b (ran P - {a})"
proof -
  have "P i = Some a \<longleftrightarrow> i = j" for i by (rule placed_at [OF assms])
  then show ?thesis using assms(2) by (auto simp: ran_def) (metis option.inject)
qed

text \<open>Taking the last position away.\<close>

lemma drop_last:
  assumes repr: "heap_repr h P" and n: "n = unat (nelts h)" "1 \<le> n"
  shows "\<exists>h'. assign (h\<lparr>nelts := nelts h - 1\<rparr>) (ref_at P n) None = Inr h' \<and> heap_repr h' (P(n := None)) \<and>
    nelts h' = nelts h - 1 \<and> heap_mem h' (the (P n)) \<noteq> None \<and> (\<forall>x. x \<notin> ran P \<longrightarrow> heap_mem h' x = heap_mem h x)"
proof -
  have pl: "placed P n" and st: "stores (heap_mem (h\<lparr>nelts := nelts h - 1\<rparr>)) P (node_at P)"
    and top: "heap_top (h\<lparr>nelts := nelts h - 1\<rparr>) = P 1" using repr n(1) by (simp_all add: heap_repr_def)
  have "1 \<le> n" "n div 2 \<le> n" "n < 2 * n" using n(2) by simp_all
  from assign_at [OF pl st top this, of None]
  obtain h' where h': "assign (h\<lparr>nelts := nelts h - 1\<rparr>) (ref_at P n) None = Inr h'" "nelts h' = nelts h - 1"
    "heap_top h' = (P(n := None)) 1" "stores (heap_mem h') P (node_at (P(n := None)))"
    "\<forall>x. x \<notin> ran P \<longrightarrow> heap_mem h' x = heap_mem h x" by auto
  have u: "unat (nelts h') = n - 1" unfolding h'(2) n(1) using n by (simp add: unat_minus_one_32)
  have "stores (heap_mem h') (P(n := None)) (node_at (P(n := None)))" using h'(4) unfolding stores_def by simp
  then have "heap_repr h' (P(n := None))" using placed_drop [OF pl n(2)] h'(3) by (simp add: heap_repr_def u)
  moreover have "heap_mem h' (the (P n)) \<noteq> None"
    using placed_Some [OF pl n(2)] storesD [OF h'(4)] by fastforce
  ultimately show ?thesis using h' by blast
qed

text \<open>Putting another node in the place of one.\<close>

lemma replace_node:
  assumes repr: "heap_repr h P" and j: "P j = Some a" and b: "b \<notin> ran P" "heap_mem h b \<noteq> None"
  shows "\<exists>h2 h3 h4 h5. upd_node h b (\<lambda>_. node_at P j) = Inr h2 \<and> set_parent h2 (P (2 * j)) b = Inr h3 \<and>
    set_parent h3 (P (2 * j + 1)) b = Inr h4 \<and> relink h4 (P (j div 2)) a b = Inr h5 \<and>
    heap_repr h5 (P(j \<mapsto> b)) \<and> nelts h5 = nelts h \<and> (\<forall>x. x \<notin> insert b (ran P) \<longrightarrow> heap_mem h5 x = heap_mem h x)"
proof -
  define P' where "P' = P(j \<mapsto> b)"
  have pl: "placed P (unat (nelts h))" using repr by (simp add: heap_repr_def)
  have pl': "placed P' (unat (nelts h))" unfolding P'_def by (rule placed_replace [OF pl j b(1)])
  have j1: "1 \<le> j" using placed_le [OF pl j] by simp
  have jne: "2 * j \<noteq> j" "2 * j + 1 \<noteq> j" "j div 2 \<noteq> j" using j1 by linarith+
  have at: "P' j = Some b" "P (2 * j) = P' (2 * j)" "P (2 * j + 1) = P' (2 * j + 1)" "P (j div 2) = P' (j div 2)"
    using jne by (simp_all add: P'_def)
  define h2 where "h2 = h\<lparr>heap_mem := (heap_mem h)(b \<mapsto> node_at P j)\<rparr>"
  have u2: "upd_node h b (\<lambda>_. node_at P j) = Inr h2" using b(2) by (auto simp: upd_node_def get_node_def h2_def)
  have st2: "stores (heap_mem h2) P' (node_at P)"
  proof -
    have "stores (heap_mem h) P (node_at P)" using repr by (simp add: heap_repr_def)
    from stores_upd_other [OF this b(1), of j P' "node_at P"] show ?thesis by (simp add: h2_def P'_def)
  qed
  define N3 where "N3 = (node_at P)(2 * j := (node_at P (2 * j))\<lparr>h_parent := Some b\<rparr>)"
  define N4 where "N4 = N3(2 * j + 1 := (N3 (2 * j + 1))\<lparr>h_parent := Some b\<rparr>)"
  obtain h3 where h3: "set_parent h2 (P' (2 * j)) b = Inr h3" "rewired h2 h3 P' N3"
    using set_parent_stores [OF st2 pl', of "2 * j" b] unfolding N3_def by blast
  obtain h4 where h4: "set_parent h3 (P' (2 * j + 1)) b = Inr h4" "rewired h3 h4 P' N4"
    using set_parent_stores [OF rewired_stores [OF h3(2)] pl', of "2 * j + 1" b] unfolding N4_def by blast
  note r = rewired_trans [OF h3(2) h4(2)]
  define N5 where "N5 = N4(j div 2 := relinked a b (N4 (j div 2)))"
  obtain h5 where h5: "relink h4 (P' (j div 2)) a b = Inr h5" "nelts h5 = nelts h4"
    "heap_top h5 = (if j = 1 then Some b else heap_top h4)" "stores (heap_mem h5) P' N5"
    "\<forall>x. x \<notin> ran P' \<longrightarrow> heap_mem h5 x = heap_mem h4 x"
    using relink_stores [OF rewired_stores [OF h4(2)] pl' at(1), of a b] unfolding N5_def by blast
  have "stores (heap_mem h5) P' (node_at P')"
  proof (subst stores_cong)
    fix i assume i: "P' i \<noteq> None"
    have i1: "1 \<le> i" using i placed_le [OF pl', of i] by auto
    have N4: "N4 i = (if i div 2 = j then (node_at P i)\<lparr>h_parent := Some b\<rparr> else node_at P i)"
    proof -
      have "i div 2 = j \<longleftrightarrow> i = 2 * j \<or> i = 2 * j + 1" by linarith
      then show ?thesis by (auto simp: N4_def N3_def)
    qed
    show "node_at P' i = N5 i"
    proof (cases "i = j div 2")
      case True
      have ne: "i div 2 \<noteq> j" "i \<noteq> j" using True jne by linarith+
      have a: "P (2 * i) = Some a \<longleftrightarrow> 2 * i = j" by (rule placed_at [OF pl j])
      have "2 * i = j \<or> 2 * i + 1 = j" using True by linarith
      then show ?thesis
      proof
        assume e: "2 * i = j"
        have "N5 i = relinked a b (node_at P i)" using ne True N4 by (simp add: N5_def)
        moreover have "2 * i + 1 \<noteq> j" using e by linarith
        ultimately show ?thesis using e a ne by (simp add: node_at_def relinked_def P'_def)
      next
        assume e: "2 * i + 1 = j"
        have "N5 i = relinked a b (node_at P i)" using ne True N4 by (simp add: N5_def)
        moreover have "2 * i \<noteq> j" using e by linarith
        ultimately show ?thesis using e a ne by (simp add: node_at_def relinked_def P'_def)
      qed
    next
      case False
      then have "2 * i \<noteq> j" "2 * i + 1 \<noteq> j" by linarith+
      moreover have "N5 i = N4 i" using False by (simp add: N5_def)
      ultimately show ?thesis using N4 by (cases "i div 2 = j") (simp_all add: node_at_def P'_def)
    qed
  qed (rule h5(4))
  moreover have "heap_top h5 = P' 1"
    using h5(3) rewired_frame(2) [OF r] repr by (simp add: h2_def P'_def heap_repr_def)
  moreover have n5: "nelts h5 = nelts h" using h5(2) rewired_frame(1) [OF r] by (simp add: h2_def)
  ultimately have "heap_repr h5 P'" using pl' by (simp add: heap_repr_def)
  moreover have "heap_mem h5 x = heap_mem h x" if "x \<notin> insert b (ran P)" for x
  proof -
    have "x \<notin> ran P'" using that unfolding P'_def ran_replace [OF pl j] by blast
    then show ?thesis using h5(5) rewired_frame(3) [OF r] that by (simp add: h2_def)
  qed
  ultimately show ?thesis using u2 h3(1) h4(1) h5(1) n5 unfolding at(2,3,4) P'_def by blast
qed

section \<open>The nodes stay allocated\<close>

text \<open>No operation allocates or frees a node.\<close>

definition same_dom :: "uv_heap \<Rightarrow> uv_heap \<Rightarrow> bool" where
  "same_dom h h' \<longleftrightarrow> dom (heap_mem h') = dom (heap_mem h)"

lemma same_dom_refl [simp]: "same_dom h h"
  by (simp add: same_dom_def)

lemma same_dom_trans: "same_dom h h1 \<Longrightarrow> same_dom h1 h2 \<Longrightarrow> same_dom h h2"
  by (simp add: same_dom_def)

lemma same_dom_fields [simp]:
  "same_dom h (h'\<lparr>heap_top := x\<rparr>) = same_dom h h'" "same_dom h (h'\<lparr>nelts := n\<rparr>) = same_dom h h'"
  "same_dom (h\<lparr>heap_top := x\<rparr>) h' = same_dom h h'" "same_dom (h\<lparr>nelts := n\<rparr>) h' = same_dom h h'"
  by (simp_all add: same_dom_def)

lemma upd_node_dom: "upd_node h a f = Inr h' \<Longrightarrow> same_dom h h'"
  by (auto simp: upd_node_def get_node_def res_simps same_dom_def dom_def split: option.splits if_splits)

lemma set_parent_dom: "set_parent h p q = Inr h' \<Longrightarrow> same_dom h h'"
  by (auto simp: set_parent_def dest: upd_node_dom split: option.splits)

lemma relink_dom: "relink h u old new = Inr h' \<Longrightarrow> same_dom h h'"
  by (auto simp: relink_def dest: upd_node_dom split: option.splits)

lemma assign_dom: "assign h r v = Inr h' \<Longrightarrow> same_dom h h'"
  by (auto simp: assign_def dest: upd_node_dom split: node_ref.splits)

lemma heap_node_swap_dom:
  assumes "heap_node_swap h a b = Inr h'"
  shows "same_dom h h'"
proof -
  obtain t c h1 h2 h3 h4 h5 where h: "upd_node h a (\<lambda>_. c\<lparr>h_parent := Some b\<rparr>) = Inr h1"
    "upd_node h1 b (\<lambda>_. relinked b a t) = Inr h2"
    "set_parent h2 (if h_left t = Some b then h_right t else h_left t) b = Inr h3"
    "set_parent h3 (h_left c) a = Inr h4" "set_parent h4 (h_right c) a = Inr h5" "relink h5 (h_parent t) a b = Inr h'"
    using assms unfolding heap_node_swap_def res_bind_eq_Inr by blast
  note d = upd_node_dom [OF h(1)] upd_node_dom [OF h(2)] set_parent_dom [OF h(3)] set_parent_dom [OF h(4)]
    set_parent_dom [OF h(5)] relink_dom [OF h(6)]
  show ?thesis
    by (rule same_dom_trans [OF same_dom_trans [OF same_dom_trans [OF same_dom_trans [OF same_dom_trans [OF d(1,2)] d(3)] d(4)] d(5)] d(6)])
qed

lemma heap_up_dom: "heap_up lt rounds h a = Inr h' \<Longrightarrow> same_dom h h'"
proof (induction rounds arbitrary: h)
  case (Suc rounds)
  from Suc.prems obtain n :: heap_node where n: "(case h_parent n of None \<Rightarrow> Inr h
       | Some p \<Rightarrow> if lt a p then res_bind (heap_node_swap h p a) (\<lambda>h'. heap_up lt rounds h' a) else Inr h) = Inr h'"
    unfolding heap_up.simps res_bind_eq_Inr by blast
  show ?case
  proof (cases "h_parent n")
    case (Some p)
    show ?thesis
    proof (cases "lt a p")
      case True
      then obtain h1 where "heap_node_swap h p a = Inr h1" "heap_up lt rounds h1 a = Inr h'"
        using n Some by (auto simp: res_simps)
      then show ?thesis using Suc.IH heap_node_swap_dom same_dom_trans by blast
    qed (use n Some in simp)
  qed (use n in simp)
qed simp

lemma heap_down_dom: "heap_down lt rounds h a = Inr h' \<Longrightarrow> same_dom h h'"
proof (induction rounds arbitrary: h)
  case (Suc rounds)
  from Suc.prems obtain s where s: "(if s = a then Inr h else res_bind (heap_node_swap h a s) (\<lambda>h'. heap_down lt rounds h' a)) = Inr h'"
    by (auto simp: res_simps Let_def)
  show ?case
  proof (cases "s = a")
    case False
    then obtain h1 where "heap_node_swap h a s = Inr h1" "heap_down lt rounds h1 a = Inr h'"
      using s by (auto simp: res_simps)
    then show ?thesis using Suc.IH heap_node_swap_dom same_dom_trans by blast
  qed (use s in simp)
qed simp

lemma heap_insert_dom:
  assumes "heap_insert lt h a = Inr h'"
  shows "same_dom h h'"
proof -
  obtain h1 path k where h1: "upd_node h a (\<lambda>_. \<lparr>h_left = None, h_right = None, h_parent = None\<rparr>) = Inr h1"
    "heap_path (1 + nelts h1) 0 0 = (path, k)"
    using assms unfolding heap_insert_def res_bind_eq_Inr by (metis surj_pair)
  obtain p c q h2 h3 where h: "upd_node h1 a (h_parent_update (\<lambda>_. q)) = Inr h2" "assign h2 c (Some a) = Inr h3"
    "heap_up lt (unat (nelts h3 + 1)) (h3\<lparr>nelts := nelts h3 + 1\<rparr>) a = Inr h'"
    using assms unfolding heap_insert_def by (auto simp: h1 res_simps)
  have "same_dom h3 h'" using heap_up_dom [OF h(3)] by simp
  then show ?thesis using upd_node_dom [OF h1(1)] upd_node_dom [OF h(1)] assign_dom [OF h(2)] by (blast intro: same_dom_trans)
qed

lemma heap_remove_dom:
  assumes "heap_remove lt h a = Inr h'"
  shows "same_dom h h'"
proof (cases "nelts h = 0")
  case False
  obtain path k where path: "heap_path (nelts h) 0 0 = (path, k)" by fastforce
  obtain r co h1 where h1: "assign (h\<lparr>nelts := nelts h - 1\<rparr>) r None = Inr h1"
    and rest: "(if co = Some a then Inr (if co = heap_top h1 then h1\<lparr>heap_top := None\<rparr> else h1)
      else (case co of None \<Rightarrow> Inl NullDeref
        | Some child \<Rightarrow>
            res_bind (get_node h1 a) (\<lambda>n.
            res_bind (upd_node h1 child (\<lambda>_. n)) (\<lambda>h2.
            res_bind (set_parent h2 (h_left n) child) (\<lambda>h3.
            res_bind (set_parent h3 (h_right n) child) (\<lambda>h4.
            res_bind (relink h4 (h_parent n) a child) (\<lambda>h5.
            res_bind (heap_down lt (unat (nelts h)) h5 child) (\<lambda>h6.
              heap_up lt (unat (nelts h)) h6 child)))))))) = Inr h'"
    using assms False unfolding heap_remove_def by (auto simp: path res_simps)
  have d1: "same_dom h h1" using assign_dom [OF h1] by simp
  show ?thesis
  proof (cases "co = Some a")
    case True
    then show ?thesis using rest d1 by (auto split: if_splits)
  next
    case False
    with rest obtain child where co: "co = Some child" by (cases co) auto
    from rest [unfolded co] False [unfolded co] obtain n h2 h3 h4 h5 h6 where
      h: "upd_node h1 child (\<lambda>_. n) = Inr h2" "set_parent h2 (h_left n) child = Inr h3"
      "set_parent h3 (h_right n) child = Inr h4" "relink h4 (h_parent n) a child = Inr h5"
      "heap_down lt (unat (nelts h)) h5 child = Inr h6" "heap_up lt (unat (nelts h)) h6 child = Inr h'"
      by (simp add: res_simps) blast
    note d = upd_node_dom [OF h(1)] set_parent_dom [OF h(2)] set_parent_dom [OF h(3)] relink_dom [OF h(4)]
      heap_down_dom [OF h(5)] heap_up_dom [OF h(6)]
    show ?thesis
      by (rule same_dom_trans [OF d1 same_dom_trans [OF same_dom_trans [OF same_dom_trans [OF same_dom_trans
            [OF same_dom_trans [OF d(1,2)] d(3)] d(4)] d(5)] d(6)]])
  qed
qed (use assms in \<open>simp add: heap_remove_def\<close>)

section \<open>The heap as a set with a least element\<close>

definition heap_ok :: "(nat \<Rightarrow> nat \<Rightarrow> bool) \<Rightarrow> uv_heap \<Rightarrow> nat set \<Rightarrow> bool" where
  "heap_ok lt h S \<longleftrightarrow> (\<exists>P. heap_repr h P \<and> heap_ordered lt P \<and> ran P = S)"

lemma heap_ok_mem: "heap_ok lt h S \<Longrightarrow> a \<in> S \<Longrightarrow> heap_mem h a \<noteq> None"
  by (auto simp: heap_ok_def heap_repr_def ran_def dest: storesD)

lemma heap_ok_card:
  assumes "heap_ok lt h S"
  shows "finite S" "card S = unat (nelts h)"
proof -
  obtain P where P: "heap_repr h P" "ran P = S" using assms by (auto simp: heap_ok_def)
  have pl: "dom P = {1..unat (nelts h)}" "inj_on P (dom P)" using repr_placed [OF P(1)] unfolding placed_def by blast+
  have e: "S = (the \<circ> P) ` dom P"
  proof (intro set_eqI iffI)
    fix x assume "x \<in> S"
    then obtain k where "P k = Some x" unfolding P(2) [symmetric] ran_def by blast
    then show "x \<in> (the \<circ> P) ` dom P" by (intro image_eqI [of _ _ k]) auto
  next
    fix x assume "x \<in> (the \<circ> P) ` dom P"
    then show "x \<in> S" unfolding P(2) [symmetric] ran_def by auto
  qed
  show "finite S" unfolding e pl(1) by simp
  have "inj_on (the \<circ> P) (dom P)"
  proof (rule inj_onI)
    fix i j assume i: "i \<in> dom P" "j \<in> dom P" "(the \<circ> P) i = (the \<circ> P) j"
    then have "P i = P j" by auto
    with i(1,2) pl(2) show "i = j" by (blast dest: inj_onD)
  qed
  from card_image [OF this] show "card S = unat (nelts h)" unfolding e pl(1) by simp
qed

lemma heap_ok_init: "heap_ok lt (heap_init h) {}"
proof -
  have "heap_repr (heap_init h) Map.empty" by (simp add: heap_repr_def heap_init_def placed_def stores_def)
  moreover have "heap_ordered lt Map.empty" by (simp add: heap_ordered_def above_def)
  ultimately show ?thesis unfolding heap_ok_def by fastforce
qed

context heap_order
begin

lemma root_least:
  assumes "placed P n" "heap_ordered lt P" "P 1 = Some a" "P k = Some b"
  shows "\<not> lt b a"
  using assms(4)
proof (induction k arbitrary: b rule: less_induct)
  case (less k)
  have k1: "1 \<le> k" "k \<le> n" using placed_le [OF assms(1) less.prems] by simp_all
  show ?case
  proof (cases "k = 1")
    case True
    then have "b = a" using less.prems assms(3) by simp
    then show ?thesis using asym by blast
  next
    case False
    then have h: "1 \<le> k div 2" "k div 2 < k" "k div 2 \<le> n" using k1 by linarith+
    then obtain c where c: "P (k div 2) = Some c" using placed_Some [OF assms(1)] by blast
    have "\<not> lt b c" using assms(2) aboveD [of lt P k b c] less.prems c by (simp add: heap_ordered_def)
    moreover have "\<not> lt c a" by (rule less.IH [OF h(2) c])
    ultimately show ?thesis by (rule not_lt_trans)
  qed
qed

lemma heap_min_least:
  assumes "heap_ok lt h S"
  shows "(case heap_min h of None \<Rightarrow> S = {} | Some a \<Rightarrow> a \<in> S \<and> (\<forall>b \<in> S. \<not> lt b a))"
proof -
  obtain P where P: "heap_repr h P" "heap_ordered lt P" "ran P = S" using assms by (auto simp: heap_ok_def)
  note pl = repr_placed [OF P(1)]
  have m: "heap_min h = P 1" using P(1) by (simp add: heap_repr_def heap_min_def)
  show ?thesis
  proof (cases "P 1")
    case None
    then have "unat (nelts h) = 0" using placed_Some [OF pl, of 1] by fastforce
    then have "P k = None" for k using placed_le [OF pl, of k] by (cases "P k") auto
    then have "S = {}" using P(3) by (auto simp: ran_def)
    then show ?thesis using m None by simp
  next
    case (Some a)
    then have "a \<in> S" unfolding P(3) [symmetric] by (auto simp: ran_def)
    moreover have "\<not> lt b a" if "b \<in> S" for b
      using that root_least [OF pl P(2) Some] unfolding P(3) [symmetric] ran_def by blast
    ultimately show ?thesis using m Some by simp
  qed
qed

lemma heap_insert_ok:
  assumes ok: "heap_ok lt h S" and new: "a \<notin> S" "heap_mem h a \<noteq> None" and n: "unat (nelts h) < 2 ^ 32 - 1"
  shows "\<exists>h'. heap_insert lt h a = Inr h' \<and> heap_ok lt h' (insert a S) \<and> nelts h' = nelts h + 1 \<and>
    (\<forall>x. x \<notin> insert a S \<longrightarrow> heap_mem h' x = heap_mem h x)"
proof -
  obtain P where P: "heap_repr h P" "heap_ordered lt P" "ran P = S" using ok by (auto simp: heap_ok_def)
  define m where "m = Suc (unat (nelts h))"
  note pl = repr_placed [OF P(1)]
  have fresh: "a \<notin> ran P" using new(1) P(3) by simp
  obtain h1 where h1: "heap_insert lt h a = heap_up lt m h1 a" "heap_repr h1 (P(m \<mapsto> a))" "nelts h1 = nelts h + 1"
    "\<forall>x. x \<notin> insert a (ran P) \<longrightarrow> heap_mem h1 x = heap_mem h x"
    using insert_link [OF P(1) fresh new(2) n, of lt] unfolding m_def by blast
  have none: "P m = None" unfolding m_def by (rule placed_new(2) [OF pl fresh])
  have ran: "ran (P(m \<mapsto> a)) = insert a S" using none P(3) by simp
  have "up_ok lt (P(m \<mapsto> a)) m"
    unfolding up_ok_def
  proof (intro conjI allI impI)
    fix j assume j: "j \<noteq> m"
    have "above lt P j" using P(2) by (simp add: heap_ordered_def)
    show "above lt (P(m \<mapsto> a)) j"
    proof (cases "P j")
      case None
      then show ?thesis using j by (simp add: above_def)
    next
      case (Some b)
      then have "j div 2 \<noteq> m" using placed_le [OF pl Some] unfolding m_def by linarith
      then show ?thesis using \<open>above lt P j\<close> above_cong [of P j "P(m \<mapsto> a)"] j by simp
    qed
  next
    have "(P(m \<mapsto> a)) j = None" if "j div 2 = m" for j
    proof -
      have "unat (nelts h) < j" "j \<noteq> m" using that unfolding m_def by linarith+
      then show ?thesis using placed_None [OF pl] by simp
    qed
    then show "skips lt (P(m \<mapsto> a)) m" unfolding skips_def by (metis option.distinct(1))
  qed
  from heap_up_run [OF h1(2) fun_upd_same this le_refl]
  obtain h' P' where h': "heap_up lt m h1 a = Inr h'" "heap_repr h' P'" "heap_ordered lt P'"
    "ran P' = insert a S" "same_nodes h1 h' (insert a S)" unfolding ran by blast
  then have "heap_ok lt h' (insert a S)" unfolding heap_ok_def by blast
  then show ?thesis using h1 h'(1,5) P(3) by (simp add: same_nodes_def)
qed

lemma around_replaced:
  assumes pl: "placed P n" and ord: "heap_ordered lt P" and j: "P j = Some a" "j < n" and b: "P n = Some b"
  shows "around_ok lt ((P(n := None))(j \<mapsto> b)) j"
proof -
  let ?P = "(P(n := None))(j \<mapsto> b)"
  have j1: "1 \<le> j" using placed_le [OF pl j(1)] by simp
  have ab: "above lt P k" for k using ord by (simp add: heap_ordered_def)
  have "above lt ?P k" if "k \<noteq> j" "k div 2 \<noteq> j" for k
    using ab [of k] that by (auto simp: above_def)
  moreover have "\<not> lt x y" if k: "k div 2 = j" "?P k = Some x" "?P (j div 2) = Some y" for k x y
  proof -
    have "k \<noteq> j" "j div 2 \<noteq> j" using k(1) j1 by linarith+
    then have "P k = Some x" "P (j div 2) = Some y" using k(2,3) by (simp_all split: if_splits)
    then have "\<not> lt x a" "\<not> lt a y" using aboveD [OF ab] k(1) j(1) by blast+
    then show ?thesis by (rule not_lt_trans)
  qed
  ultimately show ?thesis unfolding around_ok_def skips_def by blast
qed

lemma heap_remove_ok:
  assumes ok: "heap_ok lt h S" and a: "a \<in> S"
  shows "\<exists>h'. heap_remove lt h a = Inr h' \<and> heap_ok lt h' (S - {a}) \<and> nelts h' = nelts h - 1 \<and>
    (\<forall>x. x \<notin> S \<longrightarrow> heap_mem h' x = heap_mem h x)"
proof -
  obtain P where P: "heap_repr h P" "heap_ordered lt P" "ran P = S" using ok by (auto simp: heap_ok_def)
  define n where "n = unat (nelts h)"
  have pl: "placed P n" unfolding n_def by (rule repr_placed [OF P(1)])
  obtain j where j: "P j = Some a" using a unfolding P(3) [symmetric] ran_def by blast
  have jn: "1 \<le> j" "j \<le> n" using placed_le [OF pl j] by simp_all
  then have n1: "1 \<le> n" by simp
  obtain b where b: "P n = Some b" using placed_Some [OF pl n1 le_refl] by blast
  have bS: "b \<in> S" using b unfolding P(3) [symmetric] ran_def by blast
  have ne0: "nelts h \<noteq> 0" using n1 by (auto simp: n_def)
  obtain path k where path: "heap_path (nelts h) 0 0 = (path, k)" "walk_pos k path 1 = n"
    using heap_path_to [OF ne0] unfolding n_def by blast
  have min: "ref_at P 1 = MinRef" by (simp add: ref_at_def)
  have half: "n div 2 \<le> unat (nelts h)" unfolding n_def by linarith
  obtain r where walk: "heap_walk h k path MinRef MinRef = Inr (r, ref_at P n)"
    using heap_walk_at [OF P(1), of 1 k path MinRef] half unfolding path(2) min by auto
  have d: "deref h (ref_at P n) = Inr (Some b)" using deref_at [OF P(1) n1 half] b by simp
  obtain h1 where h1: "assign (h\<lparr>nelts := nelts h - 1\<rparr>) (ref_at P n) None = Inr h1" "heap_repr h1 (P(n := None))"
    "nelts h1 = nelts h - 1" "heap_mem h1 b \<noteq> None" "\<forall>x. x \<notin> ran P \<longrightarrow> heap_mem h1 x = heap_mem h x"
    using drop_last [OF P(1) n_def n1] unfolding b option.sel by blast
  have r1: "ran (P(n := None)) = S - {b}" using ran_drop [OF pl b] P(3) by simp
  show ?thesis
  proof (cases "b = a")
    case True
    then have "heap_top h1 \<noteq> Some b"
      using h1(2) placed_at [OF pl b, of 1] by (auto simp: heap_repr_def)
    then have "heap_remove lt h a = Inr h1"
      using ne0 True by (simp add: heap_remove_def path(1) walk d h1(1))
    moreover have "heap_ordered lt (P(n := None))" using P(2) by (simp add: heap_ordered_def above_def)
    ultimately show ?thesis using h1 r1 True P(3) unfolding heap_ok_def by blast
  next
    case False
    then have jlt: "j < n" using jn j b by (cases "j = n") auto
    let ?P = "P(n := None)"
    have j': "?P j = Some a" using j jlt by simp
    have bf: "b \<notin> ran ?P" unfolding r1 by simp
    obtain h2 h3 h4 h5 where h: "upd_node h1 b (\<lambda>_. node_at ?P j) = Inr h2" "set_parent h2 (?P (2 * j)) b = Inr h3"
      "set_parent h3 (?P (2 * j + 1)) b = Inr h4" "relink h4 (?P (j div 2)) a b = Inr h5"
      "heap_repr h5 (?P(j \<mapsto> b))" "nelts h5 = nelts h1" "\<forall>x. x \<notin> insert b (ran ?P) \<longrightarrow> heap_mem h5 x = heap_mem h1 x"
      using replace_node [OF h1(2) j' bf h1(4)] by blast
    have f: "h_left (node_at ?P j) = ?P (2 * j)" "h_right (node_at ?P j) = ?P (2 * j + 1)" "h_parent (node_at ?P j) = ?P (j div 2)"
      by (simp_all add: node_at_def)
    have run: "heap_remove lt h a = res_bind (heap_down lt n h5 b) (\<lambda>h6. heap_up lt n h6 b)"
      using ne0 False unfolding heap_remove_def
      by (simp only: path(1) walk d h1(1) repr_node [OF h1(2) j'] h f res_bind_Inr option.simps prod.case Let_def flip: n_def)
         simp
    have S: "ran (?P(j \<mapsto> b)) = S - {a}"
      unfolding ran_replace [OF repr_placed [OF h1(2)] j'] r1 using False bS by blast
    have nn: "unat (nelts h5) = n - 1" using h(6) h1(3) n1 by (simp add: unat_minus_one_32 n_def)
    have at: "(?P(j \<mapsto> b)) j = Some b" by simp
    have "unat (nelts h5) < n + j" "0 < n" using nn n1 by linarith+
    from heap_down_run [OF h(5) at around_replaced [OF pl P(2) j jlt b] this]
    obtain h6 P6 k6 where h6: "heap_down lt n h5 b = Inr h6" "heap_repr h6 P6" "P6 k6 = Some b" "up_ok lt P6 k6"
      "ran P6 = S - {a}" "same_nodes h5 h6 (S - {a})" unfolding S by blast
    have "nelts h6 = nelts h5" using h6(6) by (simp add: same_nodes_def)
    then have "k6 \<le> n" using placed_le [OF repr_placed [OF h6(2)] h6(3)] nn by auto
    from heap_up_run [OF h6(2,3,4) this]
    obtain h7 P7 where h7: "heap_up lt n h6 b = Inr h7" "heap_repr h7 P7" "heap_ordered lt P7" "ran P7 = S - {a}"
      "same_nodes h6 h7 (S - {a})" unfolding h6(5) by blast
    have "same_nodes h5 h7 (S - {a})" by (rule same_nodes_trans [OF h6(6) h7(5)])
    moreover have "insert b (ran ?P) = S" unfolding r1 using bS by auto
    ultimately have "nelts h7 = nelts h - 1" "\<forall>x. x \<notin> S \<longrightarrow> heap_mem h7 x = heap_mem h x"
      using h(6,7) h1(3,5) P(3) unfolding same_nodes_def by auto
    moreover have "heap_ok lt h7 (S - {a})" using h7(2-4) unfolding heap_ok_def by blast
    ultimately show ?thesis using run h6(1) h7(1) by simp
  qed
qed

end

end
