(* ===== verification/Uv_Timer.thy ===== *)
theory Uv_Timer
  imports Uv_Heap Uv_Stream
begin

text \<open>
  The timers of libuv, \<^verbatim>\<open>deps/libuv/src/timer.c\<close>. A loop keeps its started timers in a heap
  ordered by the time they are due and, for equal times, by the order they were started.

  A timer is named by its address, which is also that of its heap node. Its queue node shares
  the memory of the heap node; the model keeps the queue of timers that are about to run as the
  list \<open>ready\<close> of the loop. What a callback does is an argument of \<open>uv__run_timers\<close>.
\<close>

section \<open>Timers and the loop\<close>

record 'cb uv_timer =
  timer_cb :: "'cb option"
  timeout :: size_t
  repeat :: size_t
  start_id :: size_t
  t_active :: bool
  t_closing :: bool

record 'cb timer_loop =
  time :: size_t
  timer_counter :: size_t
  timer_heap :: uv_heap
  timers :: "nat \<Rightarrow> 'cb uv_timer option"
  ready :: "nat list"

definition timer_key :: "(nat \<Rightarrow> 'cb uv_timer option) \<Rightarrow> nat \<Rightarrow> nat \<times> nat" where
  "timer_key tm a = (case tm a of None \<Rightarrow> (0, 0) | Some t \<Rightarrow> (unat (timeout t), unat (start_id t)))"

definition timer_less_than :: "(nat \<Rightarrow> 'cb uv_timer option) \<Rightarrow> nat \<Rightarrow> nat \<Rightarrow> bool" where
  "timer_less_than tm a b =
     (if fst (timer_key tm a) < fst (timer_key tm b) then True
      else if fst (timer_key tm b) < fst (timer_key tm a) then False
      else snd (timer_key tm a) < snd (timer_key tm b))"

definition get_timer :: "'cb timer_loop \<Rightarrow> nat \<Rightarrow> 'cb uv_timer res" where
  "get_timer L a = (case timers L a of None \<Rightarrow> Inl UseAfterFree | Some t \<Rightarrow> Inr t)"

definition put_timer :: "'cb timer_loop \<Rightarrow> nat \<Rightarrow> 'cb uv_timer \<Rightarrow> 'cb timer_loop" where
  "put_timer L a t = L\<lparr>timers := (timers L)(a \<mapsto> t)\<rparr>"

text \<open>
  \<^verbatim>\<open>uv_timer_init\<close> on memory that holds no started timer; \<^verbatim>\<open>start_id\<close> is left as it is.
\<close>

definition uv_timer_init :: "'cb timer_loop \<Rightarrow> nat \<Rightarrow> 'cb timer_loop" where
  "uv_timer_init L a =
     L\<lparr>timers := (timers L)(a \<mapsto> \<lparr>timer_cb = None, timeout = 0, repeat = 0, start_id = 0, t_active = False, t_closing = False\<rparr>),
       timer_heap := (timer_heap L)\<lparr>heap_mem := (heap_mem (timer_heap L))(a \<mapsto> \<lparr>h_left = None, h_right = None, h_parent = None\<rparr>)\<rparr>\<rparr>"

definition uv_timer_stop :: "'cb timer_loop \<Rightarrow> nat \<Rightarrow> 'cb timer_loop res" where
  "uv_timer_stop L a =
     res_bind (get_timer L a) (\<lambda>t.
       if t_active t then
         res_bind (heap_remove (timer_less_than (timers L)) (timer_heap L) a) (\<lambda>h.
           Inr (put_timer (L\<lparr>timer_heap := h\<rparr>) a (t\<lparr>t_active := False\<rparr>)))
       else Inr (L\<lparr>ready := remove1 a (ready L)\<rparr>))"

definition clamped_timeout :: "size_t \<Rightarrow> size_t \<Rightarrow> size_t" where
  "clamped_timeout now delay = (if now + delay < delay then -1 else now + delay)"

definition uv_timer_start ::
    "'cb timer_loop \<Rightarrow> nat \<Rightarrow> 'cb option \<Rightarrow> size_t \<Rightarrow> size_t \<Rightarrow> (int \<times> 'cb timer_loop) res" where
  "uv_timer_start L a cb delay rep =
     res_bind (get_timer L a) (\<lambda>t0.
       if t_closing t0 \<or> cb = None then Inr (UV_EINVAL, L)
       else res_bind (uv_timer_stop L a) (\<lambda>L1.
            res_bind (get_timer L1 a) (\<lambda>t.
              let L2 = put_timer (L1\<lparr>timer_counter := timer_counter L1 + 1\<rparr>) a
                         (t\<lparr>timer_cb := cb, timeout := clamped_timeout (time L1) delay, repeat := rep,
                            start_id := timer_counter L1\<rparr>)
              in res_bind (heap_insert (timer_less_than (timers L2)) (timer_heap L2) a) (\<lambda>h.
                 res_bind (get_timer L2 a) (\<lambda>t'.
                   Inr (0, put_timer (L2\<lparr>timer_heap := h\<rparr>) a (t'\<lparr>t_active := True\<rparr>)))))))"

definition uv_timer_again :: "'cb timer_loop \<Rightarrow> nat \<Rightarrow> (int \<times> 'cb timer_loop) res" where
  "uv_timer_again L a =
     res_bind (get_timer L a) (\<lambda>t.
       if timer_cb t = None then Inr (UV_EINVAL, L)
       else if repeat t \<noteq> 0 then
         res_bind (uv_timer_stop L a) (\<lambda>L1.
         res_bind (uv_timer_start L1 a (timer_cb t) (repeat t) (repeat t)) (\<lambda>(_, L2). Inr (0, L2)))
       else Inr (0, L))"

definition uv_timer_set_repeat :: "'cb timer_loop \<Rightarrow> nat \<Rightarrow> size_t \<Rightarrow> 'cb timer_loop res" where
  "uv_timer_set_repeat L a rep = res_bind (get_timer L a) (\<lambda>t. Inr (put_timer L a (t\<lparr>repeat := rep\<rparr>)))"

definition uv_timer_get_repeat :: "'cb timer_loop \<Rightarrow> nat \<Rightarrow> size_t res" where
  "uv_timer_get_repeat L a = res_bind (get_timer L a) (\<lambda>t. Inr (repeat t))"

definition uv_timer_get_due_in :: "'cb timer_loop \<Rightarrow> nat \<Rightarrow> size_t res" where
  "uv_timer_get_due_in L a =
     res_bind (get_timer L a) (\<lambda>t. Inr (if timeout t \<le> time L then 0 else timeout t - time L))"

definition uv__next_timeout :: "'cb timer_loop \<Rightarrow> int res" where
  "uv__next_timeout L =
     (case heap_min (timer_heap L) of None \<Rightarrow> Inr (-1)
      | Some a \<Rightarrow>
          res_bind (get_timer L a) (\<lambda>t.
            if timeout t \<le> time L then Inr 0
            else let diff = timeout t - time L
                 in Inr (if INT_MAX < unat diff then int INT_MAX else int (unat diff))))"

section \<open>Running the timers that are due\<close>

text \<open>The first loop moves the timers that are due to the ready queue; one round per timer in the heap.\<close>

fun collect_due :: "nat \<Rightarrow> 'cb timer_loop \<Rightarrow> 'cb timer_loop res" where
  "collect_due rounds L =
     (case heap_min (timer_heap L) of None \<Rightarrow> Inr L
      | Some a \<Rightarrow>
          res_bind (get_timer L a) (\<lambda>t.
            if time L < timeout t then Inr L
            else (case rounds of 0 \<Rightarrow> Inl NoReturn
                  | Suc rounds' \<Rightarrow>
                      res_bind (uv_timer_stop L a) (\<lambda>L1. collect_due rounds' (L1\<lparr>ready := ready L1 @ [a]\<rparr>)))))"

text \<open>
  The second loop: a timer leaves the queue, is restarted if it repeats, and its callback runs.
  The state may hold more than the loop: \<open>get\<close> and \<open>put\<close> access the loop in it.
\<close>

fun run_ready ::
    "('s \<Rightarrow> 'cb timer_loop) \<Rightarrow> ('s \<Rightarrow> 'cb timer_loop \<Rightarrow> 's) \<Rightarrow> ('cb \<Rightarrow> nat \<Rightarrow> 's \<Rightarrow> 's res) \<Rightarrow> nat \<Rightarrow> 's \<Rightarrow> 's res" where
  "run_ready get put call rounds s =
     (case ready (get s) of [] \<Rightarrow> Inr s
      | a # rest \<Rightarrow>
          (case rounds of 0 \<Rightarrow> Inl NoReturn
           | Suc rounds' \<Rightarrow>
               res_bind (uv_timer_again ((get s)\<lparr>ready := rest\<rparr>) a) (\<lambda>(_, L1).
               res_bind (get_timer L1 a) (\<lambda>t.
                 case timer_cb t of None \<Rightarrow> Inl NullDeref
                 | Some cb \<Rightarrow> res_bind (call cb a (put s L1)) (\<lambda>s'. run_ready get put call rounds' s')))))"

declare collect_due.simps [simp del] run_ready.simps [simp del]

definition uv__run_timers ::
    "('s \<Rightarrow> 'cb timer_loop) \<Rightarrow> ('s \<Rightarrow> 'cb timer_loop \<Rightarrow> 's) \<Rightarrow> ('cb \<Rightarrow> nat \<Rightarrow> 's \<Rightarrow> 's res) \<Rightarrow> 's \<Rightarrow> 's res" where
  "uv__run_timers get put call s =
     res_bind (collect_due (unat (nelts (timer_heap (get s)))) ((get s)\<lparr>ready := []\<rparr>)) (\<lambda>L.
       run_ready get put call (length (ready L)) (put s L))"

definition uv__timer_close :: "'cb timer_loop \<Rightarrow> nat \<Rightarrow> 'cb timer_loop res" where
  "uv__timer_close L a = uv_timer_stop L a"

section \<open>The order of timers\<close>

lemma timer_less_than_iff:
  "timer_less_than tm a b \<longleftrightarrow> fst (timer_key tm a) < fst (timer_key tm b) \<or>
     fst (timer_key tm a) = fst (timer_key tm b) \<and> snd (timer_key tm a) < snd (timer_key tm b)"
  by (auto simp: timer_less_than_def)

interpretation th: heap_order "timer_less_than tm" for tm :: "nat \<Rightarrow> 'cb uv_timer option"
  by unfold_locales (auto simp: timer_less_than_iff)

lemma timer_less_than_other: "a \<noteq> x \<Longrightarrow> b \<noteq> x \<Longrightarrow> timer_less_than (tm(x := t)) a b = timer_less_than tm a b"
  by (simp add: timer_less_than_def timer_key_def)

definition started :: "'cb timer_loop \<Rightarrow> nat set" where
  "started L = {a. \<exists>t. timers L a = Some t \<and> t_active t}"

text \<open>
  What always holds of a loop: the heap holds the started timers, a timer waiting to run is not
  started, every started or waiting timer has a callback, and no two started timers have the
  same start number.
\<close>

definition timers_ok :: "'cb timer_loop \<Rightarrow> bool" where
  "timers_ok L \<longleftrightarrow> heap_ok (timer_less_than (timers L)) (timer_heap L) (started L) \<and>
     (\<forall>a. timers L a \<noteq> None \<longrightarrow> heap_mem (timer_heap L) a \<noteq> None) \<and>
     distinct (ready L) \<and> set (ready L) \<inter> started L = {} \<and>
     (\<forall>a \<in> started L \<union> set (ready L). \<exists>t. timers L a = Some t \<and> timer_cb t \<noteq> None) \<and>
     (\<forall>a t. a \<in> started L \<longrightarrow> timers L a = Some t \<longrightarrow> start_id t < timer_counter L) \<and>
     (\<forall>a b t u. a \<in> started L \<longrightarrow> b \<in> started L \<longrightarrow> timers L a = Some t \<longrightarrow> timers L b = Some u \<longrightarrow>
        start_id t = start_id u \<longrightarrow> a = b)"

lemma heap_ok_cong:
  assumes "\<And>x y. x \<in> S \<Longrightarrow> y \<in> S \<Longrightarrow> lt x y = lt' x y"
  shows "heap_ok lt h S = heap_ok lt' h S"
proof -
  have "heap_ordered lt P = heap_ordered lt' P" if "ran P = S" for P
    using assms that unfolding heap_ordered_def above_def ran_def by blast
  then show ?thesis unfolding heap_ok_def by blast
qed

lemma timers_okD:
  assumes "timers_ok L"
  shows "heap_ok (timer_less_than (timers L)) (timer_heap L) (started L)"
    "timers L a \<noteq> None \<Longrightarrow> heap_mem (timer_heap L) a \<noteq> None"
    "distinct (ready L)" "set (ready L) \<inter> started L = {}"
    "a \<in> started L \<union> set (ready L) \<Longrightarrow> \<exists>t. timers L a = Some t \<and> timer_cb t \<noteq> None"
    "a \<in> started L \<Longrightarrow> timers L a = Some t \<Longrightarrow> start_id t < timer_counter L"
    "a \<in> started L \<Longrightarrow> b \<in> started L \<Longrightarrow> timers L a = Some t \<Longrightarrow> timers L b = Some u \<Longrightarrow> start_id t = start_id u \<Longrightarrow> a = b"
  using assms unfolding timers_ok_def by blast+

lemma started_put:
  "timers L' = (timers L)(a \<mapsto> t) \<Longrightarrow> started L' = (if t_active t then insert a (started L) else started L - {a})"
  by (auto simp: started_def)

lemma started_iff: "timers L a = Some t \<Longrightarrow> a \<in> started L \<longleftrightarrow> t_active t"
  by (simp add: started_def)

lemma timers_ok_time: "timers_ok (L\<lparr>time := n\<rparr>) = timers_ok L"
  unfolding timers_ok_def started_def by (cases L) (simp only: timer_loop.simps)

text \<open>Stopping a timer takes it out of the heap or the queue.\<close>

definition stopped :: "'cb timer_loop \<Rightarrow> nat \<Rightarrow> 'cb uv_timer \<Rightarrow> 'cb timer_loop \<Rightarrow> bool" where
  "stopped L a t L' \<longleftrightarrow> timers_ok L' \<and> timers L' = (timers L)(a \<mapsto> t\<lparr>t_active := False\<rparr>) \<and>
     ready L' = remove1 a (ready L) \<and> time L' = time L \<and> timer_counter L' = timer_counter L \<and>
     nelts (timer_heap L') \<le> nelts (timer_heap L)"

text \<open>A change that takes one timer out of the heap keeps the rest in order.\<close>

lemma timers_ok_less:
  assumes ok: "timers_ok L" and h: "heap_ok (timer_less_than (timers L)) (timer_heap L') (started L - {a})"
    and dom: "dom (heap_mem (timer_heap L)) \<subseteq> dom (heap_mem (timer_heap L'))"
    and t: "timers L a = Some t" and tm: "timers L' = (timers L)(a \<mapsto> t\<lparr>t_active := False\<rparr>)"
    and r: "distinct (ready L')" "set (ready L') \<subseteq> insert a (set (ready L))" "timer_counter L' = timer_counter L"
    and cb: "a \<in> set (ready L') \<Longrightarrow> timer_cb t \<noteq> None"
  shows "timers_ok L'"
proof -
  have st: "started L' = started L - {a}" using started_put [OF tm] by simp
  have same: "timers L' x = timers L x" if "x \<noteq> a" for x using that tm by simp
  show ?thesis
    unfolding timers_ok_def st
  proof (intro conjI allI impI ballI)
    have "timer_less_than (timers L') x y = timer_less_than (timers L) x y" if "x \<in> started L - {a}" "y \<in> started L - {a}" for x y
      unfolding tm using that by (intro timer_less_than_other) auto
    then show "heap_ok (timer_less_than (timers L')) (timer_heap L') (started L - {a})"
      using h by (subst heap_ok_cong [where lt' = "timer_less_than (timers L)"]) auto
  next
    fix x assume "timers L' x \<noteq> None"
    then have "timers L x \<noteq> None" using same t by (cases "x = a") auto
    then show "heap_mem (timer_heap L') x \<noteq> None" using timers_okD(2) [OF ok] dom by blast
  next
    show "set (ready L') \<inter> (started L - {a}) = {}" using r(2) timers_okD(4) [OF ok] by blast
  next
    fix x assume x: "x \<in> started L - {a} \<union> set (ready L')"
    show "\<exists>t. timers L' x = Some t \<and> timer_cb t \<noteq> None"
    proof (cases "x = a")
      case True
      then show ?thesis using x cb tm by simp
    next
      case False
      then have "x \<in> started L \<union> set (ready L)" using x r(2) by blast
      then show ?thesis using timers_okD(5) [OF ok] same [OF False] by simp
    qed
  next
    fix x u assume x: "x \<in> started L - {a}" "timers L' x = Some u"
    then show "start_id u < timer_counter L'" using timers_okD(6) [OF ok, of x u] same [of x] r(3) by simp
  next
    fix x y u v
    assume "x \<in> started L - {a}" "y \<in> started L - {a}" "timers L' x = Some u" "timers L' y = Some v" "start_id u = start_id v"
    then show "x = y" using timers_okD(7) [OF ok, of x y u v] same [of x] same [of y] by simp
  qed (rule r(1))
qed

lemma uv_timer_stop_ok:
  assumes ok: "timers_ok L" and t: "timers L a = Some t"
  shows "\<exists>L'. uv_timer_stop L a = Inr L' \<and> stopped L a t L'"
proof (cases "t_active t")
  case True
  have a: "a \<in> started L" using t True by (simp add: started_iff)
  from th.heap_remove_ok [OF timers_okD(1) [OF ok] a]
  obtain h where h: "heap_remove (timer_less_than (timers L)) (timer_heap L) a = Inr h"
    "heap_ok (timer_less_than (timers L)) h (started L - {a})" "nelts h = nelts (timer_heap L) - 1" by blast
  let ?L = "put_timer (L\<lparr>timer_heap := h\<rparr>) a (t\<lparr>t_active := False\<rparr>)"
  have nr: "a \<notin> set (ready L)" using timers_okD(4) [OF ok] a by blast
  have "card (started L) \<noteq> 0" using heap_ok_card(1) [OF timers_okD(1) [OF ok]] a by auto
  then have "1 \<le> unat (nelts (timer_heap L))" using heap_ok_card(2) [OF timers_okD(1) [OF ok]] by simp
  then have le: "nelts h \<le> nelts (timer_heap L)" unfolding h(3) word_le_nat_alt by (simp add: unat_minus_one_32)
  have "timers_ok ?L"
  proof (rule timers_ok_less [OF ok _ _ t])
    show "dom (heap_mem (timer_heap L)) \<subseteq> dom (heap_mem (timer_heap ?L))"
      using heap_remove_dom [OF h(1)] by (simp add: same_dom_def put_timer_def)
  qed (use h(2) nr timers_okD(3) [OF ok] in \<open>auto simp: put_timer_def\<close>)
  moreover have "uv_timer_stop L a = Inr ?L" using t True h(1) by (simp add: uv_timer_stop_def get_timer_def)
  ultimately show ?thesis using nr le by (auto simp: stopped_def put_timer_def remove1_idem)
next
  case False
  let ?L = "L\<lparr>ready := remove1 a (ready L)\<rparr>"
  have na: "started L - {a} = started L" using t False by (auto simp: started_def)
  have eq: "t\<lparr>t_active := False\<rparr> = t" using False by simp
  have tm: "timers ?L = (timers L)(a \<mapsto> t\<lparr>t_active := False\<rparr>)" unfolding eq using t by auto
  have "timers_ok ?L"
  proof (rule timers_ok_less [OF ok _ _ t tm])
    show "heap_ok (timer_less_than (timers L)) (timer_heap ?L) (started L - {a})" unfolding na using timers_okD(1) [OF ok] by simp
  qed (use timers_okD(3) [OF ok] set_remove1_subset [of a "ready L"] in auto)
  moreover have "uv_timer_stop L a = Inr ?L" using t False by (simp add: uv_timer_stop_def get_timer_def)
  ultimately show ?thesis using tm by (auto simp: stopped_def)
qed

definition fresh_timer :: "'cb timer_loop \<Rightarrow> 'cb option \<Rightarrow> size_t \<Rightarrow> size_t \<Rightarrow> 'cb uv_timer" where
  "fresh_timer L cb delay rep =
     \<lparr>timer_cb = cb, timeout = clamped_timeout (time L) delay, repeat = rep, start_id = timer_counter L,
      t_active = True, t_closing = False\<rparr>"

lemma uv_timer_start_ok:
  assumes ok: "timers_ok L" and t: "timers L a = Some t" "\<not> t_closing t" and cb: "cb \<noteq> None"
    and room: "unat (nelts (timer_heap L)) < 2 ^ 32 - 1" "unat (timer_counter L) < 2 ^ 64 - 1"
  shows "\<exists>L'. uv_timer_start L a cb delay rep = Inr (0, L') \<and> timers_ok L' \<and>
    timers L' = (timers L)(a \<mapsto> fresh_timer L cb delay rep) \<and> ready L' = remove1 a (ready L) \<and>
    time L' = time L \<and> timer_counter L' = timer_counter L + 1"
proof -
  obtain L1 where L1: "uv_timer_stop L a = Inr L1" "stopped L a t L1" using uv_timer_stop_ok [OF ok t(1)] by blast
  have ok1: "timers_ok L1" and tm1: "timers L1 = (timers L)(a \<mapsto> t\<lparr>t_active := False\<rparr>)" and r1: "ready L1 = remove1 a (ready L)"
    and time1: "time L1 = time L" and c1: "timer_counter L1 = timer_counter L"
    and n1: "nelts (timer_heap L1) \<le> nelts (timer_heap L)" using L1(2) by (simp_all add: stopped_def)
  have ra: "a \<notin> set (ready L1)" using timers_okD(3) [OF ok] unfolding r1 by simp
  have na: "a \<notin> started L1" using tm1 by (simp add: started_def)
  define t2 where "t2 = t\<lparr>t_active := False, timer_cb := cb, timeout := clamped_timeout (time L) delay, repeat := rep,
    start_id := timer_counter L\<rparr>"
  define tm2 where "tm2 = (timers L1)(a \<mapsto> t2)"
  define L2 where "L2 = put_timer (L1\<lparr>timer_counter := timer_counter L1 + 1\<rparr>) a t2"
  have tmL2: "timers L2 = tm2" by (simp add: L2_def put_timer_def tm2_def)
  have cong: "timer_less_than tm2 x y = timer_less_than (timers L1) x y" if "x \<in> started L1" "y \<in> started L1" for x y
    unfolding tm2_def using that na by (intro timer_less_than_other) auto
  have h1: "heap_ok (timer_less_than tm2) (timer_heap L1) (started L1)"
    using timers_okD(1) [OF ok1] cong by (subst heap_ok_cong [where lt' = "timer_less_than (timers L1)"]) auto
  have mem: "heap_mem (timer_heap L1) a \<noteq> None" using timers_okD(2) [OF ok1, of a] tm1 by simp
  have small: "unat (nelts (timer_heap L1)) < 2 ^ 32 - 1" using room(1) n1 unfolding word_le_nat_alt by linarith
  from th.heap_insert_ok [OF h1 na mem small]
  obtain h where h: "heap_insert (timer_less_than tm2) (timer_heap L1) a = Inr h"
    "heap_ok (timer_less_than tm2) h (insert a (started L1))" by blast
  define L' where "L' = put_timer (L2\<lparr>timer_heap := h\<rparr>) a (t2\<lparr>t_active := True\<rparr>)"
  have new: "t2\<lparr>t_active := True\<rparr> = fresh_timer L cb delay rep" using t(2) by (simp add: t2_def fresh_timer_def)
  have tm': "timers L' = (timers L1)(a \<mapsto> fresh_timer L cb delay rep)" using new tmL2 by (simp add: L'_def put_timer_def tm2_def)
  have st: "started L' = insert a (started L1)" using started_put [OF tm'] by (simp add: fresh_timer_def)
  have same: "timers L' x = timers L1 x" if "x \<noteq> a" for x using that tm' by simp
  have cnt: "unat (timer_counter L + 1) = Suc (unat (timer_counter L))" using room(2) by (intro unat_add_one_64) simp
  have fields: "timer_heap L' = h" "ready L' = ready L1" "time L' = time L" "timer_counter L' = timer_counter L + 1"
    using time1 c1 by (simp_all add: L'_def L2_def put_timer_def)
  have start: "start_id u < timer_counter L" if "x \<in> started L1" "timers L1 x = Some u" for x u
    using timers_okD(6) [OF ok1 that] unfolding c1 .
  have key: "timer_key (timers L') x = timer_key tm2 x" for x
    unfolding tm' tm2_def by (simp add: timer_key_def fresh_timer_def t2_def)
  have "timers_ok L'"
    unfolding timers_ok_def st fields
  proof (intro conjI allI impI ballI)
    have "timer_less_than (timers L') = timer_less_than tm2" unfolding timer_less_than_def key ..
    then show "heap_ok (timer_less_than (timers L')) h (insert a (started L1))" using h(2) by simp
  next
    fix x assume "timers L' x \<noteq> None"
    then have "timers L1 x \<noteq> None" using tm' tm1 by (auto split: if_splits)
    then show "heap_mem h x \<noteq> None"
      using timers_okD(2) [OF ok1] heap_insert_dom [OF h(1)] unfolding same_dom_def by blast
  next
    show "set (ready L1) \<inter> insert a (started L1) = {}" using ra timers_okD(4) [OF ok1] by blast
  next
    fix x assume x: "x \<in> insert a (started L1) \<union> set (ready L1)"
    show "\<exists>t. timers L' x = Some t \<and> timer_cb t \<noteq> None"
      using timers_okD(5) [OF ok1, of x] x same [of x] tm' cb by (cases "x = a") (auto simp: fresh_timer_def)
  next
    fix x u assume x: "x \<in> insert a (started L1)" "timers L' x = Some u"
    have "unat (start_id u) < Suc (unat (timer_counter L))"
    proof (cases "x = a")
      case True
      then show ?thesis using x(2) tm' by (auto simp: fresh_timer_def)
    next
      case False
      then show ?thesis using x start [of x u] same [OF False] by (simp add: word_less_nat_alt)
    qed
    then show "start_id u < timer_counter L + 1" using cnt by (simp add: word_less_nat_alt)
  next
    fix x y u v
    assume xy: "x \<in> insert a (started L1)" "y \<in> insert a (started L1)" "timers L' x = Some u" "timers L' y = Some v"
      "start_id u = start_id v"
    have old: "start_id w \<noteq> timer_counter L" if "z \<in> insert a (started L1)" "z \<noteq> a" "timers L' z = Some w" for z w
      using start [of z w] that same [of z] by auto
    have new': "start_id w = timer_counter L" if "timers L' a = Some w" for w using that tm' by (auto simp: fresh_timer_def)
    show "x = y"
    proof (cases "x = a \<or> y = a")
      case True
      then show ?thesis using xy old new' by metis
    next
      case False
      then show ?thesis using xy timers_okD(7) [OF ok1, of x y u v] same by auto
    qed
  qed (rule timers_okD(3) [OF ok1])
  moreover have "uv_timer_start L a cb delay rep = Inr (0, L')"
  proof -
    have "get_timer L1 a = Inr (t\<lparr>t_active := False\<rparr>)" "get_timer L2 a = Inr t2"
      by (simp_all add: get_timer_def tm1 tmL2 tm2_def)
    moreover have "timer_heap L2 = timer_heap L1" by (simp add: L2_def put_timer_def)
    moreover have "put_timer (L1\<lparr>timer_counter := timer_counter L1 + 1\<rparr>) a
        ((t\<lparr>t_active := False\<rparr>)\<lparr>timer_cb := cb, timeout := clamped_timeout (time L1) delay, repeat := rep,
          start_id := timer_counter L1\<rparr>) = L2" by (simp add: L2_def t2_def time1 c1)
    ultimately show ?thesis
      using t cb h(1) L1(1) unfolding uv_timer_start_def get_timer_def [of L]
      by (auto simp: Let_def tmL2 L'_def)
  qed
  moreover have "timers L' = (timers L)(a \<mapsto> fresh_timer L cb delay rep)" unfolding tm' tm1 by simp
  ultimately show ?thesis using fields r1 by auto
qed

section \<open>Due timers\<close>

definition due :: "'cb timer_loop \<Rightarrow> nat set" where
  "due L = {a. \<exists>t. timers L a = Some t \<and> t_active t \<and> timeout t \<le> time L}"

definition deactivated :: "'cb timer_loop \<Rightarrow> nat set \<Rightarrow> nat \<Rightarrow> 'cb uv_timer option" where
  "deactivated L S a = (if a \<in> S then map_option (t_active_update (\<lambda>_. False)) (timers L a) else timers L a)"

lemma timer_key_deactivated: "timer_key (deactivated L S) = timer_key (timers L)"
  by (auto simp: timer_key_def deactivated_def fun_eq_iff split: option.split)

lemma timer_less_than_key: "timer_key tm = timer_key tm' \<Longrightarrow> timer_less_than tm = timer_less_than tm'"
  unfolding timer_less_than_def by simp

text \<open>Timers with the same due time are told apart by their start numbers, so the order is strict.\<close>

lemma started_total:
  assumes "timers_ok L" "a \<in> started L" "b \<in> started L" "a \<noteq> b"
  shows "timer_less_than (timers L) a b \<or> timer_less_than (timers L) b a"
proof -
  obtain t u where t: "timers L a = Some t" "timers L b = Some u" using assms(2,3) by (auto simp: started_def)
  then have "start_id t \<noteq> start_id u" using timers_okD(7) [OF assms(1-3)] assms(4) by blast
  then have "snd (timer_key (timers L) a) \<noteq> snd (timer_key (timers L) b)" using t by (simp add: timer_key_def word_unat_eq_iff)
  then show ?thesis unfolding timer_less_than_iff by linarith
qed

lemma collect_due_ok:
  assumes "timers_ok L" "unat (nelts (timer_heap L)) \<le> rounds"
  shows "\<exists>L' ds. collect_due rounds L = Inr L' \<and> timers_ok L' \<and> ready L' = ready L @ ds \<and> distinct ds \<and> set ds = due L \<and>
    sorted_wrt (timer_less_than (timers L)) ds \<and> timers L' = deactivated L (due L) \<and> time L' = time L \<and>
    timer_counter L' = timer_counter L"
  using assms
proof (induction rounds arbitrary: L)
  case (0 L)
  have "started L = {}" using heap_ok_card [OF timers_okD(1) [OF 0(1)]] 0(2) by simp
  moreover from this have "due L = {}" by (auto simp: due_def started_def)
  moreover have "heap_min (timer_heap L) = None"
    using th.heap_min_least [OF timers_okD(1) [OF 0(1)]] \<open>started L = {}\<close> by (auto split: option.splits)
  ultimately show ?case using 0(1) by (subst collect_due.simps) (auto simp: deactivated_def fun_eq_iff)
next
  case (Suc rounds L)
  note ok = Suc.prems(1)
  note least = th.heap_min_least [OF timers_okD(1) [OF ok]]
  show ?case
  proof (cases "heap_min (timer_heap L)")
    case None
    then have "started L = {}" using least by simp
    then have "due L = {}" by (auto simp: due_def started_def)
    then show ?thesis using None ok by (subst collect_due.simps) (auto simp: deactivated_def fun_eq_iff)
  next
    case (Some a)
    then have a: "a \<in> started L" and min: "\<And>b. b \<in> started L \<Longrightarrow> \<not> timer_less_than (timers L) b a" using least by auto
    obtain t where t: "timers L a = Some t" "t_active t" using a by (auto simp: started_def)
    have get: "get_timer L a = Inr t" using t by (simp add: get_timer_def)
    show ?thesis
    proof (cases "time L < timeout t")
      case True
      have "due L = {}"
      proof (rule ccontr)
        assume "due L \<noteq> {}"
        then obtain b u where b: "timers L b = Some u" "t_active u" "timeout u \<le> time L" by (auto simp: due_def)
        then have "b \<in> started L" by (simp add: started_iff)
        then have "\<not> timer_less_than (timers L) b a" by (rule min)
        then have "unat (timeout t) \<le> unat (timeout u)" using t b unfolding timer_less_than_iff by (auto simp: timer_key_def)
        with True b(3) show False unfolding word_less_nat_alt word_le_nat_alt by linarith
      qed
      then show ?thesis using Some get True ok by (subst collect_due.simps) (auto simp: deactivated_def fun_eq_iff)
    next
      case False
      obtain L1 where L1: "uv_timer_stop L a = Inr L1" "stopped L a t L1" using uv_timer_stop_ok [OF ok t(1)] by blast
      have nr: "a \<notin> set (ready L)" using timers_okD(4) [OF ok] a by blast
      define L2 where "L2 = L1\<lparr>ready := ready L1 @ [a]\<rparr>"
      have tm2: "timers L2 = (timers L)(a \<mapsto> t\<lparr>t_active := False\<rparr>)" and r2: "ready L2 = ready L @ [a]"
        and time2: "time L2 = time L" and c2: "timer_counter L2 = timer_counter L"
        using L1(2) nr by (simp_all add: stopped_def L2_def remove1_idem)
      have st2: "started L2 = started L - {a}" using started_put [OF tm2] by simp
      have ok1: "timers_ok L1" using L1(2) by (simp add: stopped_def)
      have st1: "started L1 = started L2" by (simp add: started_def L2_def)
      have "timers_ok L2"
      proof -
        have n1: "a \<notin> started L1" unfolding st1 st2 by simp
        have r1: "ready L1 = ready L" using L1(2) nr by (simp add: stopped_def remove1_idem)
        have t1: "timers L1 a = Some (t\<lparr>t_active := False\<rparr>)" using tm2 by (simp add: L2_def)
        have "timer_cb t \<noteq> None" using timers_okD(5) [OF ok, of a] a t(1) by auto
        moreover have "started L1 - {a} = started L1" using n1 by simp
        ultimately show ?thesis
          using n1 r1 nr t1 timers_okD(1,3) [OF ok1]
          by (intro timers_ok_less [OF ok1 _ _ t1]) (auto simp: L2_def fun_eq_iff)
      qed
      moreover have "unat (nelts (timer_heap L2)) \<le> rounds"
      proof -
        have "card (started L2) = unat (nelts (timer_heap L2))" by (rule heap_ok_card(2) [OF timers_okD(1) [OF \<open>timers_ok L2\<close>]])
        moreover have "card (started L) = unat (nelts (timer_heap L))" "finite (started L)"
          using heap_ok_card [OF timers_okD(1) [OF ok]] by simp_all
        ultimately show ?thesis using a Suc.prems(2) unfolding st2 by (simp add: card_Diff_singleton)
      qed
      ultimately obtain L' ds where L': "collect_due rounds L2 = Inr L'" "timers_ok L'" "ready L' = ready L2 @ ds" "distinct ds"
        "set ds = due L2" "sorted_wrt (timer_less_than (timers L2)) ds" "timers L' = deactivated L2 (due L2)"
        "time L' = time L2" "timer_counter L' = timer_counter L2" using Suc.IH by blast
      have lt2: "timer_less_than (timers L2) = timer_less_than (timers L)"
        by (rule timer_less_than_key) (auto simp: timer_key_def tm2 t(1) fun_eq_iff)
      have due: "due L = insert a (due L2)" "a \<notin> due L2"
        using t False tm2 time2 by (auto simp: due_def split: if_splits)
      have "timer_less_than (timers L) a b" if "b \<in> set ds" for b
      proof -
        have b: "b \<in> due L" "b \<noteq> a" using that L'(5) due by auto
        then have "b \<in> started L" by (auto simp: due_def started_def)
        then show ?thesis using started_total [OF ok a _ b(2) [symmetric]] min by blast
      qed
      then have "sorted_wrt (timer_less_than (timers L)) (a # ds)" using L'(6) lt2 by simp
      moreover have "timers L' = deactivated L (due L)"
        unfolding L'(7) due(1) using due(2) t(1) by (auto simp: deactivated_def tm2 fun_eq_iff)
      moreover have "collect_due (Suc rounds) L = Inr L'"
        using Some get False L1(1) L'(1) by (subst collect_due.simps) (simp add: L2_def)
      ultimately show ?thesis
        using L' due r2 time2 c2 by (intro exI [of _ L'] exI [of _ "a # ds"]) simp
    qed
  qed
qed

section \<open>Properties\<close>



text \<open>
  C29. The time the loop may sleep: without a started timer it may sleep for ever (-1), otherwise
  until the earliest timer is due, at most \<^verbatim>\<open>INT_MAX\<close> milliseconds and never a negative time.
\<close>

theorem next_timeout_earliest:
  assumes "timers_ok L"
  shows "\<exists>r. uv__next_timeout L = Inr r \<and> (started L = {} \<longleftrightarrow> r = -1) \<and>
    (\<forall>a t. a \<in> started L \<longrightarrow> timers L a = Some t \<longrightarrow> 0 \<le> r \<and> r \<le> int INT_MAX \<and> r \<le> max 0 (int (unat (timeout t)) - int (unat (time L)))) \<and>
    (started L \<noteq> {} \<longrightarrow> r < int INT_MAX \<longrightarrow> (\<exists>a t. a \<in> started L \<and> timers L a = Some t \<and> r = max 0 (int (unat (timeout t)) - int (unat (time L)))))"
proof -
  note least = th.heap_min_least [OF timers_okD(1) [OF assms]]
  show ?thesis
  proof (cases "heap_min (timer_heap L)")
    case None
    then show ?thesis using least by (simp add: uv__next_timeout_def)
  next
    case (Some m)
    then have m: "m \<in> started L" and min: "\<And>b. b \<in> started L \<Longrightarrow> \<not> timer_less_than (timers L) b m" using least by auto
    obtain t where t: "timers L m = Some t" using m by (auto simp: started_def)
    have least_timeout: "unat (timeout t) \<le> unat (timeout u)" if "b \<in> started L" "timers L b = Some u" for b u
      using min [OF that(1)] t that(2) unfolding timer_less_than_iff by (auto simp: timer_key_def)
    define d n where "d = unat (timeout t)" and "n = unat (time L)"
    define r where "r = min (int INT_MAX) (max 0 (int d - int n))"
    have "uv__next_timeout L = Inr r"
    proof (cases "timeout t \<le> time L")
      case True
      then have "d \<le> n" by (simp add: d_def n_def word_le_nat_alt)
      then have "r = 0" by (simp add: r_def INT_MAX_def)
      then show ?thesis using Some t True by (simp add: uv__next_timeout_def get_timer_def)
    next
      case False
      then have lt: "n < d" by (simp add: d_def n_def word_le_nat_alt)
      have u: "unat (timeout t - time L) = d - n" using False by (simp add: unat_sub d_def n_def)
      have "uv__next_timeout L = Inr (if INT_MAX < d - n then int INT_MAX else int (d - n))"
        using Some t False unfolding u [symmetric] by (simp add: uv__next_timeout_def get_timer_def Let_def)
      also have "(if INT_MAX < d - n then int INT_MAX else int (d - n)) = r" using lt unfolding r_def by (simp add: min_def max_def) linarith
      finally show ?thesis .
    qed
    moreover have "started L \<noteq> {}" using m by blast
    moreover have "0 \<le> r" by (simp add: r_def)
    moreover have "r \<le> int INT_MAX" "r \<le> max 0 (int d - int n)" "r < int INT_MAX \<Longrightarrow> r = max 0 (int d - int n)"
      unfolding r_def by linarith+
    moreover have "max 0 (int d - int n) \<le> max 0 (int (unat (timeout u)) - int n)"
      if "b \<in> started L" "timers L b = Some u" for b u
    proof -
      have "d \<le> unat (timeout u)" unfolding d_def by (rule least_timeout [OF that])
      then show ?thesis by linarith
    qed
    ultimately show ?thesis using m t unfolding n_def [symmetric]
      by (intro exI [of _ r] conjI) (use d_def in \<open>force dest: order_trans\<close>)+
  qed
qed

text \<open>A loop with one timer that has been initialised, and the same loop after the timer was started.\<close>

definition sample_loop :: "unit timer_loop" where
  "sample_loop = uv_timer_init \<lparr>time = 100, timer_counter = 0,
     timer_heap = \<lparr>heap_top = None, nelts = 0, heap_mem = Map.empty\<rparr>, timers = Map.empty, ready = []\<rparr> 7"

lemma sample_loop_ok: "timers_ok sample_loop"
proof -
  have "heap_ok lt (timer_heap sample_loop) {}" for lt
    using heap_ok_init [of lt "timer_heap sample_loop"] by (simp add: heap_init_def sample_loop_def uv_timer_init_def)
  moreover have "started sample_loop = {}" by (simp add: started_def sample_loop_def uv_timer_init_def)
  ultimately show ?thesis by (simp add: timers_ok_def) (simp add: sample_loop_def uv_timer_init_def)
qed

lemma sample_started:
  obtains L where "uv_timer_start sample_loop 7 (Some ()) 5 0 = Inr (0, L)" "timers_ok L" "ready L = []"
    "timers L = [7 \<mapsto> \<lparr>timer_cb = Some (), timeout = 105, repeat = 0, start_id = 0, t_active = True, t_closing = False\<rparr>]"
    "time L = 100"
proof -
  have "timers sample_loop 7 = Some \<lparr>timer_cb = None, timeout = 0, repeat = 0, start_id = 0, t_active = False, t_closing = False\<rparr>"
    by (simp add: sample_loop_def uv_timer_init_def)
  from uv_timer_start_ok [OF sample_loop_ok this, of "Some ()" 5 0]
  obtain L where "uv_timer_start sample_loop 7 (Some ()) 5 0 = Inr (0, L)" "timers_ok L"
    "timers L = (timers sample_loop)(7 \<mapsto> fresh_timer sample_loop (Some ()) 5 0)" "ready L = remove1 7 (ready sample_loop)"
    "time L = time sample_loop" by (auto simp: sample_loop_def uv_timer_init_def)
  then show ?thesis using that
    by (simp add: sample_loop_def uv_timer_init_def fresh_timer_def clamped_timeout_def)
qed



theorem next_timeout_earliest_witness:
  "\<exists>L. uv_timer_start sample_loop 7 (Some ()) 5 0 = Inr (0, L) \<and> uv__next_timeout L = Inr 5"
proof -
  obtain L where L: "uv_timer_start sample_loop 7 (Some ()) 5 0 = Inr (0, L)" "timers_ok L"
    "timers L = [7 \<mapsto> \<lparr>timer_cb = Some (), timeout = 105, repeat = 0, start_id = 0, t_active = True, t_closing = False\<rparr>]"
    "time L = 100" by (rule sample_started)
  have st: "started L = {7}" using L(3) by (auto simp: started_def)
  obtain r where r: "uv__next_timeout L = Inr r"
    "\<forall>a t. a \<in> started L \<longrightarrow> timers L a = Some t \<longrightarrow> 0 \<le> r \<and> r \<le> int INT_MAX \<and> r \<le> max 0 (int (unat (timeout t)) - int (unat (time L)))"
    "started L \<noteq> {} \<longrightarrow> r < int INT_MAX \<longrightarrow> (\<exists>a t. a \<in> started L \<and> timers L a = Some t \<and> r = max 0 (int (unat (timeout t)) - int (unat (time L))))"
    using next_timeout_earliest [OF L(2)] by blast
  have "r \<le> 5" using r(2) st L(3,4) by simp
  then have "r = 5" using r(3) st L(3,4) by (simp add: INT_MAX_def)
  with r(1) L(1) show ?thesis by blast
qed

end
