(* ===== verification/Timers.thy ===== *)
theory Timers
  imports Uv_Timer
begin

text \<open>
  The JavaScript timers, \<^verbatim>\<open>src/builtins/timer.cc\<close>, with \<^verbatim>\<open>include/timer_context.h\<close>, on
  the timers of libuv.

  Handles are addresses that are never reused; the \<^verbatim>\<open>Libuv_Cb\<close> a handle points to is freed
  together with it and is kept in the map \<open>data\<close>, as the JavaScript callback it holds.
  Callbacks are numbers. What a callback does with timers is given by the program, a function
  from callbacks to the calls they make. The identifier of an interval is drawn at random by
  \<^verbatim>\<open>IdGenerator\<close>; it is an argument of the call.
\<close>

section \<open>State\<close>

datatype timer_kind = TimerLibuvCb | SetIntervalLibuvCb

record js_timers =
  tloop :: "timer_kind timer_loop"
  data :: "nat \<Rightarrow> nat option"
  registered_timer_cb :: "nat list"
  registered_interval_cb :: "int \<Rightarrow> nat option option"
  closing_handles :: "nat list"
  next_handle :: nat
  calls :: "nat list"

datatype js_act = SetTimeout nat int | SetInterval nat int int | ClearInterval int

type_synonym js_program = "nat \<Rightarrow> js_act list"

section \<open>Closing a handle\<close>

text \<open>\<^verbatim>\<open>uv_close\<close> on a timer: the handle is put at the head of the list of closing handles.\<close>

definition close_timer :: "js_timers \<Rightarrow> nat \<Rightarrow> js_timers res" where
  "close_timer w a =
     res_bind (get_timer (tloop w) a) (\<lambda>t.
       if t_closing t then Inl AssertFail
       else res_bind (uv__timer_close (put_timer (tloop w) a (t\<lparr>t_closing := True\<rparr>)) a) (\<lambda>L.
            Inr (w\<lparr>tloop := L, closing_handles := a # closing_handles w\<rparr>)))"

text \<open>\<^verbatim>\<open>on_close\<close> frees the handle and its data.\<close>

definition on_close :: "js_timers \<Rightarrow> nat \<Rightarrow> js_timers res" where
  "on_close w a =
     (if data w a = None then Inl UseAfterFree
      else res_bind (get_timer (tloop w) a) (\<lambda>t.
        Inr (w\<lparr>tloop := (tloop w)\<lparr>timers := (timers (tloop w))(a := None)\<rparr>, data := (data w)(a := None)\<rparr>)))"

text \<open>The closing phase of a loop turn takes the whole list and finishes each handle.\<close>

fun finish_all :: "js_timers \<Rightarrow> nat list \<Rightarrow> js_timers res" where
  "finish_all w [] = Inr w"
| "finish_all w (a # as) =
     res_bind (get_timer (tloop w) a) (\<lambda>t.
       if \<not> t_closing t then Inl AssertFail else res_bind (on_close w a) (\<lambda>w'. finish_all w' as))"

definition uv__run_closing_handles :: "js_timers \<Rightarrow> js_timers res" where
  "uv__run_closing_handles w = finish_all (w\<lparr>closing_handles := []\<rparr>) (closing_handles w)"

section \<open>The functions called from JavaScript\<close>

text \<open>
  The delay is an \<^verbatim>\<open>int32_t\<close> that is passed as a \<^verbatim>\<open>uint64_t\<close>: a negative delay becomes a huge one.
\<close>

definition new_timer :: "js_timers \<Rightarrow> nat \<Rightarrow> timer_kind \<Rightarrow> int \<Rightarrow> int \<Rightarrow> js_timers res" where
  "new_timer w js_cb kind delay rep =
     (let a = next_handle w;
          L = uv_timer_init (tloop w) a
      in res_bind (uv_timer_start L a (Some kind) (of_int delay) (of_int rep)) (\<lambda>(_, L').
           Inr (w\<lparr>tloop := L', data := (data w)(a \<mapsto> js_cb), registered_timer_cb := registered_timer_cb w @ [js_cb],
                  next_handle := Suc a\<rparr>)))"

definition SetTimeOutFunc :: "js_timers \<Rightarrow> nat \<Rightarrow> int \<Rightarrow> js_timers res" where
  "SetTimeOutFunc w js_cb delay = new_timer w js_cb TimerLibuvCb delay 0"

definition SetIntervalFunc :: "js_timers \<Rightarrow> nat \<Rightarrow> int \<Rightarrow> int \<Rightarrow> js_timers res" where
  "SetIntervalFunc w js_cb delay timerId =
     res_bind (new_timer w js_cb SetIntervalLibuvCb delay delay) (\<lambda>w'.
       Inr (w'\<lparr>registered_interval_cb := (registered_interval_cb w')(timerId \<mapsto> Some (next_handle w))\<rparr>))"

text \<open>Looking up an identifier that is not in the map inserts a null pointer.\<close>

definition clearIntervalFunc :: "js_timers \<Rightarrow> int \<Rightarrow> js_timers res" where
  "clearIntervalFunc w timerId =
     (case registered_interval_cb w timerId of
        Some (Some a) \<Rightarrow> close_timer w a
      | _ \<Rightarrow> Inl NullDeref)"

definition do_act :: "js_timers \<Rightarrow> js_act \<Rightarrow> js_timers res" where
  "do_act w act =
     (case act of SetTimeout cb d \<Rightarrow> SetTimeOutFunc w cb d | SetInterval cb d i \<Rightarrow> SetIntervalFunc w cb d i
      | ClearInterval i \<Rightarrow> clearIntervalFunc w i)"

fun do_acts :: "js_timers \<Rightarrow> js_act list \<Rightarrow> js_timers res" where
  "do_acts w [] = Inr w"
| "do_acts w (x # xs) = res_bind (do_act w x) (\<lambda>w'. do_acts w' xs)"

definition JS_Call :: "js_program \<Rightarrow> js_timers \<Rightarrow> nat \<Rightarrow> js_timers res" where
  "JS_Call js w cb = do_acts (w\<lparr>calls := calls w @ [cb]\<rparr>) (js cb)"

section \<open>Timer callbacks and a turn of the loop\<close>

definition timer_libuv_cb :: "js_program \<Rightarrow> nat \<Rightarrow> js_timers \<Rightarrow> js_timers res" where
  "timer_libuv_cb js a w =
     (case data w a of None \<Rightarrow> Inl UseAfterFree
      | Some cb \<Rightarrow> res_bind (JS_Call js w cb) (\<lambda>w'. close_timer w' a))"

definition set_interval_libuv_cb :: "js_program \<Rightarrow> nat \<Rightarrow> js_timers \<Rightarrow> js_timers res" where
  "set_interval_libuv_cb js a w =
     (case data w a of None \<Rightarrow> Inl UseAfterFree | Some cb \<Rightarrow> JS_Call js w cb)"

definition call_timer :: "js_program \<Rightarrow> timer_kind \<Rightarrow> nat \<Rightarrow> js_timers \<Rightarrow> js_timers res" where
  "call_timer js kind =
     (case kind of TimerLibuvCb \<Rightarrow> timer_libuv_cb js | SetIntervalLibuvCb \<Rightarrow> set_interval_libuv_cb js)"

definition run_timers :: "js_program \<Rightarrow> js_timers \<Rightarrow> js_timers res" where
  "run_timers js w = uv__run_timers tloop (\<lambda>w L. w\<lparr>tloop := L\<rparr>) (call_timer js) w"

definition timer_turn :: "js_program \<Rightarrow> size_t \<Rightarrow> js_timers \<Rightarrow> js_timers res" where
  "timer_turn js now w =
     res_bind (uv__run_closing_handles w) (\<lambda>w1. run_timers js (w1\<lparr>tloop := (tloop w1)\<lparr>time := now\<rparr>\<rparr>))"

section \<open>What always holds\<close>

text \<open>
  Every handle has its data, the closing list holds exactly the handles being closed, and those
  are neither started nor about to run.
\<close>

definition timers_inv :: "js_timers \<Rightarrow> bool" where
  "timers_inv w \<longleftrightarrow> timers_ok (tloop w) \<and>
     (\<forall>a t. timers (tloop w) a = Some t \<longrightarrow> data w a \<noteq> None \<and> a < next_handle w) \<and>
     distinct (closing_handles w) \<and>
     (\<forall>a. a \<in> set (closing_handles w) \<longleftrightarrow> (\<exists>t. timers (tloop w) a = Some t \<and> t_closing t)) \<and>
     (\<forall>a t. timers (tloop w) a = Some t \<longrightarrow> t_closing t \<longrightarrow> \<not> t_active t \<and> a \<notin> set (ready (tloop w)))"

lemma timers_invD:
  assumes "timers_inv w"
  shows "timers_ok (tloop w)"
    "timers (tloop w) a = Some t \<Longrightarrow> data w a \<noteq> None" "timers (tloop w) a = Some t \<Longrightarrow> a < next_handle w"
    "distinct (closing_handles w)"
    "a \<in> set (closing_handles w) \<longleftrightarrow> (\<exists>t. timers (tloop w) a = Some t \<and> t_closing t)"
    "timers (tloop w) a = Some t \<Longrightarrow> t_closing t \<Longrightarrow> \<not> t_active t \<and> a \<notin> set (ready (tloop w))"
  using assms unfolding timers_inv_def by blast+

text \<open>There is room for so many more timers, and start numbers for them.\<close>

definition room :: "js_timers \<Rightarrow> nat \<Rightarrow> bool" where
  "room w k \<longleftrightarrow> unat (nelts (timer_heap (tloop w))) + k < 2 ^ 32 \<and> unat (timer_counter (tloop w)) + k < 2 ^ 64"

lemma nelts_started: "timers_ok L \<Longrightarrow> unat (nelts (timer_heap L)) = card (started L) \<and> finite (started L)"
  using heap_ok_card timers_okD(1) by metis

lemma heap_ok_mem_upd:
  assumes "heap_ok lt h S" "a \<notin> S"
  shows "heap_ok lt (h\<lparr>heap_mem := (heap_mem h)(a \<mapsto> x)\<rparr>) S"
proof -
  obtain P where P: "heap_repr h P" "heap_ordered lt P" "ran P = S" using assms(1) by (auto simp: heap_ok_def)
  have "b \<noteq> a" if "P k = Some b" for k b using that assms(2) P(3) by (auto simp: ran_def)
  then have "heap_repr (h\<lparr>heap_mem := (heap_mem h)(a \<mapsto> x)\<rparr>) P" using P(1) by (auto simp: heap_repr_def stores_def)
  with P(2,3) show ?thesis unfolding heap_ok_def by blast
qed

definition blank_timer :: "'cb uv_timer" where
  "blank_timer = \<lparr>timer_cb = None, timeout = 0, repeat = 0, start_id = 0, t_active = False, t_closing = False\<rparr>"

lemma timers_ok_init:
  assumes ok: "timers_ok L" and new: "timers L a = None"
  shows "timers_ok (uv_timer_init L a)"
proof -
  let ?L = "uv_timer_init L a"
  have tm: "timers ?L = (timers L)(a \<mapsto> blank_timer)" by (simp add: uv_timer_init_def blank_timer_def)
  have na: "a \<notin> started L" "a \<notin> set (ready L)" using new timers_okD(5) [OF ok, of a] by (auto simp: started_def)
  have st: "started ?L = started L" using started_put [OF tm] na(1) by (simp add: blank_timer_def)
  have f: "ready ?L = ready L" "timer_counter ?L = timer_counter L" by (simp_all add: uv_timer_init_def)
  have same: "timers ?L x = timers L x" if "x \<noteq> a" for x using that tm by simp
  have ne: "x \<noteq> a" if "x \<in> started L \<union> set (ready L)" for x using that na by auto
  show ?thesis
    unfolding timers_ok_def st f
  proof (intro conjI allI impI ballI)
    have "timer_less_than (timers ?L) x y = timer_less_than (timers L) x y" if "x \<in> started L" "y \<in> started L" for x y
      unfolding tm using that ne by (intro timer_less_than_other) auto
    then have "heap_ok (timer_less_than (timers ?L)) (timer_heap L) (started L)"
      using timers_okD(1) [OF ok] by (subst heap_ok_cong [where lt' = "timer_less_than (timers L)"]) auto
    then show "heap_ok (timer_less_than (timers ?L)) (timer_heap ?L) (started L)"
      using heap_ok_mem_upd [OF _ na(1)] by (simp add: uv_timer_init_def)
  next
    fix x assume "timers ?L x \<noteq> None"
    then show "heap_mem (timer_heap ?L) x \<noteq> None"
      using timers_okD(2) [OF ok, of x] by (auto simp: uv_timer_init_def split: if_splits)
  next
    fix x assume x: "x \<in> started L \<union> set (ready L)"
    show "\<exists>t. timers ?L x = Some t \<and> timer_cb t \<noteq> None" using timers_okD(5) [OF ok x] same [OF ne [OF x]] by simp
  next
    fix x t assume x: "x \<in> started L" "timers ?L x = Some t"
    show "start_id t < timer_counter L" using timers_okD(6) [OF ok x(1)] same [OF ne] x by simp
  next
    fix x y t u assume x: "x \<in> started L" "y \<in> started L" "timers ?L x = Some t" "timers ?L y = Some u" "start_id t = start_id u"
    then show "x = y" using timers_okD(7) [OF ok x(1,2)] same [OF ne, of x] same [OF ne, of y] by simp
  qed (rule timers_okD(3,4) [OF ok])+
qed

text \<open>What adding timers leaves alone.\<close>

definition grown :: "js_timers \<Rightarrow> js_timers \<Rightarrow> bool" where
  "grown w w' \<longleftrightarrow> timers_inv w' \<and> ready (tloop w') = ready (tloop w) \<and> time (tloop w') = time (tloop w) \<and>
     calls w' = calls w \<and> closing_handles w' = closing_handles w \<and> next_handle w \<le> next_handle w' \<and>
     (\<forall>x < next_handle w. timers (tloop w') x = timers (tloop w) x \<and> data w' x = data w x)"

lemma grown_trans: "grown w w1 \<Longrightarrow> grown w1 w2 \<Longrightarrow> grown w w2"
  unfolding grown_def by (auto dest: less_le_trans)

lemma new_timer_ok:
  assumes inv: "timers_inv w" and r: "room w (Suc k)"
  shows "\<exists>w'. new_timer w cb kind d rep = Inr w' \<and> grown w w' \<and> room w' k \<and> next_handle w' = Suc (next_handle w) \<and>
    data w' (next_handle w) = Some cb \<and>
    timers (tloop w') (next_handle w) = Some (fresh_timer (tloop w) (Some kind) (of_int d) (of_int rep))"
proof -
  define a where "a = next_handle w"
  define L where "L = uv_timer_init (tloop w) a"
  have none: "timers (tloop w) a = None" using timers_invD(3) [OF inv, of a] by (cases "timers (tloop w) a") (auto simp: a_def)
  note ok = timers_invD(1) [OF inv]
  have okL: "timers_ok L" unfolding L_def by (rule timers_ok_init [OF ok none])
  have nr: "a \<notin> set (ready (tloop w))" using timers_okD(5) [OF ok, of a] none by auto
  have t: "timers L a = Some blank_timer" "\<not> t_closing (blank_timer :: timer_kind uv_timer)"
    by (simp_all add: L_def uv_timer_init_def blank_timer_def)
  have "unat (nelts (timer_heap L)) < 2 ^ 32 - 1" "unat (timer_counter L) < 2 ^ 64 - 1"
    using r by (simp_all add: L_def uv_timer_init_def room_def)
  from uv_timer_start_ok [OF okL t _ this, of "Some kind" "of_int d" "of_int rep"]
  obtain L' where L': "uv_timer_start L a (Some kind) (of_int d) (of_int rep) = Inr (0, L')" "timers_ok L'"
    "timers L' = (timers L)(a \<mapsto> fresh_timer L (Some kind) (of_int d) (of_int rep))" "ready L' = remove1 a (ready L)"
    "time L' = time L" "timer_counter L' = timer_counter L + 1" by blast
  define w' where "w' = w\<lparr>tloop := L', data := (data w)(a \<mapsto> cb), registered_timer_cb := registered_timer_cb w @ [cb],
      next_handle := Suc a\<rparr>"
  have fr: "fresh_timer L (Some kind) (of_int d) (of_int rep) = fresh_timer (tloop w) (Some kind) (of_int d) (of_int rep)"
    by (simp add: fresh_timer_def L_def uv_timer_init_def)
  have tm: "timers L' = (timers (tloop w))(a \<mapsto> fresh_timer (tloop w) (Some kind) (of_int d) (of_int rep))"
    unfolding L'(3) fr by (simp add: L_def uv_timer_init_def)
  have rd: "ready L' = ready (tloop w)" using L'(4) nr by (simp add: L_def uv_timer_init_def remove1_idem)
  have run: "new_timer w cb kind d rep = Inr w'"
    using L'(1) by (simp add: new_timer_def Let_def w'_def flip: a_def) (simp add: L_def)
  have inv': "timers_inv w'"
    unfolding timers_inv_def
  proof (intro conjI allI impI)
    fix x t assume "timers (tloop w') x = Some t"
    then show "data w' x \<noteq> None" "x < next_handle w'"
      using timers_invD(2,3) [OF inv, of x] tm by (auto simp: w'_def a_def split: if_splits)
  next
    fix x
    show "x \<in> set (closing_handles w') \<longleftrightarrow> (\<exists>t. timers (tloop w') x = Some t \<and> t_closing t)"
      using timers_invD(5) [OF inv, of x] tm none by (auto simp: w'_def fresh_timer_def split: if_splits)
  next
    fix x t assume x: "timers (tloop w') x = Some t" "t_closing t"
    then have "timers (tloop w) x = Some t" using tm by (auto simp: w'_def fresh_timer_def split: if_splits)
    with timers_invD(6) [OF inv this] x(2) rd show "\<not> t_active t" "x \<notin> set (ready (tloop w'))" by (simp_all add: w'_def)
  qed (use L'(2) timers_invD(4) [OF inv] in \<open>simp_all add: w'_def\<close>)
  have "room w' k"
  proof -
    have "started L' = insert a (started (tloop w))" using started_put [OF tm] by (simp add: fresh_timer_def)
    moreover have "a \<notin> started (tloop w)" using none by (simp add: started_def)
    ultimately have "unat (nelts (timer_heap L')) = Suc (unat (nelts (timer_heap (tloop w))))"
      using nelts_started [OF ok] nelts_started [OF L'(2)] by simp
    moreover have "unat (timer_counter L') \<le> Suc (unat (timer_counter (tloop w)))"
      using L'(6) by (simp add: L_def uv_timer_init_def unat_word_ariths)
    ultimately show ?thesis using r by (simp add: room_def w'_def)
  qed
  then show ?thesis using run inv' rd L'(5) tm unfolding grown_def
    by (intro exI [of _ w']) (simp add: w'_def L_def uv_timer_init_def flip: a_def)
qed

fun adds_only :: "js_act \<Rightarrow> bool" where
  "adds_only (ClearInterval i) = False"
| "adds_only _ = True"

lemma grown_refl: "timers_inv w \<Longrightarrow> grown w w"
  by (simp add: grown_def)

lemma do_act_ok:
  assumes "timers_inv w" "room w (Suc k)" "adds_only x"
  shows "\<exists>w'. do_act w x = Inr w' \<and> grown w w' \<and> room w' k"
proof (cases x)
  case (SetTimeout cb d)
  then show ?thesis using new_timer_ok [OF assms(1,2), of cb TimerLibuvCb d 0] by (auto simp: do_act_def SetTimeOutFunc_def)
next
  case (SetInterval cb d i)
  from new_timer_ok [OF assms(1,2), of cb SetIntervalLibuvCb d d]
  obtain w' where w': "new_timer w cb SetIntervalLibuvCb d d = Inr w'" "grown w w'" "room w' k" by blast
  then show ?thesis using SetInterval
    by (auto simp: do_act_def SetIntervalFunc_def grown_def timers_inv_def room_def)
qed (use assms(3) in simp)

lemma do_acts_ok:
  assumes "timers_inv w" "room w (length xs + k)" "list_all adds_only xs"
  shows "\<exists>w'. do_acts w xs = Inr w' \<and> grown w w' \<and> room w' k"
  using assms
proof (induction xs arbitrary: w)
  case Nil
  then show ?case by (simp add: grown_refl)
next
  case (Cons x xs)
  from Cons.prems have "room w (Suc (length xs + k))" "adds_only x" "list_all adds_only xs" by simp_all
  from do_act_ok [OF Cons.prems(1) this(1,2)]
  obtain w1 where w1: "do_act w x = Inr w1" "grown w w1" "room w1 (length xs + k)" by blast
  then have "timers_inv w1" by (simp add: grown_def)
  from Cons.IH [OF this w1(3) \<open>list_all adds_only xs\<close>] w1(1,2) show ?case by (auto intro: grown_trans)
qed

text \<open>Fields of a timer that the heap and the invariant do not look at.\<close>

definition timer_view :: "'cb uv_timer \<Rightarrow> 'cb option \<times> size_t \<times> size_t \<times> bool" where
  "timer_view t = (timer_cb t, timeout t, start_id t, t_active t)"

lemma timers_ok_view:
  assumes v: "\<And>x. map_option timer_view (timers L' x) = map_option timer_view (timers L x)"
    and f: "timer_heap L' = timer_heap L" "ready L' = ready L" "timer_counter L' = timer_counter L" and ok: "timers_ok L"
  shows "timers_ok L'"
proof -
  have ex: "\<exists>u. timers L x = Some u \<and> timer_view u = timer_view t" if "timers L' x = Some t" for x t
    using v [of x] that by (cases "timers L x") auto
  have ex': "\<exists>u. timers L' x = Some u \<and> timer_view u = timer_view t" if "timers L x = Some t" for x t
    using v [of x] that by (cases "timers L' x") auto
  have st: "started L' = started L"
    unfolding started_def using ex ex' by (fastforce simp: timer_view_def)
  have key: "timer_key (timers L') x = timer_key (timers L) x" for x
    using v [of x] by (cases "timers L x"; cases "timers L' x") (auto simp: timer_key_def timer_view_def)
  then have lt: "timer_less_than (timers L') = timer_less_than (timers L)" by (intro timer_less_than_key) (simp add: fun_eq_iff)
  show ?thesis
    unfolding timers_ok_def st lt f
  proof (intro conjI allI impI ballI)
    fix x assume "timers L' x \<noteq> None"
    then show "heap_mem (timer_heap L) x \<noteq> None" using ex timers_okD(2) [OF ok] by (metis option.distinct(1) not_Some_eq)
  next
    fix x assume "x \<in> started L \<union> set (ready L)"
    from timers_okD(5) [OF ok this] show "\<exists>t. timers L' x = Some t \<and> timer_cb t \<noteq> None"
      using ex' by (metis fst_conv timer_view_def)
  next
    fix x t assume x: "x \<in> started L" "timers L' x = Some t"
    obtain u where "timers L x = Some u" "timer_view u = timer_view t" using ex [OF x(2)] by blast
    then show "start_id t < timer_counter L" using timers_okD(6) [OF ok x(1)] by (simp add: timer_view_def)
  next
    fix x y t u assume x: "x \<in> started L" "y \<in> started L" "timers L' x = Some t" "timers L' y = Some u" "start_id t = start_id u"
    obtain t' u' where "timers L x = Some t'" "timer_view t' = timer_view t" "timers L y = Some u'" "timer_view u' = timer_view u"
      using ex [OF x(3)] ex [OF x(4)] by blast
    then show "x = y" using timers_okD(7) [OF ok x(1,2)] x(5) by (simp add: timer_view_def)
  qed (rule timers_okD(1,3,4) [OF ok])+
qed

lemma close_timer_ok:
  assumes inv: "timers_inv w" and t: "timers (tloop w) a = Some t" "\<not> t_closing t"
  shows "\<exists>w'. close_timer w a = Inr w' \<and> timers_inv w' \<and> closing_handles w' = a # closing_handles w \<and>
    timers (tloop w') = (timers (tloop w))(a \<mapsto> t\<lparr>t_closing := True, t_active := False\<rparr>) \<and> data w' = data w \<and>
    calls w' = calls w \<and> next_handle w' = next_handle w \<and> ready (tloop w') = remove1 a (ready (tloop w)) \<and>
    time (tloop w') = time (tloop w) \<and> (\<forall>k. room w k \<longrightarrow> room w' k)"
proof -
  let ?t = "t\<lparr>t_closing := True\<rparr>"
  define L where "L = put_timer (tloop w) a ?t"
  have okL: "timers_ok L"
    by (rule timers_ok_view [OF _ _ _ _ timers_invD(1) [OF inv]]) (auto simp: L_def put_timer_def timer_view_def t(1))
  have tL: "timers L a = Some ?t" by (simp add: L_def put_timer_def)
  obtain L' where L': "uv_timer_stop L a = Inr L'" "stopped L a ?t L'" using uv_timer_stop_ok [OF okL tL] by blast
  have tm: "timers L' = (timers (tloop w))(a \<mapsto> t\<lparr>t_closing := True, t_active := False\<rparr>)"
    using L'(2) by (simp add: stopped_def L_def put_timer_def)
  have rd: "ready L' = remove1 a (ready (tloop w))" and f: "time L' = time (tloop w)" "timer_counter L' = timer_counter (tloop w)"
    "nelts (timer_heap L') \<le> nelts (timer_heap (tloop w))" and ok': "timers_ok L'"
    using L'(2) by (simp_all add: stopped_def L_def put_timer_def)
  define w' where "w' = w\<lparr>tloop := L', closing_handles := a # closing_handles w\<rparr>"
  have nc: "a \<notin> set (closing_handles w)" using timers_invD(5) [OF inv, of a] t by simp
  have nr: "a \<notin> set (ready L')" unfolding rd using timers_okD(3) [OF timers_invD(1) [OF inv]] by simp
  have "timers_inv w'"
    unfolding timers_inv_def
  proof (intro conjI allI impI)
    fix x u assume "timers (tloop w') x = Some u"
    then show "data w' x \<noteq> None" "x < next_handle w'"
      using timers_invD(2,3) [OF inv, of x] t(1) tm by (auto simp: w'_def split: if_splits)
  next
    fix x
    show "x \<in> set (closing_handles w') \<longleftrightarrow> (\<exists>t. timers (tloop w') x = Some t \<and> t_closing t)"
      using timers_invD(5) [OF inv, of x] tm by (auto simp: w'_def)
  next
    fix x u assume x: "timers (tloop w') x = Some u" "t_closing u"
    show "\<not> t_active u" "x \<notin> set (ready (tloop w'))"
      using x timers_invD(6) [OF inv, of x u] tm nr rd notin_set_remove1 [of x "ready (tloop w)" a]
      by (auto simp: w'_def split: if_splits)
  qed (use ok' nc timers_invD(4) [OF inv] in \<open>simp_all add: w'_def\<close>)
  moreover have "close_timer w a = Inr w'"
    using t L'(1) by (simp add: close_timer_def get_timer_def uv__timer_close_def w'_def flip: L_def)
  moreover have "room w' k" if "room w k" for k
    using that f by (simp add: room_def w'_def word_le_nat_alt)
  ultimately show ?thesis using tm rd f by (intro exI [of _ w']) (simp add: w'_def)
qed

section \<open>Running the callbacks\<close>

lemma timers_ok_ready_sub:
  assumes "timers_ok L" "distinct r" "set r \<subseteq> set (ready L)"
  shows "timers_ok (L\<lparr>ready := r\<rparr>)"
proof -
  have s: "started (L\<lparr>ready := r\<rparr>) = started L" by (simp add: started_def)
  show ?thesis unfolding timers_ok_def s
  proof (intro conjI)
    show "set (ready (L\<lparr>ready := r\<rparr>)) \<inter> started L = {}" using assms(3) timers_okD(4) [OF assms(1)] by auto
    show "\<forall>a\<in>started L \<union> set (ready (L\<lparr>ready := r\<rparr>)). \<exists>t. timers (L\<lparr>ready := r\<rparr>) a = Some t \<and> timer_cb t \<noteq> None"
    proof
      fix a assume "a \<in> started L \<union> set (ready (L\<lparr>ready := r\<rparr>))"
      then have "a \<in> started L \<union> set (ready L)" using assms(3) by auto
      then show "\<exists>t. timers (L\<lparr>ready := r\<rparr>) a = Some t \<and> timer_cb t \<noteq> None" using timers_okD(5) [OF assms(1)] by simp
    qed
  qed (use assms(1,2) in \<open>simp_all add: timers_ok_def\<close>)
qed

definition rearmed :: "'cb timer_loop \<Rightarrow> 'cb uv_timer \<Rightarrow> 'cb uv_timer" where
  "rearmed L t = (if repeat t = 0 then t else fresh_timer L (timer_cb t) (repeat t) (repeat t))"

lemma again_ok:
  assumes inv: "timers_inv w" and rd: "ready (tloop w) = a # rest" and r: "room w (Suc k)"
    and t: "timers (tloop w) a = Some t"
  shows "\<exists>L. uv_timer_again ((tloop w)\<lparr>ready := rest\<rparr>) a = Inr (0, L) \<and> timers_inv (w\<lparr>tloop := L\<rparr>) \<and>
    room (w\<lparr>tloop := L\<rparr>) k \<and> ready L = rest \<and> time L = time (tloop w) \<and>
    timers L = (timers (tloop w))(a \<mapsto> rearmed (tloop w) t)"
proof -
  define L0 where "L0 = (tloop w)\<lparr>ready := rest\<rparr>"
  note ok = timers_invD(1) [OF inv]
  have d: "a \<notin> set rest" "distinct rest" using timers_okD(3) [OF ok] rd by simp_all
  have ok0: "timers_ok L0" unfolding L0_def using d rd by (intro timers_ok_ready_sub [OF ok]) auto
  have nc: "\<not> t_closing t" using timers_invD(6) [OF inv t] rd by auto
  have na: "a \<notin> started (tloop w)" using timers_okD(4) [OF ok] rd by auto
  have inact: "\<not> t_active t" using na t by (simp add: started_iff)
  obtain kind where cb: "timer_cb t = Some kind" using timers_okD(5) [OF ok, of a] rd t by auto
  have t0: "timers L0 a = Some t" and g0: "get_timer L0 a = Inr t" using t by (simp_all add: L0_def get_timer_def)
  have inv0: "timers_inv (w\<lparr>tloop := L\<rparr>)"
    if "timers_ok L" "ready L = rest" "timers L = (timers (tloop w))(a \<mapsto> t')" "\<not> t_closing t'" for L t'
  proof -
    note hyp = that
    show ?thesis
      unfolding timers_inv_def
    proof (intro conjI allI impI)
      fix x u assume "timers (tloop (w\<lparr>tloop := L\<rparr>)) x = Some u"
      then obtain u' where "timers (tloop w) x = Some u'" using hyp(3) t by (cases "x = a") auto
      from timers_invD(2,3) [OF inv this]
      show "data (w\<lparr>tloop := L\<rparr>) x \<noteq> None" "x < next_handle (w\<lparr>tloop := L\<rparr>)" by simp_all
    next
      fix x
      have "(\<exists>u. timers L x = Some u \<and> t_closing u) \<longleftrightarrow> (\<exists>u. timers (tloop w) x = Some u \<and> t_closing u)"
        using hyp(3,4) t nc by auto
      then show "x \<in> set (closing_handles (w\<lparr>tloop := L\<rparr>)) \<longleftrightarrow>
          (\<exists>u. timers (tloop (w\<lparr>tloop := L\<rparr>)) x = Some u \<and> t_closing u)" using timers_invD(5) [OF inv, of x] by simp
    next
      fix x u assume x: "timers (tloop (w\<lparr>tloop := L\<rparr>)) x = Some u" "t_closing u"
      then have "timers (tloop w) x = Some u" using hyp(3,4) by (cases "x = a") auto
      from timers_invD(6) [OF inv this x(2)] hyp(2) rd
      show "\<not> t_active u" "x \<notin> set (ready (tloop (w\<lparr>tloop := L\<rparr>)))" by simp_all
    qed (use hyp(1) timers_invD(4) [OF inv] in simp_all)
  qed
  show ?thesis
  proof (cases "repeat t = 0")
    case True
    have "timers L0 = (timers (tloop w))(a \<mapsto> t)" using t by (auto simp: L0_def)
    moreover have "room (w\<lparr>tloop := L0\<rparr>) k" using r by (simp add: room_def L0_def)
    ultimately show ?thesis using True cb g0 inv0 [of L0 t] ok0 nc
      by (intro exI [of _ L0]) (simp add: uv_timer_again_def rearmed_def flip: L0_def, simp add: L0_def)
  next
    case False
    have stop: "uv_timer_stop L0 a = Inr L0" using inact g0 d(1) by (simp add: uv_timer_stop_def L0_def remove1_idem)
    have "unat (nelts (timer_heap L0)) < 2 ^ 32 - 1" "unat (timer_counter L0) < 2 ^ 64 - 1"
      using r by (simp_all add: L0_def room_def)
    from uv_timer_start_ok [OF ok0 t0 nc _ this, of "timer_cb t" "repeat t" "repeat t"] cb
    obtain L where L: "uv_timer_start L0 a (timer_cb t) (repeat t) (repeat t) = Inr (0, L)" "timers_ok L"
      "timers L = (timers L0)(a \<mapsto> fresh_timer L0 (timer_cb t) (repeat t) (repeat t))" "ready L = remove1 a (ready L0)"
      "time L = time L0" "timer_counter L = timer_counter L0 + 1" by auto
    have fr: "fresh_timer L0 (timer_cb t) (repeat t) (repeat t) = rearmed (tloop w) t" using False by (simp add: rearmed_def fresh_timer_def L0_def)
    have tm: "timers L = (timers (tloop w))(a \<mapsto> rearmed (tloop w) t)" unfolding L(3) fr by (simp add: L0_def)
    have rL: "ready L = rest" using L(4) d(1) by (simp add: L0_def remove1_idem)
    have "room (w\<lparr>tloop := L\<rparr>) k"
    proof -
      have "started L = insert a (started (tloop w))" using started_put [OF tm] False by (simp add: rearmed_def fresh_timer_def)
      then have "unat (nelts (timer_heap L)) = Suc (unat (nelts (timer_heap (tloop w))))"
        using nelts_started [OF ok] nelts_started [OF L(2)] na by simp
      moreover have "unat (timer_counter L) \<le> Suc (unat (timer_counter (tloop w)))"
        using L(6) by (simp add: L0_def unat_word_ariths)
      ultimately show ?thesis using r by (simp add: room_def)
    qed
    moreover have "\<not> t_closing (rearmed (tloop w) t)" using False by (simp add: rearmed_def fresh_timer_def)
    ultimately show ?thesis
      using False cb g0 stop L(1,5) inv0 [OF L(2) rL tm] rL tm
      by (intro exI [of _ L]) (simp add: uv_timer_again_def flip: L0_def, simp add: L0_def)
  qed
qed

text \<open>What has become of a timer whose callback has run.\<close>

definition fired :: "size_t \<Rightarrow> timer_kind uv_timer \<Rightarrow> timer_kind uv_timer \<Rightarrow> bool" where
  "fired now t t' \<longleftrightarrow>
     (if timer_cb t = Some TimerLibuvCb then t_closing t' \<and> \<not> t_active t'
      else if repeat t = 0 then t' = t
      else t_active t' \<and> \<not> t_closing t' \<and> timeout t' = clamped_timeout now (repeat t) \<and> repeat t' = repeat t \<and> timer_cb t' = timer_cb t)"

lemma fire_one:
  assumes inv: "timers_inv w" and rd: "ready (tloop w) = a # rest" and t: "timers (tloop w) a = Some t" and c: "data w a = Some cb"
    and r: "room w (Suc (length (js cb)) + k)" and js: "list_all adds_only (js cb)"
  shows "\<exists>L kind w'. uv_timer_again ((tloop w)\<lparr>ready := rest\<rparr>) a = Inr (0, L) \<and>
    timers L a = Some (rearmed (tloop w) t) \<and> timer_cb (rearmed (tloop w) t) = Some kind \<and>
    call_timer js kind a (w\<lparr>tloop := L\<rparr>) = Inr w' \<and> timers_inv w' \<and> room w' k \<and> ready (tloop w') = rest \<and>
    calls w' = calls w @ [cb] \<and> time (tloop w') = time (tloop w) \<and> next_handle w \<le> next_handle w' \<and>
    (\<forall>x < next_handle w. data w' x = data w x \<and> (x \<noteq> a \<longrightarrow> timers (tloop w') x = timers (tloop w) x)) \<and>
    (\<exists>t'. timers (tloop w') a = Some t' \<and> fired (time (tloop w)) t t')"
proof -
  have r': "room w (Suc (length (js cb) + k))" using r by simp
  obtain L where L: "uv_timer_again ((tloop w)\<lparr>ready := rest\<rparr>) a = Inr (0, L)" "timers_inv (w\<lparr>tloop := L\<rparr>)"
    "room (w\<lparr>tloop := L\<rparr>) (length (js cb) + k)" "ready L = rest" "time L = time (tloop w)"
    "timers L = (timers (tloop w))(a \<mapsto> rearmed (tloop w) t)" using again_ok [OF inv rd r' t] by blast
  obtain kind where kind: "timer_cb t = Some kind" using timers_okD(5) [OF timers_invD(1) [OF inv], of a] rd t by auto
  have ra: "timer_cb (rearmed (tloop w) t) = Some kind" using kind by (simp add: rearmed_def fresh_timer_def)
  have an: "a < next_handle w" by (rule timers_invD(3) [OF inv t])
  have nr: "a \<notin> set rest" using timers_okD(3) [OF timers_invD(1) [OF inv]] rd by simp
  have nct: "\<not> t_closing t" using timers_invD(6) [OF inv t] rd by auto
  then have nc: "\<not> t_closing (rearmed (tloop w) t)" by (simp add: rearmed_def fresh_timer_def)
  define w1 where "w1 = w\<lparr>tloop := L, calls := calls w @ [cb]\<rparr>"
  have "timers_inv w1" "room w1 (length (js cb) + k)" using L(2,3) by (simp_all add: w1_def timers_inv_def room_def)
  from do_acts_ok [OF this js]
  obtain w2 where w2: "do_acts w1 (js cb) = Inr w2" "grown w1 w2" "room w2 k" by blast
  have inv2: "timers_inv w2" and g: "ready (tloop w2) = rest" "time (tloop w2) = time (tloop w)" "calls w2 = calls w @ [cb]"
    "next_handle w \<le> next_handle w2"
    and same: "\<And>x. x < next_handle w \<Longrightarrow> timers (tloop w2) x = timers L x \<and> data w2 x = data w x"
    using w2(2) L(4,5) by (simp_all add: grown_def w1_def)
  have call: "JS_Call js (w\<lparr>tloop := L\<rparr>) cb = Inr w2" using w2(1) by (simp add: JS_Call_def w1_def)
  have ta: "timers (tloop w2) a = Some (rearmed (tloop w) t)" using same [OF an] L(6) by simp
  show ?thesis
  proof (cases kind)
    case TimerLibuvCb
    obtain w3 where w3: "close_timer w2 a = Inr w3" "timers_inv w3"
      "timers (tloop w3) = (timers (tloop w2))(a \<mapsto> (rearmed (tloop w) t)\<lparr>t_closing := True, t_active := False\<rparr>)" "data w3 = data w2"
      "calls w3 = calls w2" "next_handle w3 = next_handle w2" "ready (tloop w3) = remove1 a (ready (tloop w2))"
      "time (tloop w3) = time (tloop w2)" "room w3 k" using close_timer_ok [OF inv2 ta nc] w2(3) by blast
    have "call_timer js kind a (w\<lparr>tloop := L\<rparr>) = Inr w3"
      using TimerLibuvCb c call w3(1) by (simp add: call_timer_def timer_libuv_cb_def)
    moreover have "fired (time (tloop w)) t ((rearmed (tloop w) t)\<lparr>t_closing := True, t_active := False\<rparr>)"
      using kind TimerLibuvCb by (simp add: fired_def)
    ultimately show ?thesis using L(1,6) ra w3 g same nr by (intro exI [of _ L] exI [of _ kind] exI [of _ w3]) (simp add: remove1_idem)
  next
    case SetIntervalLibuvCb
    have "call_timer js kind a (w\<lparr>tloop := L\<rparr>) = Inr w2"
      using SetIntervalLibuvCb c call by (simp add: call_timer_def set_interval_libuv_cb_def)
    moreover have "fired (time (tloop w)) t (rearmed (tloop w) t)"
      using kind SetIntervalLibuvCb by (simp add: fired_def rearmed_def fresh_timer_def)
    ultimately show ?thesis using L(1,6) ra ta w2(3) inv2 g same by (intro exI [of _ L] exI [of _ kind] exI [of _ w2]) simp
  qed
qed

text \<open>The timers the callbacks may start, plus one for each timer that is restarted.\<close>

definition cost :: "js_program \<Rightarrow> js_timers \<Rightarrow> nat list \<Rightarrow> nat" where
  "cost js w ds = sum_list (map (\<lambda>a. Suc (length (js (the (data w a))))) ds)"

abbreviation put_loop :: "js_timers \<Rightarrow> timer_kind timer_loop \<Rightarrow> js_timers" where
  "put_loop \<equiv> \<lambda>w L. w\<lparr>tloop := L\<rparr>"

lemma run_ready_ok:
  assumes "timers_inv w" "ready (tloop w) = ds" "room w (cost js w ds)" "\<And>cb. list_all adds_only (js cb)"
  shows "\<exists>w'. run_ready tloop put_loop (call_timer js) (length ds) w = Inr w' \<and> timers_inv w' \<and> ready (tloop w') = [] \<and>
    calls w' = calls w @ map (\<lambda>a. the (data w a)) ds \<and> time (tloop w') = time (tloop w) \<and> next_handle w \<le> next_handle w' \<and>
    (\<forall>x < next_handle w. data w' x = data w x \<and> (x \<notin> set ds \<longrightarrow> timers (tloop w') x = timers (tloop w) x)) \<and>
    (\<forall>x \<in> set ds. \<exists>t t'. timers (tloop w) x = Some t \<and> timers (tloop w') x = Some t' \<and> fired (time (tloop w)) t t')"
  using assms(1-3)
proof (induction ds arbitrary: w)
  case Nil
  then show ?case by (subst run_ready.simps) simp
next
  case (Cons a ds)
  note inv = Cons.prems(1) and rd = Cons.prems(2)
  obtain t where t: "timers (tloop w) a = Some t" using timers_okD(5) [OF timers_invD(1) [OF inv], of a] rd by auto
  obtain cb where cb: "data w a = Some cb" using timers_invD(2) [OF inv t] by blast
  have dn: "x < next_handle w" if "x \<in> set (a # ds)" for x
    using timers_okD(5) [OF timers_invD(1) [OF inv], of x] timers_invD(3) [OF inv, of x] rd that by auto
  have ad: "a \<notin> set ds" using timers_okD(3) [OF timers_invD(1) [OF inv]] rd by simp
  have r: "room w (Suc (length (js cb)) + cost js w ds)" using Cons.prems(3) cb by (simp add: cost_def)
  obtain L kind w1 where L: "uv_timer_again ((tloop w)\<lparr>ready := ds\<rparr>) a = Inr (0, L)"
    "timers L a = Some (rearmed (tloop w) t)" "timer_cb (rearmed (tloop w) t) = Some kind"
    "call_timer js kind a (w\<lparr>tloop := L\<rparr>) = Inr w1" and w1: "timers_inv w1" "room w1 (cost js w ds)" "ready (tloop w1) = ds"
    "calls w1 = calls w @ [cb]" "time (tloop w1) = time (tloop w)" "next_handle w \<le> next_handle w1"
    "\<forall>x < next_handle w. data w1 x = data w x \<and> (x \<noteq> a \<longrightarrow> timers (tloop w1) x = timers (tloop w) x)"
    and fa: "\<exists>t'. timers (tloop w1) a = Some t' \<and> fired (time (tloop w)) t t'"
    using fire_one [where js = js, OF inv rd t cb r assms(4)] by blast
  have da: "data w1 x = data w x" if "x \<in> set ds" for x using w1(7) dn that by simp
  have "cost js w1 ds = cost js w ds" unfolding cost_def using da by (metis (mono_tags, lifting) map_eq_conv)
  then obtain w2 where w2: "run_ready tloop put_loop (call_timer js) (length ds) w1 = Inr w2" "timers_inv w2" "ready (tloop w2) = []"
    "calls w2 = calls w1 @ map (\<lambda>a. the (data w1 a)) ds" "time (tloop w2) = time (tloop w1)" "next_handle w1 \<le> next_handle w2"
    "\<forall>x < next_handle w1. data w2 x = data w1 x \<and> (x \<notin> set ds \<longrightarrow> timers (tloop w2) x = timers (tloop w1) x)"
    "\<forall>x \<in> set ds. \<exists>t t'. timers (tloop w1) x = Some t \<and> timers (tloop w2) x = Some t' \<and> fired (time (tloop w1)) t t'"
    using Cons.IH [OF w1(1,3)] w1(2) by auto
  have run: "run_ready tloop put_loop (call_timer js) (length (a # ds)) w = Inr w2"
    using rd L w2(1) by (subst run_ready.simps) (simp add: get_timer_def)
  have cl: "calls w2 = calls w @ map (\<lambda>a. the (data w a)) (a # ds)"
    using w2(4) w1(4) cb da by simp
  have sm: "\<forall>x < next_handle w. data w2 x = data w x \<and> (x \<notin> set (a # ds) \<longrightarrow> timers (tloop w2) x = timers (tloop w) x)"
    using w2(7) w1(6,7) by auto
  have fi: "\<exists>t t'. timers (tloop w) x = Some t \<and> timers (tloop w2) x = Some t' \<and> fired (time (tloop w)) t t'"
    if x: "x \<in> set (a # ds)" for x
  proof (cases "x = a")
    case True
    have "timers (tloop w2) a = timers (tloop w1) a" using w2(7) ad dn [of a] w1(6) by simp
    then show ?thesis using True t fa by auto
  next
    case False
    then have "x \<in> set ds" using x by simp
    moreover from this have "timers (tloop w1) x = timers (tloop w) x" using w1(7) dn [OF x] False by simp
    moreover obtain u u' where "timers (tloop w1) x = Some u" "timers (tloop w2) x = Some u'" "fired (time (tloop w1)) u u'"
      using w2(8) \<open>x \<in> set ds\<close> by blast
    ultimately show ?thesis using w1(5) by (metis (no_types))
  qed
  show ?case using run cl sm fi w2(2,3,5,6) w1(5,6) by (intro exI [of _ w2]) auto
qed

text \<open>The timers of a turn run in order, and each is afterwards as its kind demands.\<close>

lemma run_timers_ok:
  assumes inv: "timers_inv w" and rd: "ready (tloop w) = []" and js: "\<And>cb. list_all adds_only (js cb)"
    and r: "\<And>ds. distinct ds \<Longrightarrow> set ds = due (tloop w) \<Longrightarrow> room w (cost js w ds)"
  shows "\<exists>w' ds. run_timers js w = Inr w' \<and> timers_inv w' \<and> ready (tloop w') = [] \<and> distinct ds \<and> set ds = due (tloop w) \<and>
    sorted_wrt (timer_less_than (timers (tloop w))) ds \<and> calls w' = calls w @ map (\<lambda>a. the (data w a)) ds \<and>
    (\<forall>x < next_handle w. data w' x = data w x \<and> (x \<notin> set ds \<longrightarrow> timers (tloop w') x = timers (tloop w) x)) \<and>
    (\<forall>x \<in> set ds. \<exists>t t'. timers (tloop w) x = Some t \<and> timers (tloop w') x = Some t' \<and>
       fired (time (tloop w)) (t\<lparr>t_active := False\<rparr>) t')"
proof -
  note ok = timers_invD(1) [OF inv]
  obtain L ds where L: "collect_due (unat (nelts (timer_heap (tloop w)))) (tloop w) = Inr L" "timers_ok L" "ready L = ds"
    "distinct ds" "set ds = due (tloop w)" "sorted_wrt (timer_less_than (timers (tloop w))) ds"
    "timers L = deactivated (tloop w) (due (tloop w))" "time L = time (tloop w)" "timer_counter L = timer_counter (tloop w)"
    using collect_due_ok [OF ok le_refl] unfolding rd by auto
  let ?w = "w\<lparr>tloop := L\<rparr>"
  have cl: "(\<exists>u. timers L x = Some u \<and> t_closing u) \<longleftrightarrow> (\<exists>u. timers (tloop w) x = Some u \<and> t_closing u)" for x
    unfolding L(7) by (cases "timers (tloop w) x") (simp_all add: deactivated_def)
  have inv': "timers_inv ?w"
    unfolding timers_inv_def
  proof (intro conjI allI impI)
    fix x u assume "timers (tloop ?w) x = Some u"
    then have "deactivated (tloop w) (due (tloop w)) x = Some u" using L(7) by simp
    then obtain u' where "timers (tloop w) x = Some u'" by (auto simp: deactivated_def split: if_splits)
    from timers_invD(2,3) [OF inv this] show "data ?w x \<noteq> None" "x < next_handle ?w" by simp_all
  next
    fix x
    show "x \<in> set (closing_handles ?w) \<longleftrightarrow> (\<exists>u. timers (tloop ?w) x = Some u \<and> t_closing u)"
      using timers_invD(5) [OF inv, of x] cl [of x] by simp
  next
    fix x u assume x: "timers (tloop ?w) x = Some u" "t_closing u"
    then obtain u' where u': "timers (tloop w) x = Some u'" "t_closing u'" using cl [of x] by auto
    then have "\<not> t_active u'" using timers_invD(6) [OF inv] by blast
    then have "x \<notin> due (tloop w)" using u'(1) by (simp add: due_def)
    then show "\<not> t_active u" "x \<notin> set (ready (tloop ?w))"
      using x u' \<open>\<not> t_active u'\<close> L(3,5,7) by (simp_all add: deactivated_def)
  qed (use L(2) timers_invD(4) [OF inv] in simp_all)
  have sub: "started L \<subseteq> started (tloop w)" unfolding started_def L(7) by (auto simp: deactivated_def split: if_splits)
  have "room ?w (cost js ?w ds)"
    using r [OF L(4,5)] nelts_started [OF ok] nelts_started [OF L(2)] card_mono [OF _ sub] L(9) by (simp add: room_def cost_def)
  from run_ready_ok [OF inv' _ this js]
  obtain w' where w': "run_ready tloop put_loop (call_timer js) (length ds) ?w = Inr w'" "timers_inv w'" "ready (tloop w') = []"
    "calls w' = calls w @ map (\<lambda>a. the (data w a)) ds"
    "\<forall>x < next_handle w. data w' x = data w x \<and> (x \<notin> set ds \<longrightarrow> timers (tloop w') x = timers L x)"
    "\<forall>x \<in> set ds. \<exists>t t'. timers L x = Some t \<and> timers (tloop w') x = Some t' \<and> fired (time L) t t'"
    using L(3) by auto
  have id: "(tloop w)\<lparr>ready := []\<rparr> = tloop w" using rd by simp
  have "run_timers js w = Inr w'"
    unfolding run_timers_def uv__run_timers_def id using L(1,3) w'(1) by simp
  moreover have "timers L x = timers (tloop w) x" if "x \<notin> set ds" for x using that L(5,7) by (simp add: deactivated_def)
  moreover have "\<exists>t t'. timers (tloop w) x = Some t \<and> timers (tloop w') x = Some t' \<and> fired (time (tloop w)) (t\<lparr>t_active := False\<rparr>) t'"
    if "x \<in> set ds" for x
  proof -
    have "timers L x = map_option (t_active_update (\<lambda>_. False)) (timers (tloop w) x)" using that L(5,7) by (simp add: deactivated_def)
    moreover from w'(6) that obtain t t' where "timers L x = Some t" "timers (tloop w') x = Some t'" "fired (time L) t t'" by blast
    ultimately show ?thesis using L(8) by (cases "timers (tloop w) x") auto
  qed
  ultimately show ?thesis using w'(2-5) L(4-6) by (intro exI [of _ w'] exI [of _ ds]) auto
qed

section \<open>Closing\<close>

lemma timers_ok_drop:
  assumes ok: "timers_ok L" and a: "a \<notin> started L" "a \<notin> set (ready L)"
  shows "timers_ok (L\<lparr>timers := (timers L)(a := None)\<rparr>)"
proof -
  let ?L = "L\<lparr>timers := (timers L)(a := None)\<rparr>"
  have st: "started ?L = started L" using a(1) by (auto simp: started_def)
  have ne: "x \<noteq> a" if "x \<in> started L \<union> set (ready L)" for x using that a by auto
  have lt: "timer_less_than (timers ?L) x y = timer_less_than (timers L) x y" if "x \<in> started L" "y \<in> started L" for x y
    using that ne by (simp add: timer_less_than_other)
  show ?thesis
    unfolding timers_ok_def st
  proof (intro conjI allI impI ballI)
    show "heap_ok (timer_less_than (timers ?L)) (timer_heap ?L) (started L)"
      using timers_okD(1) [OF ok] lt by (subst heap_ok_cong [where lt' = "timer_less_than (timers L)"]) auto
  next
    fix x assume "x \<in> started L \<union> set (ready ?L)"
    then have x: "x \<in> started L \<union> set (ready L)" by simp
    show "\<exists>t. timers ?L x = Some t \<and> timer_cb t \<noteq> None" using timers_okD(5) [OF ok x] ne [OF x] by simp
  next
    fix x t assume "x \<in> started L" "timers ?L x = Some t"
    then show "start_id t < timer_counter ?L" using timers_okD(6) [OF ok, of x t] by (simp split: if_splits)
  next
    fix x y t u assume "x \<in> started L" "y \<in> started L" "timers ?L x = Some t" "timers ?L y = Some u" "start_id t = start_id u"
    then show "x = y" using timers_okD(7) [OF ok, of x y t u] by (simp split: if_splits)
  qed (use timers_okD(2-4) [OF ok] in \<open>simp_all split: if_splits\<close>)
qed

text \<open>In the middle of the closing phase the handles still to be freed are \<open>as\<close>.\<close>

lemma finish_all_ok:
  assumes "timers_ok (tloop w)" "distinct as"
    "\<And>a. a \<in> set as \<Longrightarrow> data w a \<noteq> None \<and> a \<notin> set (ready (tloop w)) \<and> (\<exists>t. timers (tloop w) a = Some t \<and> t_closing t \<and> \<not> t_active t)"
  shows "\<exists>w'. finish_all w as = Inr w' \<and> timers_ok (tloop w') \<and>
    timers (tloop w') = (\<lambda>x. if x \<in> set as then None else timers (tloop w) x) \<and>
    data w' = (\<lambda>x. if x \<in> set as then None else data w x) \<and> ready (tloop w') = ready (tloop w) \<and> time (tloop w') = time (tloop w) \<and>
    calls w' = calls w \<and> closing_handles w' = closing_handles w \<and> next_handle w' = next_handle w \<and>
    timer_heap (tloop w') = timer_heap (tloop w) \<and> timer_counter (tloop w') = timer_counter (tloop w)"
  using assms
proof (induction "as" arbitrary: w)
  case (Cons a "as")
  obtain t where t: "timers (tloop w) a = Some t" "t_closing t" "\<not> t_active t" and d: "data w a \<noteq> None" and nr: "a \<notin> set (ready (tloop w))"
    using Cons.prems(3) [of a] by auto
  define w1 where "w1 = w\<lparr>tloop := (tloop w)\<lparr>timers := (timers (tloop w))(a := None)\<rparr>, data := (data w)(a := None)\<rparr>"
  have ns: "a \<notin> started (tloop w)" using t by (simp add: started_def)
  have o: "on_close w a = Inr w1" using t d by (simp add: on_close_def get_timer_def w1_def)
  have ok1: "timers_ok (tloop w1)" using timers_ok_drop [OF Cons.prems(1) ns nr] by (simp add: w1_def)
  have "data w1 x \<noteq> None \<and> x \<notin> set (ready (tloop w1)) \<and> (\<exists>t. timers (tloop w1) x = Some t \<and> t_closing t \<and> \<not> t_active t)"
    if "x \<in> set as" for x
    using that Cons.prems(2) Cons.prems(3) [of x] by (auto simp: w1_def)
  then obtain w' where "finish_all w1 as = Inr w'" "timers_ok (tloop w')"
    "timers (tloop w') = (\<lambda>x. if x \<in> set as then None else timers (tloop w1) x)"
    "data w' = (\<lambda>x. if x \<in> set as then None else data w1 x)" "ready (tloop w') = ready (tloop w1)" "time (tloop w') = time (tloop w1)"
    "calls w' = calls w1" "closing_handles w' = closing_handles w1" "next_handle w' = next_handle w1"
    "timer_heap (tloop w') = timer_heap (tloop w1)" "timer_counter (tloop w') = timer_counter (tloop w1)"
    using Cons.IH [OF ok1] Cons.prems(2) by auto
  then show ?case using t o by (intro exI [of _ w']) (auto simp: get_timer_def w1_def fun_eq_iff)
qed simp

lemma closing_ok:
  assumes inv: "timers_inv w"
  shows "\<exists>w'. uv__run_closing_handles w = Inr w' \<and> timers_inv w' \<and> closing_handles w' = [] \<and>
    timers (tloop w') = (\<lambda>x. if x \<in> set (closing_handles w) then None else timers (tloop w) x) \<and>
    data w' = (\<lambda>x. if x \<in> set (closing_handles w) then None else data w x) \<and> ready (tloop w') = ready (tloop w) \<and>
    calls w' = calls w \<and> next_handle w' = next_handle w \<and> time (tloop w') = time (tloop w) \<and>
    timer_heap (tloop w') = timer_heap (tloop w) \<and> timer_counter (tloop w') = timer_counter (tloop w)"
proof -
  let ?w = "w\<lparr>closing_handles := []\<rparr>"
  have "data ?w a \<noteq> None \<and> a \<notin> set (ready (tloop ?w)) \<and> (\<exists>t. timers (tloop ?w) a = Some t \<and> t_closing t \<and> \<not> t_active t)"
    if "a \<in> set (closing_handles w)" for a
    using that timers_invD(5) [OF inv, of a] timers_invD(2,6) [OF inv] by fastforce
  from finish_all_ok [OF _ timers_invD(4) [OF inv] this]
  obtain w' where w': "finish_all ?w (closing_handles w) = Inr w'" "timers_ok (tloop w')"
    "timers (tloop w') = (\<lambda>x. if x \<in> set (closing_handles w) then None else timers (tloop w) x)"
    "data w' = (\<lambda>x. if x \<in> set (closing_handles w) then None else data w x)" "ready (tloop w') = ready (tloop w)"
    "time (tloop w') = time (tloop w)" "calls w' = calls w" "closing_handles w' = []" "next_handle w' = next_handle w"
    "timer_heap (tloop w') = timer_heap (tloop w)" "timer_counter (tloop w') = timer_counter (tloop w)"
    using timers_invD(1) [OF inv] by (auto simp: fun_eq_iff)
  have "timers_inv w'"
    unfolding timers_inv_def
  proof (intro conjI allI impI)
    fix a t assume "timers (tloop w') a = Some t"
    then show "data w' a \<noteq> None" "a < next_handle w'" using w'(3,4,9) timers_invD(2,3) [OF inv, of a t] by (auto split: if_splits)
  next
    fix a show "a \<in> set (closing_handles w') \<longleftrightarrow> (\<exists>t. timers (tloop w') a = Some t \<and> t_closing t)"
      using timers_invD(5) [OF inv, of a] unfolding w'(3,8) by auto
  next
    fix a t assume "timers (tloop w') a = Some t" "t_closing t"
    then show "\<not> t_active t" "a \<notin> set (ready (tloop w'))"
      using timers_invD(5) [OF inv, of a] unfolding w'(3) by (auto split: if_splits)
  qed (use w'(2,8) in simp_all)
  then show ?thesis using w' by (simp add: uv__run_closing_handles_def)
qed

section \<open>Properties\<close>

lemma timers_inv_time:
  "timers_inv (w\<lparr>tloop := (tloop w)\<lparr>time := n\<rparr>\<rparr>) = timers_inv w"
  by (simp add: timers_inv_def timers_ok_time)



text \<open>
  C32. \<^verbatim>\<open>clearInterval\<close> succeeds exactly for the identifier of an interval whose handle is not yet
  being closed. For an identifier that was never returned it dereferences a null pointer, for one
  that was cleared before it fails the assertion of \<^verbatim>\<open>uv_close\<close> or, once the handle has been
  freed, uses freed memory, because the map keeps the entry.
\<close>

theorem clear_interval_cases:
  assumes "timers_inv w"
  shows "(case registered_interval_cb w i of
      Some (Some a) \<Rightarrow>
        (case timers (tloop w) a of
           None \<Rightarrow> clearIntervalFunc w i = Inl UseAfterFree
         | Some t \<Rightarrow>
             if t_closing t then clearIntervalFunc w i = Inl AssertFail
             else \<exists>w'. clearIntervalFunc w i = Inr w' \<and> timers_inv w' \<and> a \<notin> started (tloop w') \<and> a \<notin> set (ready (tloop w')) \<and>
                    a \<in> set (closing_handles w') \<and> registered_interval_cb w' = registered_interval_cb w)
    | _ \<Rightarrow> clearIntervalFunc w i = Inl NullDeref)"
proof (cases "registered_interval_cb w i")
  case (Some p)
  show ?thesis
  proof (cases p)
    case pa: (Some a)
    show ?thesis
    proof (cases "timers (tloop w) a")
      case None
      then show ?thesis using Some pa by (simp add: clearIntervalFunc_def close_timer_def get_timer_def)
    next
      case t: (Some t)
      show ?thesis
      proof (cases "t_closing t")
        case True
        then show ?thesis using Some pa t by (simp add: clearIntervalFunc_def close_timer_def get_timer_def)
      next
        case False
        obtain w' where w': "close_timer w a = Inr w'" "timers_inv w'" "closing_handles w' = a # closing_handles w"
          "timers (tloop w') = (timers (tloop w))(a \<mapsto> t\<lparr>t_closing := True, t_active := False\<rparr>)"
          using close_timer_ok [OF assms t False] by blast
        have "a \<notin> set (ready (tloop w'))" using timers_invD(6) [OF w'(2), of a] w'(4) by simp
        moreover have "registered_interval_cb w' = registered_interval_cb w"
          using w'(1) by (auto simp: close_timer_def res_simps split: if_splits)
        ultimately show ?thesis using Some pa t False w' by (simp add: clearIntervalFunc_def started_def)
      qed
    qed
  qed (use Some in \<open>simp add: clearIntervalFunc_def\<close>)
qed (simp add: clearIntervalFunc_def)

text \<open>A program that sets a timeout of 5 ms at time 100 and an interval of 7 ms, as seen at time 105.\<close>

definition no_timers :: js_timers where
  "no_timers = \<lparr>tloop = \<lparr>time = 100, timer_counter = 0, timer_heap = \<lparr>heap_top = None, nelts = 0, heap_mem = Map.empty\<rparr>,
     timers = Map.empty, ready = []\<rparr>, data = Map.empty, registered_timer_cb = [], registered_interval_cb = Map.empty,
     closing_handles = [], next_handle = 0, calls = []\<rparr>"

lemma no_timers_inv: "timers_inv no_timers"
proof -
  have "heap_ok lt (timer_heap (tloop no_timers)) {}" for lt
    using heap_ok_init [of lt "timer_heap (tloop no_timers)"] by (simp add: heap_init_def no_timers_def)
  moreover have "started (tloop no_timers) = {}" by (simp add: started_def no_timers_def)
  ultimately have "timers_ok (tloop no_timers)" by (simp add: timers_ok_def) (simp add: no_timers_def)
  then show ?thesis by (simp add: timers_inv_def) (simp add: no_timers_def)
qed

lemma one_timeout:
  obtains w where "SetTimeOutFunc no_timers 42 5 = Inr w" "timers_inv (w\<lparr>tloop := (tloop w)\<lparr>time := 105\<rparr>\<rparr>)"
    "ready (tloop w) = []" "due ((tloop w)\<lparr>time := 105\<rparr>) = {0}" "data w 0 = Some 42" "calls w = []" "room w 9"
    "timers (tloop w) 0 = Some \<lparr>timer_cb = Some TimerLibuvCb, timeout = 105, repeat = 0, start_id = 0, t_active = True, t_closing = False\<rparr>"
proof -
  have "room no_timers (Suc 9)" by (simp add: room_def no_timers_def)
  from new_timer_ok [OF no_timers_inv this, of 42 TimerLibuvCb 5 0]
  obtain w where w: "new_timer no_timers 42 TimerLibuvCb 5 0 = Inr w" "grown no_timers w" "room w 9" "next_handle w = 1"
    "data w 0 = Some 42" "timers (tloop w) 0 = Some (fresh_timer (tloop no_timers) (Some TimerLibuvCb) 5 0)"
    by (auto simp: no_timers_def)
  have inv: "timers_inv w" and f: "ready (tloop w) = []" "calls w = []" using w(2) by (simp_all add: grown_def no_timers_def)
  have t0: "timers (tloop w) 0 = Some \<lparr>timer_cb = Some TimerLibuvCb, timeout = 105, repeat = 0, start_id = 0, t_active = True, t_closing = False\<rparr>"
    using w(6) by (simp add: fresh_timer_def no_timers_def clamped_timeout_def)
  have "due ((tloop w)\<lparr>time := 105\<rparr>) = {0}"
    using timers_invD(3) [OF inv] w(4) t0 by (fastforce simp: due_def)
  with w(1,3,5) inv f t0 show ?thesis by (intro that [of w]) (simp_all add: SetTimeOutFunc_def timers_inv_time)
qed

lemma one_timeout_room:
  assumes "room w 9" "data w 0 = Some 42" "distinct ds" "set ds = {0}"
  shows "room (w\<lparr>tloop := (tloop w)\<lparr>time := n\<rparr>\<rparr>) (cost (\<lambda>_. [SetTimeout 43 1]) (w\<lparr>tloop := (tloop w)\<lparr>time := n\<rparr>\<rparr>) ds)"
proof -
  have "ds = [0]" using assms(3,4) by (cases ds; cases "tl ds") auto
  then show ?thesis using assms(1,2) by (simp add: cost_def room_def)
qed



theorem clear_interval_cases_witness: "timers_inv no_timers \<and> clearIntervalFunc no_timers 1234567 = Inl NullDeref"
  using no_timers_inv clear_interval_cases [OF no_timers_inv, of 1234567] by (simp add: no_timers_def)

end
