(* ===== verification/Workers.thy ===== *)
theory Workers
  imports Work_Queue "HOL-Library.Multiset"
begin

text \<open>
  A CPU worker (\<^verbatim>\<open>include/i_worker.h\<close>, \<^verbatim>\<open>src/workers/fib_worker.cc\<close>,
  \<^verbatim>\<open>src/workers/js_worker.cc\<close>, \<^verbatim>\<open>src/workers/inference_worker.cc\<close>): a thread that takes jobs
  from a submission queue and puts results into a result queue, and a doorbell, a
  \<^verbatim>\<open>uv_async_t\<close>, that makes the main thread drain the result queue.

  The three workers share this structure. What differs is what a job computes, and how
  \<^verbatim>\<open>stop()\<close> releases the callbacks of results that nobody has taken. Both are arguments: \<open>run1\<close>
  takes the state that is local to the thread and a job, and gives the next local state and the
  results that the thread pushes one after the other. A \<^verbatim>\<open>JSValue\<close> is a number.

  The main thread and the worker thread are interleaved. An operation on one of the queues is a
  single step; how it is made of atomic accesses is the subject of theories \<open>Spsc_Queue\<close> and
  \<open>Work_Queue\<close>.
\<close>

section \<open>Jobs, results and the worker\<close>

record 'j work_item =
  job_id :: size_t
  job :: 'j
  callback :: nat

record 'r job_result =
  r_job_id :: size_t
  r_value :: 'r
  r_error :: int
  is_done :: bool
  r_callback :: nat

text \<open>The doorbell: a signal was sent and not yet seen, the handle keeps the loop alive, it is closing.\<close>

record doorbell_handle =
  async_pending :: bool
  refd :: bool
  bell_closing :: bool

record ('j, 'r) worker =
  sub_queue :: "'j work_item work_queue"
  result_queue :: "'r job_result spsc"
  doorbell :: doorbell_handle
  in_flight :: int

definition Worker_new :: "size_t \<Rightarrow> size_t \<Rightarrow> 'j work_item \<Rightarrow> 'r job_result \<Rightarrow> ('j, 'r) worker" where
  "Worker_new QN RN d e =
     \<lparr>sub_queue = WorkQueue_new QN d, result_queue = SPSCQueue_new RN e,
      doorbell = \<lparr>async_pending = False, refd = False, bell_closing = False\<rparr>, in_flight = 0\<rparr>"

definition uv_ref_bell :: "('j, 'r) worker \<Rightarrow> bool \<Rightarrow> ('j, 'r) worker" where
  "uv_ref_bell w b = w\<lparr>doorbell := (doorbell w)\<lparr>refd := b\<rparr>\<rparr>"

definition Worker_enqueue :: "size_t \<Rightarrow> ('j, 'r) worker \<Rightarrow> 'j work_item \<Rightarrow> (bool \<times> ('j, 'r) worker) res" where
  "Worker_enqueue QN w item =
     res_bind (WorkQueue_enqueue QN (sub_queue w) item) (\<lambda>(b, q).
       if \<not> b then Inr (False, w\<lparr>sub_queue := q\<rparr>)
       else
         let w1 = w\<lparr>sub_queue := q, in_flight := in_flight w + 1\<rparr>
         in Inr (True, if in_flight w = 0 then uv_ref_bell w1 True else w1))"

text \<open>\<^verbatim>\<open>if (r.is_done && --self->in_flight_ == 0) uv_unref(handle)\<close>\<close>

definition result_taken :: "('j, 'r) worker \<Rightarrow> 'r job_result \<Rightarrow> ('j, 'r) worker" where
  "result_taken w r =
     (if \<not> is_done r then w
      else
        let w1 = w\<lparr>in_flight := in_flight w - 1\<rparr>
        in if in_flight w1 = 0 then uv_ref_bell w1 False else w1)"

section \<open>Releasing the results that are left\<close>

text \<open>The workers with one result for a job release the callback of every result.\<close>

definition free_results :: "'r job_result list \<Rightarrow> nat list" where
  "free_results rs = map r_callback rs"

text \<open>
  The inference worker remembers in \<^verbatim>\<open>mid_stream\<close> the callback of a job whose last result has
  not been seen and releases what is left there at the end.
\<close>

fun mid_stream_loop :: "'r job_result list \<Rightarrow> (size_t \<times> nat) list \<Rightarrow> nat list" where
  "mid_stream_loop [] mid_stream = map snd mid_stream"
| "mid_stream_loop (r # rs) mid_stream =
     (if is_done r then r_callback r # mid_stream_loop rs (filter (\<lambda>(i, _). i \<noteq> r_job_id r) mid_stream)
      else mid_stream_loop rs ((r_job_id r, r_callback r) # filter (\<lambda>(i, _). i \<noteq> r_job_id r) mid_stream))"

definition free_streams :: "'r job_result list \<Rightarrow> nat list" where
  "free_streams rs = mid_stream_loop rs []"

section \<open>The two threads\<close>

text \<open>
  The worker thread is about to call \<^verbatim>\<open>dequeue\<close>, about to push the first of the results of the
  present job, about to ring the doorbell, or has left its loop. The main thread is in the event
  loop, in the loop of \<^verbatim>\<open>on_result_ready\<close>, in the callback of a result, or waits in \<^verbatim>\<open>stop()\<close>
  for the thread to end; \<^verbatim>\<open>stop()\<close> may be called by such a callback.
\<close>

datatype 'r thread_pc = TDequeue | TPush "'r job_result list" | TSend "'r job_result list" | TExit

datatype 'r main_pc = MIdle | MReady | MCall "'r job_result" | MJoin "'r job_result option"

record ('s, 'j, 'r) wsys =
  worker :: "('j, 'r) worker"
  local :: 's
  tpc :: "'r thread_pc"
  mpc :: "'r main_pc"
  accepted :: "'j work_item list"      \<comment> \<open>jobs for which \<^verbatim>\<open>enqueue\<close> returned true\<close>
  taken :: "'j work_item list"         \<comment> \<open>jobs the thread has dequeued\<close>
  delivered :: "'r job_result list"    \<comment> \<open>calls of \<^verbatim>\<open>on_result\<close>\<close>
  freed :: "nat list"                  \<comment> \<open>calls of \<^verbatim>\<open>JS_FreeValue\<close> on a callback\<close>
  deleted :: bool

fun thread_next :: "'r job_result list \<Rightarrow> 'r thread_pc" where
  "thread_next [] = TDequeue"
| "thread_next rs = TPush rs"

definition after_stop :: "'r job_result option \<Rightarrow> 'r main_pc" where
  "after_stop r = (case r of None \<Rightarrow> MIdle | Some r \<Rightarrow> MCall r)"

inductive thread_step ::
  "size_t \<Rightarrow> size_t \<Rightarrow> ('s \<Rightarrow> 'j work_item \<Rightarrow> 's \<times> 'r job_result list) \<Rightarrow>
   ('s, 'j, 'r) wsys \<Rightarrow> ('s, 'j, 'r) wsys \<Rightarrow> bool"
  for QN RN run1 where
  t_item: "tpc s = TDequeue \<Longrightarrow> WorkQueue_dequeue QN (sub_queue (worker s)) = Inr (DeqItem x, q) \<Longrightarrow>
     run1 (local s) x = (l, rs) \<Longrightarrow>
     thread_step QN RN run1 s (s\<lparr>worker := (worker s)\<lparr>sub_queue := q\<rparr>, local := l, tpc := thread_next rs, taken := taken s @ [x]\<rparr>)"
| t_exit: "tpc s = TDequeue \<Longrightarrow> WorkQueue_dequeue QN (sub_queue (worker s)) = Inr (DeqFalse, q) \<Longrightarrow>
     thread_step QN RN run1 s (s\<lparr>worker := (worker s)\<lparr>sub_queue := q\<rparr>, tpc := TExit\<rparr>)"
| t_push: "tpc s = TPush (r # rs) \<Longrightarrow> SPSCQueue_push RN (result_queue (worker s)) r = Inr (True, q) \<Longrightarrow>
     thread_step QN RN run1 s (s\<lparr>worker := (worker s)\<lparr>result_queue := q\<rparr>, tpc := TSend rs\<rparr>)"
| t_send: "tpc s = TSend rs \<Longrightarrow>
     thread_step QN RN run1 s
       (s\<lparr>worker := (worker s)\<lparr>doorbell := (doorbell (worker s))\<lparr>async_pending := True\<rparr>\<rparr>, tpc := thread_next rs\<rparr>)"

text \<open>The event loop runs \<^verbatim>\<open>on_result_ready\<close> when the doorbell was rung, and finishes what it began.\<close>

inductive ready_step :: "size_t \<Rightarrow> ('s, 'j, 'r) wsys \<Rightarrow> ('s, 'j, 'r) wsys \<Rightarrow> bool" for RN where
  m_async: "mpc s = MIdle \<Longrightarrow> async_pending (doorbell (worker s)) \<Longrightarrow> \<not> bell_closing (doorbell (worker s)) \<Longrightarrow>
     ready_step RN s (s\<lparr>worker := (worker s)\<lparr>doorbell := (doorbell (worker s))\<lparr>async_pending := False\<rparr>\<rparr>, mpc := MReady\<rparr>)"
| m_pop: "mpc s = MReady \<Longrightarrow> SPSCQueue_pop RN (result_queue (worker s)) = Inr (Some r, q) \<Longrightarrow>
     ready_step RN s (s\<lparr>worker := (worker s)\<lparr>result_queue := q\<rparr>, mpc := MCall r, delivered := delivered s @ [r]\<rparr>)"
| m_return: "mpc s = MCall r \<Longrightarrow>
     ready_step RN s
       (s\<lparr>worker := result_taken (worker s) r, mpc := MReady, freed := freed s @ (if is_done r then [r_callback r] else [])\<rparr>)"
| m_empty: "mpc s = MReady \<Longrightarrow> SPSCQueue_pop RN (result_queue (worker s)) = Inr (None, q) \<Longrightarrow>
     ready_step RN s (s\<lparr>worker := (worker s)\<lparr>result_queue := q\<rparr>, mpc := MIdle\<rparr>)"

text \<open>The end of \<^verbatim>\<open>stop()\<close>, after the join: both queues are drained and the doorbell is closed.\<close>

inductive join_step ::
  "size_t \<Rightarrow> size_t \<Rightarrow> ('r job_result list \<Rightarrow> nat list) \<Rightarrow> ('s, 'j, 'r) wsys \<Rightarrow> ('s, 'j, 'r) wsys \<Rightarrow> bool"
  for QN RN release where
  m_join: "mpc s = MJoin r \<Longrightarrow> tpc s = TExit \<Longrightarrow>
     WorkQueue_drain QN (sub_queue (worker s)) = Some (Inr (items, q)) \<Longrightarrow>
     drain_loop RN (unat RN) (result_queue (worker s)) = Some (Inr (rs, q')) \<Longrightarrow>
     join_step QN RN release s
       (s\<lparr>worker := (worker s)\<lparr>sub_queue := q, result_queue := q', doorbell := (doorbell (worker s))\<lparr>bell_closing := True\<rparr>\<rparr>,
         mpc := after_stop r, freed := freed s @ map callback items @ release rs\<rparr>)"

text \<open>
  What the program decides: to submit a job, from the event loop or from a callback, as long as
  the worker belongs to a manager, and to call \<^verbatim>\<open>stop()\<close>, once. The closing phase of the loop
  deletes the worker.
\<close>

inductive user_step :: "size_t \<Rightarrow> ('s, 'j, 'r) wsys \<Rightarrow> ('s, 'j, 'r) wsys \<Rightarrow> bool" for QN where
  m_enqueue: "mpc s = MIdle \<or> mpc s = MCall r \<Longrightarrow> \<not> stopped (sub_queue (worker s)) \<Longrightarrow>
     Worker_enqueue QN (worker s) x = Inr (True, w) \<Longrightarrow>
     user_step QN s (s\<lparr>worker := w, accepted := accepted s @ [x]\<rparr>)"
| m_reject: "mpc s = MIdle \<or> mpc s = MCall r \<Longrightarrow> \<not> stopped (sub_queue (worker s)) \<Longrightarrow>
     Worker_enqueue QN (worker s) x = Inr (False, w) \<Longrightarrow> user_step QN s (s\<lparr>worker := w\<rparr>)"
| m_stop: "mpc s = after_stop r \<Longrightarrow> \<not> stopped (sub_queue (worker s)) \<Longrightarrow>
     user_step QN s (s\<lparr>worker := (worker s)\<lparr>sub_queue := WorkQueue_stop (sub_queue (worker s))\<rparr>, mpc := MJoin r\<rparr>)"
| m_closed: "mpc s = MIdle \<Longrightarrow> bell_closing (doorbell (worker s)) \<Longrightarrow> \<not> deleted s \<Longrightarrow>
     user_step QN s (s\<lparr>deleted := True\<rparr>)"

definition worker_init ::
  "size_t \<Rightarrow> size_t \<Rightarrow> 's \<Rightarrow> 'j work_item \<Rightarrow> 'r job_result \<Rightarrow> ('s, 'j, 'r) wsys" where
  "worker_init QN RN l d e =
     \<lparr>worker = Worker_new QN RN d e, local = l, tpc = TDequeue, mpc = MIdle,
      accepted = [], taken = [], delivered = [], freed = [], deleted = False\<rparr>"

text \<open>The steps that need no decision of the program, and all steps.\<close>

definition auto_step ::
  "size_t \<Rightarrow> size_t \<Rightarrow> ('s \<Rightarrow> 'j work_item \<Rightarrow> 's \<times> 'r job_result list) \<Rightarrow> ('r job_result list \<Rightarrow> nat list) \<Rightarrow>
   ('s, 'j, 'r) wsys \<Rightarrow> ('s, 'j, 'r) wsys \<Rightarrow> bool" where
  "auto_step QN RN run1 release s t \<longleftrightarrow> thread_step QN RN run1 s t \<or> ready_step RN s t \<or> join_step QN RN release s t"

inductive worker_reachable ::
  "size_t \<Rightarrow> size_t \<Rightarrow> ('s \<Rightarrow> 'j work_item \<Rightarrow> 's \<times> 'r job_result list) \<Rightarrow> ('r job_result list \<Rightarrow> nat list) \<Rightarrow>
   's \<Rightarrow> ('s, 'j, 'r) wsys \<Rightarrow> bool"
  for QN RN run1 release l0 where
  w_init: "worker_reachable QN RN run1 release l0 (worker_init QN RN l0 d e)"
| w_auto: "worker_reachable QN RN run1 release l0 s \<Longrightarrow> auto_step QN RN run1 release s t \<Longrightarrow>
     worker_reachable QN RN run1 release l0 t"
| w_user: "worker_reachable QN RN run1 release l0 s \<Longrightarrow> user_step QN s t \<Longrightarrow> worker_reachable QN RN run1 release l0 t"

section \<open>The stream of results\<close>

text \<open>The results of a sequence of jobs, and the local state after them.\<close>

fun outputs :: "('s \<Rightarrow> 'j work_item \<Rightarrow> 's \<times> 'r job_result list) \<Rightarrow> 's \<Rightarrow> 'j work_item list \<Rightarrow> 'r job_result list" where
  "outputs run1 l [] = []"
| "outputs run1 l (x # xs) = snd (run1 l x) @ outputs run1 (fst (run1 l x)) xs"

definition local_after :: "('s \<Rightarrow> 'j work_item \<Rightarrow> 's \<times> 'r job_result list) \<Rightarrow> 's \<Rightarrow> 'j work_item list \<Rightarrow> 's" where
  "local_after run1 l xs = foldl (\<lambda>l x. fst (run1 l x)) l xs"

lemma local_after_simps [simp]:
  "local_after run1 l [] = l" "local_after run1 l (x # xs) = local_after run1 (fst (run1 l x)) xs"
  by (simp_all add: local_after_def)

lemma outputs_append: "outputs run1 l (xs @ ys) = outputs run1 l xs @ outputs run1 (local_after run1 l xs) ys"
  by (induction xs arbitrary: l) auto

lemma local_after_append [simp]: "local_after run1 l (xs @ ys) = local_after run1 (local_after run1 l xs) ys"
  by (induction xs arbitrary: l) auto

text \<open>
  What the workers promise of the results of a job: all carry its callback and its number, and
  the last one, and only the last one, is marked.
\<close>

definition stream_of :: "'j work_item \<Rightarrow> 'r job_result list \<Rightarrow> bool" where
  "stream_of x rs \<longleftrightarrow> rs \<noteq> [] \<and> (\<forall>r \<in> set rs. r_callback r = callback x \<and> r_job_id r = job_id x) \<and>
     is_done (last rs) \<and> (\<forall>r \<in> set (butlast rs). \<not> is_done r)"

definition done_callbacks :: "'r job_result list \<Rightarrow> nat list" where
  "done_callbacks rs = map r_callback (filter is_done rs)"

lemma done_callbacks_simps [simp]:
  "done_callbacks [] = []" "done_callbacks (r # rs) = (if is_done r then r_callback r # done_callbacks rs else done_callbacks rs)"
  "done_callbacks (rs @ rs') = done_callbacks rs @ done_callbacks rs'"
  by (simp_all add: done_callbacks_def)

lemma stream_of_done:
  assumes "stream_of x rs"
  shows "done_callbacks rs = [callback x]"
proof -
  obtain bs r where rs: "rs = bs @ [r]" using assms by (cases rs rule: rev_cases) (auto simp: stream_of_def)
  then have "filter is_done bs = []" using assms by (auto simp: stream_of_def filter_empty_conv)
  then show ?thesis using assms rs by (auto simp: stream_of_def done_callbacks_def)
qed

section \<open>The invariant\<close>

fun todo :: "'r thread_pc \<Rightarrow> 'r job_result list" where
  "todo (TPush rs) = rs"
| "todo (TSend rs) = rs"
| "todo _ = []"

text \<open>The result whose callback is running.\<close>

fun current :: "'r main_pc \<Rightarrow> 'r job_result list" where
  "current (MCall r) = [r]"
| "current (MJoin (Some r)) = [r]"
| "current _ = []"

lemma todo_thread_next [simp]: "todo (thread_next rs) = rs" "thread_next rs = TPush rs' \<longleftrightarrow> rs = rs' \<and> rs \<noteq> []"
  "thread_next rs \<noteq> TExit" "thread_next rs \<noteq> TSend rs'"
  by (cases rs; auto)+

lemma current_after_stop [simp]: "current (after_stop r) = current (MJoin r)" "after_stop r \<noteq> MJoin r'" "after_stop r \<noteq> MReady"
  "current (MJoin r) = (case r of None \<Rightarrow> [] | Some x \<Rightarrow> [x])"
  by (auto simp: after_stop_def split: option.splits)

abbreviation jobs_left :: "size_t \<Rightarrow> ('s, 'j, 'r) wsys \<Rightarrow> 'j work_item list" where
  "jobs_left QN s \<equiv> spsc_contents QN (queue (sub_queue (worker s)))"

abbreviation results_left :: "size_t \<Rightarrow> ('s, 'j, 'r) wsys \<Rightarrow> 'r job_result list" where
  "results_left RN s \<equiv> spsc_contents RN (result_queue (worker s))"

abbreviation is_stopped :: "('s, 'j, 'r) wsys \<Rightarrow> bool" where
  "is_stopped s \<equiv> stopped (sub_queue (worker s))"

abbreviation is_drained :: "('s, 'j, 'r) wsys \<Rightarrow> bool" where
  "is_drained s \<equiv> bell_closing (doorbell (worker s))"

definition queues_inv :: "size_t \<Rightarrow> size_t \<Rightarrow> ('s, 'j, 'r) wsys \<Rightarrow> bool" where
  "queues_inv QN RN s \<longleftrightarrow> spsc_inv QN (queue (sub_queue (worker s))) \<and> spsc_inv RN (result_queue (worker s))"

definition stream_inv ::
  "('s \<Rightarrow> 'j work_item \<Rightarrow> 's \<times> 'r job_result list) \<Rightarrow> 's \<Rightarrow> size_t \<Rightarrow> size_t \<Rightarrow> ('s, 'j, 'r) wsys \<Rightarrow> bool" where
  "stream_inv run1 l0 QN RN s \<longleftrightarrow>
     local s = local_after run1 l0 (taken s) \<and>
     (\<exists>tail. accepted s = taken s @ tail \<and> (\<not> is_drained s \<longrightarrow> tail = jobs_left QN s)) \<and>
     (\<exists>tail. outputs run1 l0 (taken s) = delivered s @ tail \<and> (\<not> is_drained s \<longrightarrow> tail = results_left RN s @ todo (tpc s))) \<and>
     (is_drained s \<longrightarrow> jobs_left QN s = [] \<and> results_left RN s = [] \<and> tpc s = TExit)"

definition control_inv :: "size_t \<Rightarrow> size_t \<Rightarrow> ('s, 'j, 'r) wsys \<Rightarrow> bool" where
  "control_inv QN RN s \<longleftrightarrow>
     (\<not> is_drained s \<longrightarrow> sem (sub_queue (worker s)) + of_bool (tpc s = TExit) = length (jobs_left QN s) + of_bool (is_stopped s)) \<and>
     (tpc s = TExit \<longrightarrow> is_stopped s) \<and> tpc s \<noteq> TPush [] \<and>
     (is_drained s \<longrightarrow> is_stopped s) \<and>
     (is_stopped s \<and> \<not> is_drained s \<longleftrightarrow> (\<exists>r. mpc s = MJoin r)) \<and>
     (results_left RN s \<noteq> [] \<longrightarrow> async_pending (doorbell (worker s)) \<or> mpc s \<noteq> MIdle \<or> (\<exists>rs. tpc s = TSend rs))"

definition flight_inv :: "('s, 'j, 'r) wsys \<Rightarrow> bool" where
  "flight_inv s \<longleftrightarrow>
     in_flight (worker s) + int (length (done_callbacks (delivered s))) =
       int (length (accepted s)) + int (length (done_callbacks (current (mpc s)))) \<and>
     refd (doorbell (worker s)) = (in_flight (worker s) \<noteq> 0)"

definition freed_inv :: "('s, 'j, 'r) wsys \<Rightarrow> bool" where
  "freed_inv s \<longleftrightarrow>
     (is_drained s \<longrightarrow> mset (freed s @ done_callbacks (current (mpc s))) = mset (map callback (accepted s))) \<and>
     (\<not> is_drained s \<longrightarrow> freed s @ done_callbacks (current (mpc s)) = done_callbacks (delivered s))"

definition worker_inv ::
  "('s \<Rightarrow> 'j work_item \<Rightarrow> 's \<times> 'r job_result list) \<Rightarrow> 's \<Rightarrow> size_t \<Rightarrow> size_t \<Rightarrow> ('s, 'j, 'r) wsys \<Rightarrow> bool" where
  "worker_inv run1 l0 QN RN s \<longleftrightarrow>
     queues_inv QN RN s \<and> stream_inv run1 l0 QN RN s \<and> control_inv QN RN s \<and> flight_inv s \<and> freed_inv s"

lemma dequeue_item:
  assumes "spsc_inv QN (queue q)" "WorkQueue_dequeue QN q = Inr (DeqItem x, q')"
  shows "spsc_inv QN (queue q')" "spsc_contents QN (queue q) = x # spsc_contents QN (queue q')"
    "sem q = sem q' + 1" "stopped q' = stopped q" "\<not> stopped q"
proof -
  have ns: "sem q \<noteq> 0" "\<not> stopped q" using assms(2) by (auto simp: WorkQueue_dequeue_def Let_def split: if_splits)
  then obtain r q1 where p: "SPSCQueue_pop QN (queue q) = Inr (r, q1)" using spsc.pop_total [OF assms(1)] by blast
  with assms(2) ns have r: "r = Some x" "q' = q\<lparr>sem := sem q - 1, queue := q1\<rparr>"
    by (auto simp: WorkQueue_dequeue_def Let_def split: option.splits)
  show "spsc_inv QN (queue q')" "spsc_contents QN (queue q) = x # spsc_contents QN (queue q')" "sem q = sem q' + 1"
    "stopped q' = stopped q" "\<not> stopped q"
    using spsc.pop_cases [OF assms(1) p] ns r by auto
qed

lemma dequeue_false:
  assumes "spsc_inv QN (queue q)" "WorkQueue_dequeue QN q = Inr (DeqFalse, q')" "stopped q \<or> sem q = length (spsc_contents QN (queue q))"
  shows "stopped q" "q' = q\<lparr>sem := sem q - 1\<rparr>" "sem q \<noteq> 0"
proof -
  have "sem q \<noteq> 0" using assms(2) by (auto simp: WorkQueue_dequeue_def Let_def split: if_splits)
  moreover have "stopped q"
  proof (rule ccontr)
    assume ns: "\<not> stopped q"
    then obtain x xs where "spsc_contents QN (queue q) = x # xs" using assms(3) \<open>sem q \<noteq> 0\<close> by (cases "spsc_contents QN (queue q)") auto
    from spsc.pop_ok [OF assms(1) this] show False using ns assms(2) \<open>sem q \<noteq> 0\<close> by (auto simp: WorkQueue_dequeue_def Let_def)
  qed
  ultimately show "stopped q" "q' = q\<lparr>sem := sem q - 1\<rparr>" "sem q \<noteq> 0" using assms(2) by (auto simp: WorkQueue_dequeue_def Let_def)
qed

lemmas worker_inv_parts = worker_inv_def queues_inv_def stream_inv_def control_inv_def flight_inv_def freed_inv_def

text \<open>A state in which neither thread can go on by itself.\<close>

definition stuck ::
  "size_t \<Rightarrow> size_t \<Rightarrow> ('s \<Rightarrow> 'j work_item \<Rightarrow> 's \<times> 'r job_result list) \<Rightarrow> ('r job_result list \<Rightarrow> nat list) \<Rightarrow>
   ('s, 'j, 'r) wsys \<Rightarrow> bool" where
  "stuck QN RN run1 release s \<longleftrightarrow> (\<forall>u. \<not> auto_step QN RN run1 release s u)"

text \<open>
  A measure of the work that is left: every step that needs no decision of the program makes it
  smaller.
\<close>

fun main_cost :: "'r main_pc \<Rightarrow> nat" where
  "main_cost MIdle = 0"
| "main_cost MReady = 1"
| "main_cost (MCall r) = 2"
| "main_cost (MJoin r) = 4"

definition unpushed ::
  "('s \<Rightarrow> 'j work_item \<Rightarrow> 's \<times> 'r job_result list) \<Rightarrow> size_t \<Rightarrow> ('s, 'j, 'r) wsys \<Rightarrow> nat" where
  "unpushed run1 QN s = length (todo (tpc s)) + length (outputs run1 (local s) (jobs_left QN s))"

definition sending :: "'r thread_pc \<Rightarrow> bool" where
  "sending pc = (case pc of TSend _ \<Rightarrow> True | _ \<Rightarrow> False)"

lemma sending_simps [simp]:
  "sending (TSend rs)" "\<not> sending (TPush rs)" "\<not> sending TDequeue" "\<not> sending TExit" "\<not> sending (thread_next rs)"
  by (cases rs; simp add: sending_def)+

definition weight ::
  "('s \<Rightarrow> 'j work_item \<Rightarrow> 's \<times> 'r job_result list) \<Rightarrow> size_t \<Rightarrow> size_t \<Rightarrow> ('s, 'j, 'r) wsys \<Rightarrow> nat" where
  "weight run1 QN RN s =
     length (jobs_left QN s) + 6 * unpushed run1 QN s + 3 * of_bool (sending (tpc s)) + 2 * length (results_left RN s) +
     2 * of_bool (async_pending (doorbell (worker s))) + main_cost (mpc s) + of_bool (tpc s \<noteq> TExit)"

lemma main_cost_after_stop: "main_cost (after_stop r) < 4"
  by (cases r) (simp_all add: after_stop_def)

section \<open>What a worker promises\<close>

text \<open>
  Safety, in every reachable state: the results delivered so far are the first ones of the
  results of the accepted jobs, in order; a callback is released at most once for each accepted
  job; when \<^verbatim>\<open>stop()\<close> is over, exactly once; and while the worker runs, the doorbell keeps the
  event loop alive exactly if an accepted job is not finished.
\<close>

definition worker_safe ::
  "size_t \<Rightarrow> size_t \<Rightarrow> ('s \<Rightarrow> 'j work_item \<Rightarrow> 's \<times> 'r job_result list) \<Rightarrow> ('r job_result list \<Rightarrow> nat list) \<Rightarrow> 's \<Rightarrow> bool" where
  "worker_safe QN RN run1 release l0 \<longleftrightarrow>
     (\<forall>s. worker_reachable QN RN run1 release l0 s \<longrightarrow>
        (\<exists>rest. outputs run1 l0 (accepted s) = delivered s @ rest) \<and>
        mset (freed s) \<subseteq># mset (map callback (accepted s)) \<and>
        (is_drained s \<and> mpc s = MIdle \<longrightarrow> mset (freed s) = mset (map callback (accepted s))) \<and>
        (mpc s = MIdle \<longrightarrow> refd (doorbell (worker s)) = (length (filter is_done (delivered s)) < length (accepted s))))"

text \<open>
  Liveness: from every reachable state in which the worker is not stopped, the two threads
  cannot go on forever without a decision of the program, and when they have come to rest every
  result of every accepted job has been delivered, each callback has been released, and the
  doorbell no longer keeps the event loop alive.
\<close>

definition worker_live ::
  "size_t \<Rightarrow> size_t \<Rightarrow> ('s \<Rightarrow> 'j work_item \<Rightarrow> 's \<times> 'r job_result list) \<Rightarrow> ('r job_result list \<Rightarrow> nat list) \<Rightarrow> 's \<Rightarrow> bool" where
  "worker_live QN RN run1 release l0 \<longleftrightarrow>
     (\<forall>s. worker_reachable QN RN run1 release l0 s \<and> \<not> is_stopped s \<longrightarrow>
        (\<nexists>f. f 0 = s \<and> (\<forall>n. auto_step QN RN run1 release (f n) (f (Suc n)))) \<and>
        (\<forall>t. (auto_step QN RN run1 release)\<^sup>*\<^sup>* s t \<and> stuck QN RN run1 release t \<longrightarrow>
           delivered t = outputs run1 l0 (accepted s) \<and> freed t = map callback (accepted s) \<and> \<not> refd (doorbell (worker t))))"

text \<open>
  The end of \<^verbatim>\<open>stop()\<close>: once the main thread waits in the join, both threads come to rest, and the
  join is over then exactly if the results that the thread still has to push for its present job
  fit into the result queue, which holds at most \<open>RN - 1\<close>. Otherwise both threads wait for each
  other forever.
\<close>

definition worker_stop_ends ::
  "size_t \<Rightarrow> size_t \<Rightarrow> ('s \<Rightarrow> 'j work_item \<Rightarrow> 's \<times> 'r job_result list) \<Rightarrow> ('r job_result list \<Rightarrow> nat list) \<Rightarrow> 's \<Rightarrow> bool" where
  "worker_stop_ends QN RN run1 release l0 \<longleftrightarrow>
     (\<forall>s r. worker_reachable QN RN run1 release l0 s \<and> mpc s = MJoin r \<longrightarrow>
        (\<nexists>f. f 0 = s \<and> (\<forall>n. auto_step QN RN run1 release (f n) (f (Suc n)))) \<and>
        (\<forall>t. (auto_step QN RN run1 release)\<^sup>*\<^sup>* s t \<and> stuck QN RN run1 release t \<longrightarrow>
           (is_drained t \<longleftrightarrow> length (todo (tpc s)) + length (results_left RN s) < unat RN)))"

text \<open>
  The contract between a kind of job and its worker: the results of each job form a stream, and
  \<^verbatim>\<open>stop()\<close> releases one callback for every job whose last result is left in the queue.
\<close>

locale job_kind =
  fixes run1 :: "'s \<Rightarrow> 'j work_item \<Rightarrow> 's \<times> 'r job_result list"
    and release :: "'r job_result list \<Rightarrow> nat list"
  assumes streams: "stream_of x (snd (run1 l x))"
    and releases: "outputs run1 l xs = rs' @ rs \<Longrightarrow> mset (release rs) = mset (done_callbacks rs)"
begin

lemma outputs_done: "done_callbacks (outputs run1 l xs) = map callback xs"
  by (induction xs arbitrary: l) (auto simp: stream_of_done [OF streams])

lemma run1_nonempty: "run1 l x = (l', rs) \<Longrightarrow> rs \<noteq> []"
  using streams [of x l] by (auto simp: stream_of_def)

lemma thread_step_inv:
  assumes "thread_step QN RN run1 s t" "worker_inv run1 l0 QN RN s"
  shows "worker_inv run1 l0 QN RN t"
  using assms
proof (induction rule: thread_step.induct)
  case (t_item s x q l rs)
  then have inv: "spsc_inv QN (queue (sub_queue (worker s)))" by (simp add: worker_inv_def queues_inv_def)
  note d = dequeue_item [OF inv t_item(2)]
  have "\<not> is_drained s" using t_item(1,4) by (auto simp: worker_inv_def stream_inv_def)
  then show ?case using t_item d run1_nonempty [OF t_item(3)]
    by (auto simp: worker_inv_parts outputs_append)
next
  case (t_exit s q)
  then have inv: "spsc_inv QN (queue (sub_queue (worker s)))" by (simp add: worker_inv_def queues_inv_def)
  have nd: "\<not> is_drained s" using t_exit(1,3) by (auto simp: worker_inv_def stream_inv_def)
  then have "stopped (sub_queue (worker s)) \<or> sem (sub_queue (worker s)) = length (jobs_left QN s)"
    using t_exit(1,3) by (auto simp: worker_inv_def control_inv_def)
  note d = dequeue_false [OF inv t_exit(2) this]
  show ?case using t_exit(1,3) d nd
    by (auto simp: worker_inv_parts)
next
  case (t_push s r rs q)
  then have inv: "spsc_inv RN (result_queue (worker s))" by (simp add: worker_inv_def queues_inv_def)
  have nd: "\<not> is_drained s" using t_push(1,3) by (auto simp: worker_inv_def stream_inv_def)
  show ?case
    by (cases rule: spsc.push_cases [OF inv t_push(2)])
       (use t_push nd in \<open>auto simp: worker_inv_parts\<close>)
next
  case (t_send s rs)
  have nd: "\<not> is_drained s" using t_send by (auto simp: worker_inv_def stream_inv_def)
  then show ?case using t_send
    by (auto simp: worker_inv_parts)
qed

lemma flight_bound:
  assumes "stream_inv run1 l0 QN RN s" "flight_inv s"
  shows "int (length (done_callbacks (current (mpc s)))) \<le> in_flight (worker s)"
proof -
  obtain tl tl' where "accepted s = taken s @ tl" "outputs run1 l0 (taken s) = delivered s @ tl'"
    using assms(1) by (auto simp: stream_inv_def)
  then have "map callback (taken s) = done_callbacks (delivered s) @ done_callbacks tl'"
    using outputs_done [of l0 "taken s"] by simp
  then have "length (done_callbacks (delivered s)) \<le> length (taken s)" by (metis length_append length_map le_add1)
  then show ?thesis using assms(2) \<open>accepted s = taken s @ tl\<close> by (simp add: flight_inv_def)
qed

lemma worker_invI:
  "queues_inv QN RN s \<Longrightarrow> stream_inv run1 l0 QN RN s \<Longrightarrow> control_inv QN RN s \<Longrightarrow> flight_inv s \<Longrightarrow> freed_inv s \<Longrightarrow>
   worker_inv run1 l0 QN RN s"
  by (simp add: worker_inv_def)

lemma worker_invD:
  assumes "worker_inv run1 l0 QN RN s"
  shows "queues_inv QN RN s" "stream_inv run1 l0 QN RN s" "control_inv QN RN s" "flight_inv s" "freed_inv s"
  using assms by (simp_all add: worker_inv_def)

lemma result_taken_simps [simp]:
  "sub_queue (result_taken w r) = sub_queue w" "result_queue (result_taken w r) = result_queue w"
  "bell_closing (doorbell (result_taken w r)) = bell_closing (doorbell w)"
  "async_pending (doorbell (result_taken w r)) = async_pending (doorbell w)"
  "in_flight (result_taken w r) = in_flight w - of_bool (is_done r)"
  "refd (doorbell (result_taken w r)) = (if is_done r \<and> in_flight w = 1 then False else refd (doorbell w))"
  by (auto simp: result_taken_def uv_ref_bell_def Let_def)

lemma ready_step_inv:
  assumes "ready_step RN s t" "worker_inv run1 l0 QN RN s"
  shows "worker_inv run1 l0 QN RN t"
  using assms
proof (induction rule: ready_step.induct)
  case (m_async s)
  note i = worker_invD [OF m_async(4)]
  show ?case
  proof (rule worker_invI)
    show "control_inv QN RN (s\<lparr>worker := (worker s)\<lparr>doorbell := (doorbell (worker s))\<lparr>async_pending := False\<rparr>\<rparr>, mpc := MReady\<rparr>)"
      using i(3) m_async(1) by (simp add: control_inv_def)
  qed (use i m_async(1) in \<open>simp_all add: queues_inv_def stream_inv_def flight_inv_def freed_inv_def\<close>)
next
  case (m_pop s r q)
  note i = worker_invD [OF m_pop(3)]
  have inv: "spsc_inv RN (result_queue (worker s))" using i(1) by (simp add: queues_inv_def)
  then have q: "spsc_inv RN q" "results_left RN s = r # spsc_contents RN q"
    using spsc.pop_cases [OF inv m_pop(2)] by auto
  have nd: "\<not> is_drained s" using i(2) q by (auto simp: stream_inv_def)
  show ?case
  proof (rule worker_invI)
    show "control_inv QN RN (s\<lparr>worker := (worker s)\<lparr>result_queue := q\<rparr>, mpc := MCall r, delivered := delivered s @ [r]\<rparr>)"
      using i(3) m_pop(1) by (simp add: control_inv_def)
    show "stream_inv run1 l0 QN RN (s\<lparr>worker := (worker s)\<lparr>result_queue := q\<rparr>, mpc := MCall r, delivered := delivered s @ [r]\<rparr>)"
      using i(2) q nd by (simp add: stream_inv_def)
  qed (use i q nd m_pop(1) in \<open>simp_all add: queues_inv_def flight_inv_def freed_inv_def\<close>)
next
  case (m_return s r)
  note i = worker_invD [OF m_return(2)]
  show ?case
  proof (rule worker_invI)
    show "control_inv QN RN (s\<lparr>worker := result_taken (worker s) r, mpc := MReady, freed := freed s @ (if is_done r then [r_callback r] else [])\<rparr>)"
      using i(3) m_return(1) by (simp add: control_inv_def)
    show "flight_inv (s\<lparr>worker := result_taken (worker s) r, mpc := MReady, freed := freed s @ (if is_done r then [r_callback r] else [])\<rparr>)"
      using i(4) m_return(1) flight_bound [OF i(2,4)] by (auto simp: flight_inv_def)
  qed (use i m_return(1) in \<open>simp_all add: queues_inv_def stream_inv_def freed_inv_def split: if_splits\<close>)
next
  case (m_empty s q)
  note i = worker_invD [OF m_empty(3)]
  have inv: "spsc_inv RN (result_queue (worker s))" using i(1) by (simp add: queues_inv_def)
  then have q: "q = result_queue (worker s)" "results_left RN s = []" using spsc.pop_cases [OF inv m_empty(2)] by auto
  show ?case
  proof (rule worker_invI)
    show "control_inv QN RN (s\<lparr>worker := (worker s)\<lparr>result_queue := q\<rparr>, mpc := MIdle\<rparr>)"
      using i(3) q m_empty(1) by (simp add: control_inv_def)
  qed (use i q m_empty(1) in \<open>simp_all add: queues_inv_def stream_inv_def flight_inv_def freed_inv_def\<close>)
qed

lemma drains:
  assumes "queues_inv QN RN s"
  obtains q q' where "WorkQueue_drain QN (sub_queue (worker s)) = Some (Inr (jobs_left QN s, q))" "spsc_inv QN (queue q)"
    "spsc_contents QN (queue q) = []" "stopped q = is_stopped s"
    "drain_loop RN (unat RN) (result_queue (worker s)) = Some (Inr (results_left RN s, q'))" "spsc_inv RN q'"
    "spsc_contents RN q' = []"
proof -
  have i: "spsc_inv QN (queue (sub_queue (worker s)))" "spsc_inv RN (result_queue (worker s))"
    using assms by (simp_all add: queues_inv_def)
  obtain q1 where "drain_loop QN (unat QN) (queue (sub_queue (worker s))) = Some (Inr (jobs_left QN s, q1))"
    "spsc_inv QN q1" "spsc_contents QN q1 = []" using drain_loop_all [OF i(1) spsc_contents_bound [OF i(1)]] by blast
  moreover obtain q' where "drain_loop RN (unat RN) (result_queue (worker s)) = Some (Inr (results_left RN s, q'))"
    "spsc_inv RN q'" "spsc_contents RN q' = []" using drain_loop_all [OF i(2) spsc_contents_bound [OF i(2)]] by blast
  ultimately show ?thesis by (intro that [of "(sub_queue (worker s))\<lparr>queue := q1\<rparr>" q']) (simp_all add: WorkQueue_drain_def)
qed

lemma join_step_inv:
  assumes "join_step QN RN release s t" "worker_inv run1 l0 QN RN s"
  shows "worker_inv run1 l0 QN RN t"
  using assms
proof (induction rule: join_step.induct)
  case (m_join s r items q rs q')
  have i: "queues_inv QN RN s" "stream_inv run1 l0 QN RN s" "control_inv QN RN s" "flight_inv s" "freed_inv s"
    using m_join(5) by (simp_all add: worker_inv_def)
  have nd: "\<not> is_drained s" and st: "is_stopped s" using i(3) m_join(1) by (auto simp: control_inv_def)
  have d: "items = jobs_left QN s" "spsc_inv QN (queue q)" "spsc_contents QN (queue q) = []" "stopped q"
    "rs = results_left RN s" "spsc_inv RN q'" "spsc_contents RN q' = []"
    by (rule drains [OF i(1)]; use m_join(3,4) st in simp)+
  have acc: "accepted s = taken s @ items" "outputs run1 l0 (taken s) = delivered s @ rs"
    using i(2) nd d(1,5) m_join(2) by (auto simp: stream_inv_def)
  have "map callback (taken s) = done_callbacks (delivered s) @ done_callbacks rs"
    using outputs_done [of l0 "taken s"] acc(2) by simp
  moreover have "freed s @ done_callbacks (current (mpc s)) = done_callbacks (delivered s)" using i(5) nd by (simp add: freed_inv_def)
  ultimately have "mset (map callback (taken s)) = mset (freed s) + mset (done_callbacks (current (mpc s))) + mset (done_callbacks rs)"
    by (metis mset_append)
  then have "mset (map callback (accepted s)) =
    mset (freed s) + mset (done_callbacks (current (mpc s))) + mset (release rs) + mset (map callback items)"
    using acc(1) releases [OF acc(2)] by simp
  then show ?case using i d acc m_join(1,2) nd st
    by (intro worker_invI) (simp_all add: queues_inv_def stream_inv_def control_inv_def flight_inv_def freed_inv_def)
qed

lemma user_step_inv:
  assumes "user_step QN s t" "worker_inv run1 l0 QN RN s"
  shows "worker_inv run1 l0 QN RN t"
  using assms
proof (induction rule: user_step.induct)
  case (m_enqueue s r x w)
  then have i: "spsc_inv QN (queue (sub_queue (worker s)))" by (simp add: worker_inv_def queues_inv_def)
  obtain b q where p: "SPSCQueue_push QN (queue (sub_queue (worker s))) x = Inr (b, q)" using spsc.push_total [OF i] by blast
  have b: "b" and w: "w = (let w1 = (worker s)\<lparr>sub_queue := (sub_queue (worker s))\<lparr>queue := q, sem := sem (sub_queue (worker s)) + 1\<rparr>,
      in_flight := in_flight (worker s) + 1\<rparr> in if in_flight (worker s) = 0 then uv_ref_bell w1 True else w1)"
    using m_enqueue(3) p by (auto simp: Worker_enqueue_def WorkQueue_enqueue_def Let_def split: if_splits)
  have "0 \<le> in_flight (worker s)" using flight_bound [OF worker_invD(2,4) [OF m_enqueue(4)]] by linarith
  moreover have nd: "\<not> is_drained s" using m_enqueue(2,4) by (auto simp: worker_inv_def control_inv_def)
  ultimately show ?case
    by (cases rule: spsc.push_cases [OF i p])
       (use m_enqueue(1,2,4) b w in \<open>auto simp: worker_inv_parts uv_ref_bell_def Let_def\<close>)
next
  case (m_reject s r x w)
  then have i: "spsc_inv QN (queue (sub_queue (worker s)))" by (simp add: worker_inv_def queues_inv_def)
  obtain b q where p: "SPSCQueue_push QN (queue (sub_queue (worker s))) x = Inr (b, q)" using spsc.push_total [OF i] by blast
  have b: "\<not> b" and w: "w = (worker s)\<lparr>sub_queue := (sub_queue (worker s))\<lparr>queue := q\<rparr>\<rparr>"
    using m_reject(3) p by (auto simp: Worker_enqueue_def WorkQueue_enqueue_def Let_def split: if_splits)
  then have "w = worker s" by (cases rule: spsc.push_cases [OF i p]) simp_all
  then show ?case using m_reject(4) by simp
next
  case (m_stop s r)
  then have "\<not> is_drained s" by (auto simp: worker_inv_def control_inv_def)
  then show ?case using m_stop
    by (auto simp: worker_inv_parts WorkQueue_stop_def)
next
  case (m_closed s)
  then show ?case
    by (auto simp: worker_inv_parts)
qed

lemma reachable_inv:
  assumes "worker_reachable QN RN run1 release l0 s" "spsc_static_assert QN" "spsc_static_assert RN"
  shows "worker_inv run1 l0 QN RN s"
  using assms
proof (induction rule: worker_reachable.induct)
  case (w_init d e)
  then show ?case
    by (simp add: worker_inv_parts worker_init_def
          Worker_new_def WorkQueue_new_def spsc_inv_new)
next
  case (w_auto s t)
  then show ?case using thread_step_inv ready_step_inv join_step_inv unfolding auto_step_def by blast
next
  case (w_user s t)
  then show ?case using user_step_inv by blast
qed

lemma auto_step_inv:
  "auto_step QN RN run1 release s t \<Longrightarrow> worker_inv run1 l0 QN RN s \<Longrightarrow> worker_inv run1 l0 QN RN t"
  using thread_step_inv ready_step_inv join_step_inv unfolding auto_step_def by blast

lemma thread_step_weight:
  assumes "thread_step QN RN run1 s t" "queues_inv QN RN s" "control_inv QN RN s"
  shows "weight run1 QN RN t < weight run1 QN RN s"
  using assms
proof (induction rule: thread_step.induct)
  case (t_item s x q l rs)
  then have inv: "spsc_inv QN (queue (sub_queue (worker s)))" by (simp add: queues_inv_def)
  show ?case using t_item(1,3) dequeue_item(2) [OF inv t_item(2)] by (simp add: weight_def unpushed_def)
next
  case (t_exit s q)
  then have inv: "spsc_inv QN (queue (sub_queue (worker s)))" by (simp add: queues_inv_def)
  have "stopped (sub_queue (worker s)) \<or> sem (sub_queue (worker s)) = length (jobs_left QN s)"
    using t_exit(1,4) by (auto simp: control_inv_def)
  then show ?case using t_exit(1) dequeue_false(2) [OF inv t_exit(2)] by (auto simp: weight_def unpushed_def)
next
  case (t_push s r rs q)
  then have inv: "spsc_inv RN (result_queue (worker s))" by (simp add: queues_inv_def)
  then have "spsc_contents RN q = results_left RN s @ [r]" using spsc.push_cases [OF inv t_push(2)] by auto
  then show ?case using t_push(1) by (simp add: weight_def unpushed_def)
next
  case (t_send s rs)
  then show ?case by (simp add: weight_def unpushed_def)
qed

lemma ready_step_weight:
  assumes "ready_step RN s t" "queues_inv QN RN s"
  shows "weight run1 QN RN t < weight run1 QN RN s"
  using assms
proof (induction rule: ready_step.induct)
  case (m_pop s r q)
  then have inv: "spsc_inv RN (result_queue (worker s))" by (simp add: queues_inv_def)
  then have "results_left RN s = r # spsc_contents RN q" using spsc.pop_cases [OF inv m_pop(2)] by auto
  then show ?case using m_pop(1) by (simp add: weight_def unpushed_def)
next
  case (m_empty s q)
  then have inv: "spsc_inv RN (result_queue (worker s))" by (simp add: queues_inv_def)
  then have "q = result_queue (worker s)" using spsc.pop_cases [OF inv m_empty(2)] by auto
  then show ?case using m_empty(1) by (simp add: weight_def unpushed_def)
qed (simp_all add: weight_def unpushed_def)

lemma join_step_weight:
  assumes "join_step QN RN release s t" "queues_inv QN RN s"
  shows "weight run1 QN RN t < weight run1 QN RN s"
  using assms
proof (induction rule: join_step.induct)
  case (m_join s r items q rs q')
  have "spsc_contents QN (queue q) = []" "spsc_contents RN q' = []" by (rule drains [OF m_join(5)]; use m_join(3,4) in simp)+
  then show ?case using m_join(1,2) main_cost_after_stop [of r] by (simp add: weight_def unpushed_def)
qed

lemma auto_step_weight:
  assumes "auto_step QN RN run1 release s t" "worker_inv run1 l0 QN RN s"
  shows "weight run1 QN RN t < weight run1 QN RN s"
  using assms thread_step_weight ready_step_weight join_step_weight worker_invD [OF assms(2)] unfolding auto_step_def by blast

lemma auto_steps_inv:
  assumes "(auto_step QN RN run1 release)\<^sup>*\<^sup>* s t" "worker_inv run1 l0 QN RN s"
  shows "worker_inv run1 l0 QN RN t"
  using assms by (induction rule: rtranclp_induct) (blast intro: auto_step_inv)+

lemma no_infinite_run:
  assumes "worker_inv run1 l0 QN RN s"
  shows "\<nexists>f. f 0 = s \<and> (\<forall>n. auto_step QN RN run1 release (f n) (f (Suc n)))"
proof
  assume "\<exists>f. f 0 = s \<and> (\<forall>n. auto_step QN RN run1 release (f n) (f (Suc n)))"
  then obtain f where f: "f 0 = s" "\<And>n. auto_step QN RN run1 release (f n) (f (Suc n))" by blast
  have inv: "worker_inv run1 l0 QN RN (f n)" for n
  proof (induction n)
    case 0
    then show ?case using f(1) assms by simp
  next
    case (Suc n)
    then show ?case using auto_step_inv [OF f(2)] by blast
  qed
  have "weight run1 QN RN (f (Suc n)) < weight run1 QN RN (f n)" for n using auto_step_weight [OF f(2) inv] .
  then show False using wf_no_infinite_down_chainE [OF wf_measure [of "\<lambda>n. n"], of "\<lambda>n. weight run1 QN RN (f n)"] by auto
qed

lemma stuck_main:
  assumes "worker_inv run1 l0 QN RN s" "stuck QN RN run1 release s"
  shows "mpc s = MIdle \<or> (\<exists>r. mpc s = MJoin r \<and> tpc s \<noteq> TExit)" "mpc s = MIdle \<Longrightarrow> \<not> is_drained s \<Longrightarrow> \<not> async_pending (doorbell (worker s))"
    "\<not> sending (tpc s)"
proof -
  note i = worker_invD [OF assms(1)]
  have no: "\<not> ready_step RN s u" "\<not> thread_step QN RN run1 s u" "\<not> join_step QN RN release s u" for u
    using assms(2) by (auto simp: stuck_def auto_step_def)
  have inv: "spsc_inv RN (result_queue (worker s))" using i(1) by (simp add: queues_inv_def)
  obtain r q where p: "SPSCQueue_pop RN (result_queue (worker s)) = Inr (r, q)" using spsc.pop_total [OF inv] by blast
  have "mpc s \<noteq> MReady" using p ready_step.m_pop [of s RN _ q] ready_step.m_empty [of s RN q] no(1) by (cases r) auto
  moreover have "mpc s \<noteq> MCall r" for r using ready_step.m_return no(1) by blast
  moreover have "tpc s \<noteq> TExit" if "mpc s = MJoin r" for r
  proof
    assume ex: "tpc s = TExit"
    obtain q q' where "WorkQueue_drain QN (sub_queue (worker s)) = Some (Inr (jobs_left QN s, q))"
      "drain_loop RN (unat RN) (result_queue (worker s)) = Some (Inr (results_left RN s, q'))" by (rule drains [OF i(1)])
    then show False using join_step.m_join [OF that ex] no(3) by blast
  qed
  ultimately show "mpc s = MIdle \<or> (\<exists>r. mpc s = MJoin r \<and> tpc s \<noteq> TExit)" by (cases "mpc s") auto
  show "mpc s = MIdle \<Longrightarrow> \<not> is_drained s \<Longrightarrow> \<not> async_pending (doorbell (worker s))" using ready_step.m_async no(1) by blast
  have "tpc s \<noteq> TSend rs" for rs using thread_step.t_send no(2) by blast
  then show "\<not> sending (tpc s)" by (cases "tpc s") auto
qed

lemma stuck_thread:
  assumes "worker_inv run1 l0 QN RN s" "stuck QN RN run1 release s"
  shows "tpc s = TExit \<or> tpc s = TDequeue \<and> jobs_left QN s = [] \<and> \<not> is_stopped s \<or>
    todo (tpc s) \<noteq> [] \<and> length (results_left RN s) = unat RN - 1"
proof -
  note i = worker_invD [OF assms(1)]
  have no: "\<not> thread_step QN RN run1 s u" for u using assms(2) by (auto simp: stuck_def auto_step_def)
  have inv: "spsc_inv QN (queue (sub_queue (worker s)))" "spsc_inv RN (result_queue (worker s))"
    using i(1) by (simp_all add: queues_inv_def)
  consider (deq) "tpc s = TDequeue" | (push) r rs where "tpc s = TPush (r # rs)" | (ex) "tpc s = TExit"
    using i(3) stuck_main(3) [OF assms] by (cases "tpc s") (auto simp: control_inv_def neq_Nil_conv)
  then show ?thesis
  proof cases
    case deq
    have nd: "\<not> is_drained s" using deq i(2) by (auto simp: stream_inv_def)
    have "sem (sub_queue (worker s)) = 0"
    proof (rule ccontr)
      assume "sem (sub_queue (worker s)) \<noteq> 0"
      moreover obtain r q1 where "SPSCQueue_pop QN (queue (sub_queue (worker s))) = Inr (r, q1)" using spsc.pop_total [OF inv(1)] by blast
      ultimately obtain o' q where d: "WorkQueue_dequeue QN (sub_queue (worker s)) = Inr (o', q)" "o' \<noteq> DeqBlocks"
        by (cases "is_stopped s"; cases r) (simp_all add: WorkQueue_dequeue_def Let_def)
      show False
      proof (cases o')
        case (DeqItem x)
        obtain l rs where "run1 (local s) x = (l, rs)" by fastforce
        then show False using thread_step.t_item [OF deq] d(1) DeqItem no by blast
      qed (use d thread_step.t_exit [OF deq] no in blast)+
    qed
    then show ?thesis using i(3) deq nd by (auto simp: control_inv_def)
  next
    case push
    have "length (results_left RN s) = unat RN - 1"
    proof (rule ccontr)
      assume "length (results_left RN s) \<noteq> unat RN - 1"
      then have "length (results_left RN s) < unat RN - 1" using spsc.bounded [OF inv(2)] by linarith
      then show False using spsc.push_ok [OF inv(2), of r] thread_step.t_push [OF push] no by blast
    qed
    then show ?thesis using push by simp
  qed simp
qed

lemma auto_step_keeps:
  assumes "auto_step QN RN run1 release s t" "worker_inv run1 l0 QN RN s"
  shows "accepted t = accepted s" "is_stopped t = is_stopped s"
proof -
  have i: "spsc_inv QN (queue (sub_queue (worker s)))" "queues_inv QN RN s"
    using worker_invD(1) [OF assms(2)] by (simp_all add: queues_inv_def)
  have dq: "stopped q = stopped (sub_queue (worker s))" if "WorkQueue_dequeue QN (sub_queue (worker s)) = Inr (o', q)" for o' q
    using that spsc.pop_total [OF i(1)] by (auto simp: WorkQueue_dequeue_def Let_def split: if_splits)
  have dr: "stopped q = stopped (sub_queue (worker s))" if "WorkQueue_drain QN (sub_queue (worker s)) = Some (Inr (items, q))" for items q
    by (rule drains [OF i(2)]) (use that in simp)
  consider "thread_step QN RN run1 s t" | "ready_step RN s t" | "join_step QN RN release s t"
    using assms(1) by (auto simp: auto_step_def)
  then have "accepted t = accepted s \<and> is_stopped t = is_stopped s"
  proof cases
    case 1
    then show ?thesis by cases (simp_all add: dq)
  next
    case 2
    then show ?thesis by cases simp_all
  next
    case 3
    then show ?thesis by cases (simp add: dr)
  qed
  then show "accepted t = accepted s" "is_stopped t = is_stopped s" by simp_all
qed

lemma auto_steps_keep:
  assumes "(auto_step QN RN run1 release)\<^sup>*\<^sup>* s t" "worker_inv run1 l0 QN RN s"
  shows "accepted t = accepted s \<and> is_stopped t = is_stopped s"
  using assms
proof (induction rule: rtranclp_induct)
  case (step t u)
  then show ?case using auto_step_keeps [OF step(2) auto_steps_inv [OF step(1,4)]] by simp
qed simp

lemma stuck_running:
  assumes "worker_inv run1 l0 QN RN s" "stuck QN RN run1 release s" "\<not> is_stopped s" "1 < unat RN"
  shows "delivered s = outputs run1 l0 (accepted s)" "freed s = map callback (accepted s)" "\<not> refd (doorbell (worker s))"
proof -
  note i = worker_invD [OF assms(1)]
  have m: "mpc s = MIdle" and nd: "\<not> is_drained s" using stuck_main(1) [OF assms(1,2)] i(3) assms(3) by (auto simp: control_inv_def)
  then have r: "results_left RN s = []"
    using stuck_main(2,3) [OF assms(1,2)] i(3) by (auto simp: control_inv_def)
  then have d: "tpc s = TDequeue" "jobs_left QN s = []"
    using stuck_thread [OF assms(1,2)] i(3) assms(3,4) by (auto simp: control_inv_def)
  show out: "delivered s = outputs run1 l0 (accepted s)" using i(2) nd r d by (auto simp: stream_inv_def)
  then show f: "freed s = map callback (accepted s)" using i(5) nd m outputs_done [of l0 "accepted s"] by (simp add: freed_inv_def)
  show "\<not> refd (doorbell (worker s))" using i(4) out m outputs_done [of l0 "accepted s"] by (simp add: flight_inv_def)
qed

lemma joining_step:
  assumes "auto_step QN RN run1 release s t" "worker_inv run1 l0 QN RN s" "mpc s = MJoin r"
  shows "(mpc t = MJoin r \<and> length (todo (tpc t)) + length (results_left RN t) = length (todo (tpc s)) + length (results_left RN s)) \<or>
    (is_drained t \<and> length (todo (tpc s)) + length (results_left RN s) < unat RN)"
proof -
  note i = worker_invD [OF assms(2)]
  have inv: "spsc_inv QN (queue (sub_queue (worker s)))" "spsc_inv RN (result_queue (worker s))"
    using i(1) by (simp_all add: queues_inv_def)
  have st: "is_stopped s" using i(3) assms(3) by (auto simp: control_inv_def)
  consider (t) "thread_step QN RN run1 s t" | (r) "ready_step RN s t" | (j) "join_step QN RN release s t"
    using assms(1) by (auto simp: auto_step_def)
  then show ?thesis
  proof cases
    case t
    then show ?thesis
    proof cases
      case (t_item x q l rs)
      then show ?thesis using dequeue_item(5) [OF inv(1)] st by blast
    next
      case (t_push x rs q)
      have "spsc_contents RN q = results_left RN s @ [x]" using spsc.push_cases [OF inv(2) t_push(3)] by auto
      then show ?thesis using t_push(1,2) assms(3) by simp
    qed (use assms(3) in simp_all)
  next
    case r
    then show ?thesis using assms(3) by (auto elim: ready_step.cases)
  next
    case j
    then show ?thesis using spsc_contents_bound [OF inv(2)] by (auto elim!: join_step.cases)
  qed
qed

lemma drained_stays:
  assumes "auto_step QN RN run1 release s t" "is_drained s"
  shows "is_drained t"
proof -
  consider "thread_step QN RN run1 s t" | "ready_step RN s t" | "join_step QN RN release s t"
    using assms(1) by (auto simp: auto_step_def)
  then show ?thesis
  proof cases
    case 1
    then show ?thesis using assms(2) by cases simp_all
  next
    case 2
    then show ?thesis using assms(2) by cases simp_all
  next
    case 3
    then show ?thesis using assms(2) by cases simp
  qed
qed

lemma joining_run:
  assumes "(auto_step QN RN run1 release)\<^sup>*\<^sup>* s t" "worker_inv run1 l0 QN RN s" "mpc s = MJoin r"
  shows "(mpc t = MJoin r \<and> length (todo (tpc t)) + length (results_left RN t) = length (todo (tpc s)) + length (results_left RN s)) \<or>
    (is_drained t \<and> length (todo (tpc s)) + length (results_left RN s) < unat RN)"
  using assms
proof (induction rule: rtranclp_induct)
  case (step t u)
  have inv: "worker_inv run1 l0 QN RN t" using auto_steps_inv [OF step(1,4)] .
  from step.IH [OF step(4,5)] show ?case
  proof (elim disjE conjE)
    assume "mpc t = MJoin r" "length (todo (tpc t)) + length (results_left RN t) = length (todo (tpc s)) + length (results_left RN s)"
    then show ?thesis using joining_step [OF step(2) inv, of r] by simp
  qed (use drained_stays [OF step(2)] in simp)
qed simp

lemma stuck_joining:
  assumes "worker_inv run1 l0 QN RN s" "stuck QN RN run1 release s" "mpc s = MJoin r"
  shows "unat RN \<le> length (todo (tpc s)) + length (results_left RN s)" "\<not> is_drained s"
proof -
  note i = worker_invD [OF assms(1)]
  have st: "is_stopped s" and nd: "\<not> is_drained s" using i(3) assms(3) by (auto simp: control_inv_def)
  have "todo (tpc s) \<noteq> []" "length (results_left RN s) = unat RN - 1"
    using stuck_thread [OF assms(1,2)] stuck_main(1) [OF assms(1,2)] st assms(3) by auto
  then show "unat RN \<le> length (todo (tpc s)) + length (results_left RN s)" by (cases "todo (tpc s)") auto
  show "\<not> is_drained s" by (rule nd)
qed

lemma safe:
  assumes "spsc_static_assert QN" "spsc_static_assert RN"
  shows "worker_safe QN RN run1 release l0"
  unfolding worker_safe_def
proof (intro allI impI)
  fix s
  assume "worker_reachable QN RN run1 release l0 s"
  then have w: "worker_inv run1 l0 QN RN s" using assms by (rule reachable_inv)
  note i = worker_invD [OF w]
  obtain tl tl' where a: "accepted s = taken s @ tl" "outputs run1 l0 (taken s) = delivered s @ tl'"
    using i(2) by (auto simp: stream_inv_def)
  have t: "map callback (taken s) = done_callbacks (delivered s) @ done_callbacks tl'"
    using outputs_done [of l0 "taken s"] a(2) by simp
  have "mset (freed s) \<subseteq># mset (map callback (accepted s))"
  proof (cases "is_drained s")
    case True
    then have "mset (map callback (accepted s)) = mset (freed s) + mset (done_callbacks (current (mpc s)))"
      using i(5) by (simp add: freed_inv_def)
    then show ?thesis by simp
  next
    case False
    then have "map callback (accepted s) = freed s @ done_callbacks (current (mpc s)) @ done_callbacks tl' @ map callback tl"
      using i(5) t a(1) by (simp add: freed_inv_def)
    then show ?thesis by (simp only: mset_append mset_subset_eq_add_left)
  qed
  moreover have "refd (doorbell (worker s)) = (length (filter is_done (delivered s)) < length (accepted s))" if "mpc s = MIdle"
    using i(4) flight_bound [OF i(2,4)] that by (auto simp: flight_inv_def done_callbacks_def)
  ultimately show "(\<exists>rest. outputs run1 l0 (accepted s) = delivered s @ rest) \<and>
      mset (freed s) \<subseteq># mset (map callback (accepted s)) \<and>
      (is_drained s \<and> mpc s = MIdle \<longrightarrow> mset (freed s) = mset (map callback (accepted s))) \<and>
      (mpc s = MIdle \<longrightarrow> refd (doorbell (worker s)) = (length (filter is_done (delivered s)) < length (accepted s)))"
    using i(5) a by (auto simp: freed_inv_def outputs_append)
qed

lemma live:
  assumes "spsc_static_assert QN" "spsc_static_assert RN"
  shows "worker_live QN RN run1 release l0"
  unfolding worker_live_def
proof (intro allI impI conjI)
  fix s
  assume s: "worker_reachable QN RN run1 release l0 s \<and> \<not> is_stopped s"
  then have w: "worker_inv run1 l0 QN RN s" using assms reachable_inv by blast
  show "\<nexists>f. f 0 = s \<and> (\<forall>n. auto_step QN RN run1 release (f n) (f (Suc n)))" using w by (rule no_infinite_run)
  fix t
  assume t: "(auto_step QN RN run1 release)\<^sup>*\<^sup>* s t \<and> stuck QN RN run1 release t"
  have k: "accepted t = accepted s" "\<not> is_stopped t" using auto_steps_keep [OF conjunct1 [OF t] w] s by simp_all
  have "1 < unat RN" using assms(2) by (simp add: spsc_static_assert_def word_less_nat_alt)
  from stuck_running [OF auto_steps_inv [OF conjunct1 [OF t] w] conjunct2 [OF t] k(2) this]
  show "delivered t = outputs run1 l0 (accepted s)" "freed t = map callback (accepted s)" "\<not> refd (doorbell (worker t))"
    by (simp_all add: k(1))
qed

lemma stop_ends:
  assumes "spsc_static_assert QN" "spsc_static_assert RN"
  shows "worker_stop_ends QN RN run1 release l0"
  unfolding worker_stop_ends_def
proof (intro allI impI conjI)
  fix s r
  assume s: "worker_reachable QN RN run1 release l0 s \<and> mpc s = MJoin r"
  then have w: "worker_inv run1 l0 QN RN s" using assms reachable_inv by blast
  show "\<nexists>f. f 0 = s \<and> (\<forall>n. auto_step QN RN run1 release (f n) (f (Suc n)))" using w by (rule no_infinite_run)
  fix t
  assume t: "(auto_step QN RN run1 release)\<^sup>*\<^sup>* s t \<and> stuck QN RN run1 release t"
  from joining_run [OF conjunct1 [OF t] w conjunct2 [OF s]]
  show "is_drained t \<longleftrightarrow> length (todo (tpc s)) + length (results_left RN s) < unat RN"
  proof (elim disjE conjE)
    assume "mpc t = MJoin r" "length (todo (tpc t)) + length (results_left RN t) = length (todo (tpc s)) + length (results_left RN s)"
    then show ?thesis using stuck_joining [OF auto_steps_inv [OF conjunct1 [OF t] w] conjunct2 [OF t]] by simp
  qed simp
qed

text \<open>A run: an idle worker is given a job and takes it.\<close>

lemma accept_and_take:
  assumes "worker_reachable QN RN run1 release l0 s" "spsc_static_assert QN" "spsc_static_assert RN"
    and "mpc s = MIdle" "tpc s = TDequeue" "\<not> is_stopped s" "jobs_left QN s = []"
  shows "\<exists>t. worker_reachable QN RN run1 release l0 t \<and> mpc t = MIdle \<and> tpc t = thread_next (snd (run1 (local s) x)) \<and>
    \<not> is_stopped t \<and> jobs_left QN t = [] \<and> result_queue (worker t) = result_queue (worker s)"
proof -
  let ?q = "sub_queue (worker s)"
  note i = worker_invD [OF reachable_inv [OF assms(1-3)]]
  have inv: "spsc_inv QN (queue ?q)" using i(1) by (simp add: queues_inv_def)
  have "\<not> is_drained s" using i(2) assms(5) by (auto simp: stream_inv_def)
  then have sem: "sem ?q = 0" using i(3) assms(5-7) by (simp add: control_inv_def)
  have "length (spsc_contents QN (queue ?q)) < unat QN - 1"
    using assms(2,7) by (simp add: spsc_static_assert_def word_less_nat_alt)
  then obtain q1 where q1: "SPSCQueue_push QN (queue ?q) x = Inr (True, q1)" "spsc_inv QN q1" "spsc_contents QN q1 = [x]"
    using spsc.push_ok [OF inv, of x] assms(7) by auto
  then obtain w where w: "Worker_enqueue QN (worker s) x = Inr (True, w)" "sub_queue w = ?q\<lparr>queue := q1, sem := 1\<rparr>"
    "result_queue w = result_queue (worker s)"
    using sem by (auto simp: Worker_enqueue_def WorkQueue_enqueue_def Let_def uv_ref_bell_def)
  let ?s1 = "s\<lparr>worker := w, accepted := accepted s @ [x]\<rparr>"
  have s1: "worker_reachable QN RN run1 release l0 ?s1"
    using w_user [OF assms(1) user_step.m_enqueue [OF _ assms(6) w(1)]] assms(4) by blast
  obtain q2 where q2: "SPSCQueue_pop QN q1 = Inr (Some x, q2)" "spsc_contents QN q2 = []" using spsc.pop_ok [OF q1(2,3)] by blast
  then have d: "WorkQueue_dequeue QN (sub_queue (worker ?s1)) = Inr (DeqItem x, ?q\<lparr>queue := q2, sem := 0\<rparr>)"
    using w(2) assms(6) by (simp add: WorkQueue_dequeue_def Let_def)
  let ?s2 = "?s1\<lparr>worker := (worker ?s1)\<lparr>sub_queue := ?q\<lparr>queue := q2, sem := 0\<rparr>\<rparr>, local := fst (run1 (local s) x),
    tpc := thread_next (snd (run1 (local s) x)), taken := taken ?s1 @ [x]\<rparr>"
  have "thread_step QN RN run1 ?s1 ?s2" by (rule thread_step.t_item [OF _ d]) (simp_all add: assms(5))
  then have "worker_reachable QN RN run1 release l0 ?s2" using w_auto [OF s1] unfolding auto_step_def by blast
  then show ?thesis using assms(4,6) q2(2) w(3) by (intro exI [of _ ?s2]) simp
qed

text \<open>It pushes the only result and rings the doorbell; the main thread does not look.\<close>

lemma push_and_send:
  assumes "worker_reachable QN RN run1 release l0 s" "spsc_static_assert QN" "spsc_static_assert RN"
    and "tpc s = TPush [r]" "length (results_left RN s) < unat RN - 1"
  shows "\<exists>t. worker_reachable QN RN run1 release l0 t \<and> mpc t = mpc s \<and> tpc t = TDequeue \<and> sub_queue (worker t) = sub_queue (worker s) \<and>
    length (results_left RN t) = Suc (length (results_left RN s))"
proof -
  have inv: "spsc_inv RN (result_queue (worker s))"
    using worker_invD(1) [OF reachable_inv [OF assms(1-3)]] by (simp add: queues_inv_def)
  obtain q where q: "SPSCQueue_push RN (result_queue (worker s)) r = Inr (True, q)" "spsc_contents RN q = results_left RN s @ [r]"
    using spsc.push_ok [OF inv assms(5)] by blast
  let ?s1 = "s\<lparr>worker := (worker s)\<lparr>result_queue := q\<rparr>, tpc := TSend []\<rparr>"
  have s1: "worker_reachable QN RN run1 release l0 ?s1"
    using w_auto [OF assms(1)] thread_step.t_push [OF assms(4) q(1)] unfolding auto_step_def by blast
  let ?s2 = "?s1\<lparr>worker := (worker ?s1)\<lparr>doorbell := (doorbell (worker ?s1))\<lparr>async_pending := True\<rparr>\<rparr>, tpc := thread_next []\<rparr>"
  have "thread_step QN RN run1 ?s1 ?s2" by (rule thread_step.t_send) simp
  then have "worker_reachable QN RN run1 release l0 ?s2" using w_auto [OF s1] unfolding auto_step_def by blast
  then show ?thesis using q(2) by (intro exI [of _ ?s2]) simp
qed

end

end
