(* ===== verification/Worker_Jobs.thy ===== *)
theory Worker_Jobs
  imports Workers
begin

text \<open>
  What the three kinds of workers compute: \<^verbatim>\<open>src/workers/fib_worker.cc\<close>,
  \<^verbatim>\<open>src/workers/js_worker.cc\<close> and \<^verbatim>\<open>src/workers/inference_worker.cc\<close>, each as the function
  \<open>run1\<close> of theory \<open>Workers\<close>, with its queue sizes.

  The script that a JavaScript worker runs and the language model are code outside the
  repository. The script is a parameter \<open>process\<close> on the state of the worker's own JavaScript
  runtime. The functions of llama.cpp that the inference worker calls are the fields of a record
  of functions on an opaque state. Nothing is assumed about either.
\<close>

section \<open>C strings\<close>

definition c_str :: "string \<Rightarrow> string" where
  "c_str s = takeWhile (\<lambda>c. c \<noteq> CHR 0x00) s"

text \<open>\<^verbatim>\<open>snprintf(buf, n, "%s", s)\<close> keeps at most \<open>n - 1\<close> characters.\<close>

definition snprintf_s :: "nat \<Rightarrow> string \<Rightarrow> string" where
  "snprintf_s n s = take (n - 1) (c_str s)"

section \<open>Fibonacci numbers\<close>

definition FibonacciWorker_QUEUE_DEPTH :: size_t where "FibonacciWorker_QUEUE_DEPTH = 64"
definition FibonacciWorker_RESULT_QUEUE_DEPTH :: size_t where "FibonacciWorker_RESULT_QUEUE_DEPTH = 64"

function compute_fib :: "size_t \<Rightarrow> size_t" where
  "compute_fib n = (if n \<le> 1 then n else compute_fib (n - 1) + compute_fib (n - 2))"
  by auto
termination
proof (relation "measure unat")
  fix n :: size_t
  assume n: "\<not> n \<le> 1"
  then have "2 \<le> n" using word_le_less_eq [of 1 n] by (metis inc_le linorder_not_less one_add_one)
  then have "unat (n - 1) = unat n - 1" "unat (n - 2) = unat n - 2" "2 \<le> unat n"
    using n by (simp_all add: unat_sub word_le_nat_alt)
  then show "(n - 1, n) \<in> measure unat" "(n - 2, n) \<in> measure unat" by simp_all
qed simp

declare compute_fib.simps [simp del]

definition FibonacciWorker_run1 :: "unit \<Rightarrow> size_t work_item \<Rightarrow> unit \<times> size_t job_result list" where
  "FibonacciWorker_run1 l item =
     ((), [\<lparr>r_job_id = job_id item, r_value = compute_fib (job item), r_error = 0, is_done = True,
            r_callback = callback item\<rparr>])"

section \<open>JavaScript workers\<close>

definition JSWorker_QUEUE_DEPTH :: size_t where "JSWorker_QUEUE_DEPTH = 32"
definition JSWorker_RESULT_QUEUE_DEPTH :: size_t where "JSWorker_RESULT_QUEUE_DEPTH = 32"

text \<open>
  The two strings of a \<^verbatim>\<open>JSResult\<close>. A call of the script's \<^verbatim>\<open>process\<close> either throws or returns;
  each value is then converted to a C string, which may fail.
\<close>

record js_output =
  output_json :: string
  error_msg :: string

datatype call_outcome = Threw "string option" | Returned "string option"

type_synonym 's js_script = "'s \<Rightarrow> string \<Rightarrow> 's \<times> call_outcome"

definition JSWorker_run1 :: "'s js_script \<Rightarrow> 's \<Rightarrow> string work_item \<Rightarrow> 's \<times> js_output job_result list" where
  "JSWorker_run1 process_fn l item =
     (let (l', ret) = process_fn l (c_str (job item));
          blank = \<lparr>r_job_id = job_id item, r_value = \<lparr>output_json = '''', error_msg = ''''\<rparr>, r_error = 0, is_done = True,
                   r_callback = callback item\<rparr>
      in case ret of
           Threw msg \<Rightarrow>
             (l', [blank\<lparr>r_error := 1,
                     r_value := \<lparr>output_json = '''', error_msg = (case msg of None \<Rightarrow> ''unknown error'' | Some m \<Rightarrow> c_str m)\<rparr>\<rparr>])
         | Returned out \<Rightarrow>
             (l', [blank\<lparr>r_value := \<lparr>output_json = (case out of None \<Rightarrow> '''' | Some s \<Rightarrow> c_str s), error_msg = ''''\<rparr>\<rparr>]))"

text \<open>
  The beginning of the thread function: it returns at once when the file is missing or empty,
  when its evaluation throws, or when it does not define a function \<^verbatim>\<open>process\<close>. The file system
  and the evaluation are parameters.
\<close>

definition JSWorker_load_file :: "(string \<Rightarrow> string option) \<Rightarrow> string \<Rightarrow> string" where
  "JSWorker_load_file files path = (case files path of None \<Rightarrow> '''' | Some s \<Rightarrow> s)"

definition JSWorker_run_start ::
  "(string \<Rightarrow> string option) \<Rightarrow> (string \<Rightarrow> ('s \<times> 's js_script option) option) \<Rightarrow> string \<Rightarrow> ('s \<times> 's js_script) option" where
  "JSWorker_run_start files evaluate path =
     (let source = JSWorker_load_file files path
      in if source = [] then None
         else case evaluate source of
                None \<Rightarrow> None
              | Some (l, process_fn) \<Rightarrow> (case process_fn of None \<Rightarrow> None | Some f \<Rightarrow> Some (l, f)))"

definition JSWorker_init ::
  "(string \<Rightarrow> string option) \<Rightarrow> (string \<Rightarrow> ('s \<times> 's js_script option) option) \<Rightarrow> string \<Rightarrow> 's \<Rightarrow>
   string work_item \<Rightarrow> js_output job_result \<Rightarrow> ('s, string, js_output) wsys" where
  "JSWorker_init files evaluate path l0 d e =
     (case JSWorker_run_start files evaluate path of
        None \<Rightarrow> (worker_init JSWorker_QUEUE_DEPTH JSWorker_RESULT_QUEUE_DEPTH l0 d e)\<lparr>tpc := TExit\<rparr>
      | Some (l, _) \<Rightarrow> worker_init JSWorker_QUEUE_DEPTH JSWorker_RESULT_QUEUE_DEPTH l d e)"

section \<open>Inference\<close>

definition InferenceWorker_QUEUE_DEPTH :: size_t where "InferenceWorker_QUEUE_DEPTH = 64"
definition InferenceWorker_RESULT_QUEUE_DEPTH :: size_t where "InferenceWorker_RESULT_QUEUE_DEPTH = 256"
definition TOKEN_GEN_MAX :: nat where "TOKEN_GEN_MAX = 512"

record inf_job =
  model_class :: string
  session_id :: string
  client_id :: string
  prompt :: string

text \<open>
  llama.cpp: models, contexts, samplers and tokens are numbers, \<open>'m\<close> is its state. A sampler
  chain is made by one call that stands for the initialisation and the four additions.
\<close>

record 'm llama =
  llama_init_from_model :: "'m \<Rightarrow> nat \<Rightarrow> int \<Rightarrow> int \<Rightarrow> int \<Rightarrow> nat option \<times> 'm"
  llama_sampler_chain :: "'m \<Rightarrow> nat \<times> 'm"
  llama_n_ctx :: "nat \<Rightarrow> nat"
  llama_tokenize :: "nat \<Rightarrow> string \<Rightarrow> nat \<Rightarrow> int \<times> nat list"
  llama_reset :: "'m \<Rightarrow> nat \<Rightarrow> nat \<Rightarrow> 'm"
  llama_decode :: "'m \<Rightarrow> nat \<Rightarrow> nat list \<Rightarrow> int \<times> 'm"
  llama_sampler_sample :: "'m \<Rightarrow> nat \<Rightarrow> nat \<Rightarrow> nat \<times> 'm"
  llama_vocab_is_eog :: "nat \<Rightarrow> nat \<Rightarrow> bool"
  llama_token_to_piece :: "nat \<Rightarrow> nat \<Rightarrow> int \<times> string"

text \<open>The part of the worker that only its thread uses, and the configuration of the worker.\<close>

record 'm inf_local =
  ctxs :: "string \<Rightarrow> nat option"
  samplers :: "string \<Rightarrow> nat option"
  llm :: 'm

record inf_config =
  core_start :: int
  core_count :: int
  n_ctx :: int
  n_batch :: int

type_synonym models = "string \<Rightarrow> nat option"

definition get_model :: "models \<Rightarrow> string \<Rightarrow> nat option" where
  "get_model mods cls = mods cls"

definition get_or_create_ctx ::
  "'m llama \<Rightarrow> models \<Rightarrow> inf_config \<Rightarrow> 'm inf_local \<Rightarrow> string \<Rightarrow> (nat option \<times> nat option) \<times> 'm inf_local" where
  "get_or_create_ctx L mods cfg l cls =
     (case ctxs l cls of
        Some c \<Rightarrow> ((Some c, samplers l cls), l)
      | None \<Rightarrow>
          (case get_model mods cls of
             None \<Rightarrow> ((None, None), l)
           | Some model \<Rightarrow>
               (let (c, m1) = llama_init_from_model L (llm l) model (n_ctx cfg) (n_batch cfg) (core_count cfg)
                in case c of
                     None \<Rightarrow> ((None, None), l\<lparr>llm := m1\<rparr>)
                   | Some c \<Rightarrow>
                       (let (sm, m2) = llama_sampler_chain L m1
                        in ((Some c, Some sm),
                            l\<lparr>ctxs := (ctxs l)(cls \<mapsto> c), samplers := (samplers l)(cls \<mapsto> sm), llm := m2\<rparr>)))))"

definition inf_result :: "inf_job work_item \<Rightarrow> string \<Rightarrow> int \<Rightarrow> bool \<Rightarrow> string job_result" where
  "inf_result item token err fin =
     \<lparr>r_job_id = job_id item, r_value = snprintf_s 64 token, r_error = err, is_done = fin, r_callback = callback item\<rparr>"

definition send_error :: "inf_job work_item \<Rightarrow> string \<Rightarrow> string job_result list" where
  "send_error item msg = [inf_result item msg 1 True]"

text \<open>
  The text of a token: the buffer is zeroed, filled by \<^verbatim>\<open>llama_token_to_piece\<close>, which is given
  255 of its 256 bytes, and ended after the characters written.
\<close>

definition piece_of :: "'m llama \<Rightarrow> nat \<Rightarrow> nat \<Rightarrow> string" where
  "piece_of L model tok =
     (let (n, piece) = llama_token_to_piece L model tok in if n > 0 then take (nat n) piece else piece)"

text \<open>
  The generation loop, with the number of rounds that are left: the results pushed, whether the
  last of them was marked, and the state of the library.
\<close>

fun token_loop ::
  "'m llama \<Rightarrow> nat \<Rightarrow> nat \<Rightarrow> nat \<Rightarrow> inf_job work_item \<Rightarrow> nat \<Rightarrow> 'm \<Rightarrow> string job_result list \<times> bool \<times> 'm" where
  "token_loop L model c sm item 0 m = ([], False, m)"
| "token_loop L model c sm item (Suc k) m =
     (let (tok, m1) = llama_sampler_sample L m sm c;
          is_eog = llama_vocab_is_eog L model tok;
          is_last = (is_eog \<or> k = 0);
          r = inf_result item (if is_eog then '''' else piece_of L model tok) 0 is_last
      in if is_last then ([r], True, m1)
         else let (rc, m2) = llama_decode L m1 c [tok]
              in if rc \<noteq> 0 then ([r], False, m2)
                 else let (rs, sent_done, m3) = token_loop L model c sm item k m2 in (r # rs, sent_done, m3))"

text \<open>
  A context is only made for a model that is loaded, and models are freed after the workers have
  ended, so that the second lookup of the model succeeds whenever there is a context.
\<close>

definition run_inference ::
  "'m llama \<Rightarrow> models \<Rightarrow> inf_config \<Rightarrow> 'm inf_local \<Rightarrow> inf_job work_item \<Rightarrow> 'm inf_local \<times> string job_result list" where
  "run_inference L mods cfg l item =
     (let ((c, sm), l1) = get_or_create_ctx L mods cfg l (model_class (job item))
      in case (c, sm, get_model mods (model_class (job item))) of
           (Some c, Some sm, Some model) \<Rightarrow>
             (let (n_tokens, tokens) = llama_tokenize L model (prompt (job item)) (llama_n_ctx L c)
              in if n_tokens < 0 then (l1, send_error item ''tokenize failed'')
                 else
                   let m1 = llama_reset L (llm l1) c sm;
                       (rc, m2) = llama_decode L m1 c (take (nat n_tokens) tokens)
                   in if rc \<noteq> 0 then (l1\<lparr>llm := m2\<rparr>, send_error item ''prompt eval failed'')
                      else
                        let (rs, sent_done, m3) = token_loop L model c sm item TOKEN_GEN_MAX m2
                        in (l1\<lparr>llm := m3\<rparr>, if sent_done then rs else rs @ [inf_result item '''' 0 True]))
         | _ \<Rightarrow> (l1, send_error item ''model not available''))"

section \<open>Each kind keeps the contract\<close>

lemma inf_result_simps [simp]:
  "r_job_id (inf_result item s e f) = job_id item" "r_callback (inf_result item s e f) = callback item"
  "is_done (inf_result item s e f) = f"
  by (simp_all add: inf_result_def)

lemma token_loop_results:
  assumes "token_loop L model c sm item k m = (rs, sent, m')"
  shows "(\<forall>r \<in> set rs. r_callback r = callback item \<and> r_job_id r = job_id item) \<and>
    (if sent then rs \<noteq> [] \<and> is_done (last rs) \<and> (\<forall>r \<in> set (butlast rs). \<not> is_done r) else \<forall>r \<in> set rs. \<not> is_done r) \<and>
    length rs \<le> k"
  using assms
proof (induction k arbitrary: m rs)
  case (Suc k)
  obtain tok m1 where a: "llama_sampler_sample L m sm c = (tok, m1)" by fastforce
  obtain rc m2 where b: "llama_decode L m1 c [tok] = (rc, m2)" by fastforce
  obtain rs1 sent1 m3 where d: "token_loop L model c sm item k m2 = (rs1, sent1, m3)" by (metis prod_cases3)
  show ?case using Suc.prems Suc.IH [of m2 rs1] a b d by (auto simp: Let_def split: if_splits)
qed simp

lemma run_inference_stream: "stream_of item (snd (run_inference L mods cfg l item))"
proof -
  have err: "stream_of item (send_error item msg)" for msg by (simp add: send_error_def stream_of_def)
  have ok: "stream_of item (if sent then rs else rs @ [inf_result item '''' 0 True])"
    if "token_loop L model c sm item k m = (rs, sent, m')" for model c sm k m rs sent m'
    using token_loop_results [OF that] by (auto simp: stream_of_def)
  show ?thesis using err ok
    by (auto simp: run_inference_def Let_def split: prod.splits option.splits)
qed

lemma mid_stream_segment:
  assumes "\<forall>r \<in> set bs. \<not> is_done r \<and> r_job_id r = i \<and> r_callback r = c" "is_done d" "r_job_id d = i" "r_callback d = c"
    and "mid = [] \<or> mid = [(i, c)]"
  shows "mid_stream_loop (bs @ d # rs) mid = c # mid_stream_loop rs []"
  using assms by (induction bs arbitrary: mid) auto

lemma stream_suffix_released:
  assumes "stream_of x (us @ vs)" "vs \<noteq> []"
  shows "free_streams (vs @ rs) = callback x # free_streams rs" "done_callbacks vs = [callback x]"
proof -
  obtain bs d where vs: "vs = bs @ [d]" using assms(2) by (cases vs rule: rev_cases) auto
  with assms show "free_streams (vs @ rs) = callback x # free_streams rs"
    using mid_stream_segment [of bs "job_id x" "callback x" d "[]" rs] by (auto simp: stream_of_def free_streams_def butlast_append)
  have "filter is_done bs = []" using assms(1) vs by (auto simp: stream_of_def filter_empty_conv butlast_append)
  then show "done_callbacks vs = [callback x]" using assms(1) vs by (auto simp: done_callbacks_def stream_of_def)
qed

lemma free_streams_releases:
  assumes "\<And>l x. stream_of x (snd (run1 l x))" "outputs run1 l xs = rs' @ rs"
  shows "free_streams rs = done_callbacks rs"
  using assms(2)
proof (induction xs arbitrary: l rs' rs)
  case Nil
  then show ?case by (simp add: free_streams_def)
next
  case (Cons x xs)
  let ?S = "snd (run1 l x)" and ?O = "outputs run1 (fst (run1 l x)) xs"
  have all: "free_streams ?O = done_callbacks ?O" by (rule Cons.IH [of _ "[]"]) simp
  consider us where "?O = us @ rs" | us where "?S = rs' @ us" "rs = us @ ?O"
    using Cons.prems by (auto simp: append_eq_append_conv2)
  then show ?case
  proof cases
    case 1
    then show ?thesis using Cons.IH by blast
  next
    case 2
    have "stream_of x (rs' @ us)" using assms(1) [of x l] 2 by simp
    with stream_suffix_released(1) [of x rs' us ?O] stream_suffix_released(2) [of x rs' us] 2 all show ?thesis
      by (cases "us = []") simp_all
  qed
qed

lemma free_results_releases:
  assumes "\<And>l x r. r \<in> set (snd (run1 l x)) \<Longrightarrow> is_done r" "outputs run1 l xs = rs' @ rs"
  shows "free_results rs = done_callbacks rs"
proof -
  have "\<forall>r \<in> set (outputs run1 l xs). is_done r" by (induction xs arbitrary: l) (use assms(1) in auto)
  then have "\<forall>r \<in> set rs. is_done r" using assms(2) by auto
  then show ?thesis by (simp add: free_results_def done_callbacks_def)
qed

lemma JSWorker_run1_result:
  "\<exists>r. snd (JSWorker_run1 process_fn l item) = [r] \<and> is_done r \<and> r_callback r = callback item \<and> r_job_id r = job_id item"
  by (auto simp: JSWorker_run1_def Let_def split: prod.splits call_outcome.splits)

interpretation fib: job_kind FibonacciWorker_run1 free_results
proof
  show "stream_of x (snd (FibonacciWorker_run1 l x))" for x l by (simp add: FibonacciWorker_run1_def stream_of_def)
  show "mset (free_results rs) = mset (done_callbacks rs)" if "outputs FibonacciWorker_run1 l xs = rs' @ rs" for l xs rs' rs
    using free_results_releases [OF _ that] by (simp add: FibonacciWorker_run1_def)
qed

interpretation jsw: job_kind "JSWorker_run1 process_fn" free_results for process_fn
proof
  show "stream_of x (snd (JSWorker_run1 process_fn l x))" for x l
    using JSWorker_run1_result [of process_fn l x] by (auto simp: stream_of_def)
  show "mset (free_results rs) = mset (done_callbacks rs)" if "outputs (JSWorker_run1 process_fn) l xs = rs' @ rs" for l xs rs' rs
  proof -
    have "is_done r" if "r \<in> set (snd (JSWorker_run1 process_fn l x))" for l x r
      using JSWorker_run1_result [of process_fn l x] that by auto
    then show ?thesis using free_results_releases [OF _ that] by simp
  qed
qed

interpretation inf: job_kind "run_inference L mods cfg" free_streams for L mods cfg
proof
  show "stream_of x (snd (run_inference L mods cfg l x))" for x l by (rule run_inference_stream)
  show "mset (free_streams rs) = mset (done_callbacks rs)" if "outputs (run_inference L mods cfg) l xs = rs' @ rs" for l xs rs' rs
    using free_streams_releases [OF run_inference_stream that] by simp
qed

lemma depths:
  "spsc_static_assert FibonacciWorker_QUEUE_DEPTH" "spsc_static_assert FibonacciWorker_RESULT_QUEUE_DEPTH"
  "spsc_static_assert JSWorker_QUEUE_DEPTH" "spsc_static_assert JSWorker_RESULT_QUEUE_DEPTH"
  "spsc_static_assert InferenceWorker_QUEUE_DEPTH" "spsc_static_assert InferenceWorker_RESULT_QUEUE_DEPTH"
  by (simp_all add: spsc_static_assert_def FibonacciWorker_QUEUE_DEPTH_def FibonacciWorker_RESULT_QUEUE_DEPTH_def
        JSWorker_QUEUE_DEPTH_def JSWorker_RESULT_QUEUE_DEPTH_def InferenceWorker_QUEUE_DEPTH_def InferenceWorker_RESULT_QUEUE_DEPTH_def)

section \<open>Properties\<close>

fun fib_nat :: "nat \<Rightarrow> nat" where
  "fib_nat 0 = 0"
| "fib_nat (Suc 0) = 1"
| "fib_nat (Suc (Suc n)) = fib_nat (Suc n) + fib_nat n"

lemma compute_fib_nat: "compute_fib n = of_nat (fib_nat (unat n))"
proof (induction n rule: compute_fib.induct)
  case (1 n)
  show ?case
  proof (cases "n \<le> 1")
    case True
    then have "n = 0 \<or> n = 1" by (metis le_less word_less_1)
    then show ?thesis by (auto simp: compute_fib.simps [of n])
  next
    case False
    then have "2 \<le> n" using word_le_less_eq [of 1 n] by (metis inc_le linorder_not_less one_add_one)
    then have u: "unat (n - 1) = unat n - 1" "unat (n - 2) = unat n - 2" "2 \<le> unat n"
      using False by (simp_all add: unat_sub word_le_nat_alt)
    obtain k where k: "unat n = Suc (Suc k)" using u(3) by (metis Suc_le_D numeral_2_eq_2 Suc_le_mono)
    show ?thesis using 1 False u k by (simp add: compute_fib.simps [of n])
  qed
qed

text \<open>
  C33. The three workers are safe: each delivers a prefix of the results of its accepted jobs in
  order, never releases a callback twice, has released every callback once when it is stopped,
  and keeps the event loop alive exactly while a job is unfinished. For the Fibonacci worker the
  result of a job is the Fibonacci number modulo \<open>2 ^ 64\<close>; the script of the JavaScript worker and
  the language model are arbitrary.
\<close>

theorem workers_safe:
  "worker_safe FibonacciWorker_QUEUE_DEPTH FibonacciWorker_RESULT_QUEUE_DEPTH FibonacciWorker_run1 free_results () \<and>
   (\<forall>item. map r_value (snd (FibonacciWorker_run1 () item)) = [of_nat (fib_nat (unat (job item)))]) \<and>
   worker_safe JSWorker_QUEUE_DEPTH JSWorker_RESULT_QUEUE_DEPTH (JSWorker_run1 process_fn) free_results l \<and>
   worker_safe InferenceWorker_QUEUE_DEPTH InferenceWorker_RESULT_QUEUE_DEPTH (run_inference L mods cfg) free_streams l'"
  by (intro conjI fib.safe jsw.safe inf.safe depths) (simp add: FibonacciWorker_run1_def compute_fib_nat)


text \<open>
  C35. A worker's \<^verbatim>\<open>stop()\<close> returns exactly if the results that its thread still has to push fit
  into the result queue; otherwise the main thread, which waits for the worker thread, and the
  worker thread, which waits for room in the queue, wait forever.
\<close>

theorem workers_stop:
  "worker_stop_ends FibonacciWorker_QUEUE_DEPTH FibonacciWorker_RESULT_QUEUE_DEPTH FibonacciWorker_run1 free_results () \<and>
   worker_stop_ends JSWorker_QUEUE_DEPTH JSWorker_RESULT_QUEUE_DEPTH (JSWorker_run1 process_fn) free_results l \<and>
   worker_stop_ends InferenceWorker_QUEUE_DEPTH InferenceWorker_RESULT_QUEUE_DEPTH (run_inference L mods cfg) free_streams l'"
  by (intro conjI fib.stop_ends jsw.stop_ends inf.stop_ends depths)

text \<open>
  The second case of the last property occurs: a program that submits 64 jobs without returning
  to the event loop and then closes the manager never gets past the call.
\<close>

lemma fib_results_pile_up:
  "n < 64 \<Longrightarrow> \<exists>s. worker_reachable FibonacciWorker_QUEUE_DEPTH FibonacciWorker_RESULT_QUEUE_DEPTH FibonacciWorker_run1 free_results () s \<and>
     mpc s = MIdle \<and> tpc s = TDequeue \<and> \<not> is_stopped s \<and> jobs_left FibonacciWorker_QUEUE_DEPTH s = [] \<and>
     length (results_left FibonacciWorker_RESULT_QUEUE_DEPTH s) = n"
proof (induction n)
  case 0
  show ?case by (intro exI conjI, rule worker_reachable.w_init) (simp_all add: worker_init_def Worker_new_def WorkQueue_new_def)
next
  case (Suc n)
  then obtain s where s: "worker_reachable FibonacciWorker_QUEUE_DEPTH FibonacciWorker_RESULT_QUEUE_DEPTH FibonacciWorker_run1 free_results () s"
    "mpc s = MIdle" "tpc s = TDequeue" "\<not> is_stopped s" "jobs_left FibonacciWorker_QUEUE_DEPTH s = []"
    "length (results_left FibonacciWorker_RESULT_QUEUE_DEPTH s) = n" by auto
  from fib.accept_and_take [OF s(1) depths(1,2) s(2-5)] obtain t where
    t: "worker_reachable FibonacciWorker_QUEUE_DEPTH FibonacciWorker_RESULT_QUEUE_DEPTH FibonacciWorker_run1 free_results () t"
    "mpc t = MIdle" "tpc t = thread_next (snd (FibonacciWorker_run1 () undefined))" "\<not> is_stopped t"
    "jobs_left FibonacciWorker_QUEUE_DEPTH t = []" "result_queue (worker t) = result_queue (worker s)" by (metis (full_types) old.unit.exhaust)
  obtain r where r: "tpc t = TPush [r]" using t(3) by (simp add: FibonacciWorker_run1_def)
  have l: "length (results_left FibonacciWorker_RESULT_QUEUE_DEPTH t) < unat FibonacciWorker_RESULT_QUEUE_DEPTH - 1"
    using s(6) t(6) Suc.prems by (simp add: FibonacciWorker_RESULT_QUEUE_DEPTH_def)
  from fib.push_and_send [OF t(1) depths(1,2) r l] show ?case using t(2,4,5,6) s(6) by auto
qed

lemma fib_close_hangs:
  "\<exists>s. worker_reachable FibonacciWorker_QUEUE_DEPTH FibonacciWorker_RESULT_QUEUE_DEPTH FibonacciWorker_run1 free_results () s \<and>
     mpc s = MJoin None \<and>
     (\<forall>t. (auto_step FibonacciWorker_QUEUE_DEPTH FibonacciWorker_RESULT_QUEUE_DEPTH FibonacciWorker_run1 free_results)\<^sup>*\<^sup>* s t \<longrightarrow>
        \<not> is_drained t)"
proof -
  obtain s where s: "worker_reachable FibonacciWorker_QUEUE_DEPTH FibonacciWorker_RESULT_QUEUE_DEPTH FibonacciWorker_run1 free_results () s"
    "mpc s = MIdle" "tpc s = TDequeue" "\<not> is_stopped s" "jobs_left FibonacciWorker_QUEUE_DEPTH s = []"
    "length (results_left FibonacciWorker_RESULT_QUEUE_DEPTH s) = 63" using fib_results_pile_up [of 63] by auto
  from fib.accept_and_take [OF s(1) depths(1,2) s(2-5)] obtain t where
    t: "worker_reachable FibonacciWorker_QUEUE_DEPTH FibonacciWorker_RESULT_QUEUE_DEPTH FibonacciWorker_run1 free_results () t"
    "mpc t = MIdle" "tpc t = thread_next (snd (FibonacciWorker_run1 () undefined))" "\<not> is_stopped t"
    "result_queue (worker t) = result_queue (worker s)" by (metis (full_types) old.unit.exhaust)
  let ?u = "t\<lparr>worker := (worker t)\<lparr>sub_queue := WorkQueue_stop (sub_queue (worker t))\<rparr>, mpc := MJoin None\<rparr>"
  have u: "worker_reachable FibonacciWorker_QUEUE_DEPTH FibonacciWorker_RESULT_QUEUE_DEPTH FibonacciWorker_run1 free_results () ?u"
    by (rule worker_reachable.w_user [OF t(1)], rule user_step.m_stop) (use t(2,4) in \<open>simp_all add: after_stop_def\<close>)
  have "unat FibonacciWorker_RESULT_QUEUE_DEPTH \<le> length (todo (tpc ?u)) + length (results_left FibonacciWorker_RESULT_QUEUE_DEPTH ?u)"
    using t(3,5) s(6) by (simp add: FibonacciWorker_run1_def FibonacciWorker_RESULT_QUEUE_DEPTH_def)
  moreover have "\<not> is_drained v" if "mpc v = MJoin None" "worker_inv FibonacciWorker_run1 () FibonacciWorker_QUEUE_DEPTH FibonacciWorker_RESULT_QUEUE_DEPTH v" for v
    using fib.worker_invD(3) [OF that(2)] that(1) by (auto simp: control_inv_def)
  ultimately show ?thesis using u fib.joining_run [OF _ fib.reachable_inv [OF u depths(1,2)], where r = None]
      fib.auto_steps_inv [OF _ fib.reachable_inv [OF u depths(1,2)]] by (intro exI [of _ ?u]) fastforce
qed

text \<open>
  A JavaScript worker whose script cannot be loaded accepts jobs but its thread is gone: no
  callback is ever called.
\<close>

definition silent :: "('s, string, js_output) wsys \<Rightarrow> bool" where
  "silent s \<longleftrightarrow> tpc s = TExit \<and> delivered s = [] \<and> spsc_inv JSWorker_RESULT_QUEUE_DEPTH (result_queue (worker s)) \<and>
     results_left JSWorker_RESULT_QUEUE_DEPTH s = []"

lemma Worker_enqueue_result_queue: "Worker_enqueue QN w x = Inr (b, w') \<Longrightarrow> result_queue w' = result_queue w"
  by (auto simp: Worker_enqueue_def res_simps Let_def uv_ref_bell_def split: if_splits)

lemma silent_step:
  assumes "auto_step JSWorker_QUEUE_DEPTH JSWorker_RESULT_QUEUE_DEPTH run1 free_results s t \<or> user_step JSWorker_QUEUE_DEPTH s t" "silent s"
  shows "silent t"
proof -
  let ?RN = JSWorker_RESULT_QUEUE_DEPTH
  have q: "spsc_inv ?RN (result_queue (worker s))" "results_left ?RN s = []" "tpc s = TExit" "delivered s = []"
    using assms(2) by (simp_all add: silent_def)
  have pop: "SPSCQueue_pop ?RN (result_queue (worker s)) = Inr (None, result_queue (worker s))" using spsc.pop_empty [OF q(1,2)] .
  have dr: "spsc_inv ?RN q' \<and> spsc_contents ?RN q' = []"
    if "drain_loop ?RN (unat ?RN) (result_queue (worker s)) = Some (Inr (rs, q'))" for rs q'
    using drain_loop_all [OF q(1) spsc_contents_bound [OF q(1)]] that by auto
  consider "thread_step JSWorker_QUEUE_DEPTH ?RN run1 s t" | "ready_step ?RN s t" | "join_step JSWorker_QUEUE_DEPTH ?RN free_results s t"
    | "user_step JSWorker_QUEUE_DEPTH s t" using assms(1) by (auto simp: auto_step_def)
  then show ?thesis
  proof cases
    case 1
    then show ?thesis using q(3) by cases simp_all
  next
    case 2
    then show ?thesis using q pop by cases (simp_all add: silent_def)
  next
    case 3
    then show ?thesis using q(3,4) by cases (simp add: silent_def dr)
  next
    case 4
    then show ?thesis using q by cases (simp_all add: silent_def Worker_enqueue_result_queue)
  qed
qed

lemma js_missing_script_silent:
  assumes "files path = None"
    and "(\<lambda>s t. auto_step JSWorker_QUEUE_DEPTH JSWorker_RESULT_QUEUE_DEPTH run1 free_results s t \<or> user_step JSWorker_QUEUE_DEPTH s t)\<^sup>*\<^sup>*
          (JSWorker_init files evaluate path l0 d e) s"
  shows "delivered s = []"
proof -
  have "silent (JSWorker_init files evaluate path l0 d e)"
    using assms(1) by (simp add: JSWorker_init_def JSWorker_run_start_def JSWorker_load_file_def silent_def worker_init_def
        Worker_new_def spsc_inv_new depths)
  from assms(2) this have "silent s" by (induction rule: rtranclp_induct) (blast intro: silent_step)+
  then show ?thesis by (simp add: silent_def)
qed

end
