(* ===== verification/Managers.thy ===== *)
theory Managers
  imports Worker_Jobs
begin

text \<open>
  The managers (\<^verbatim>\<open>include/i_manager.h\<close>, \<^verbatim>\<open>src/fib_engine.cc\<close>, \<^verbatim>\<open>src/js_engine.cc\<close>,
  \<^verbatim>\<open>src/inference_engine.cc\<close>): they spread jobs over workers, number them, remember their
  status and hand the results to the JavaScript callbacks. The classes that make them available
  to JavaScript are \<^verbatim>\<open>src/builtins/fib_js.cc\<close>, \<^verbatim>\<open>src/builtins/js_worker_js.cc\<close> and
  \<^verbatim>\<open>src/builtins/inference_js.cc\<close>.

  A manager holds the main-thread side of its workers. Arguments from JavaScript appear after
  their conversion by QuickJS: a callback is \<open>None\<close> if it is not a function, a string is \<open>None\<close> if
  the conversion failed, a number is the value that was stored.
\<close>

section \<open>Managers\<close>

text \<open>\<open>JsQueueFull i\<close> is the \<^verbatim>\<open>InternalError\<close> with the message \<^verbatim>\<open>worker i queue full\<close>.\<close>

datatype job_state = PENDING | DONE | ERROR

datatype js_reply =
  JsTypeError string | JsInternalError string | JsRangeError string | JsQueueFull nat | JsException |
  JsInt64 size_t | JsString string | JsUndefined | JsNull

record ('j, 'r) manager =
  workers :: "('j, 'r) worker list"
  next_job_id :: size_t
  next_worker_idx :: size_t
  job_status :: "size_t \<Rightarrow> job_state option"

definition new_manager :: "('j, 'r) worker list \<Rightarrow> ('j, 'r) manager" where
  "new_manager ws = \<lparr>workers = ws, next_job_id = 0, next_worker_idx = 0, job_status = Map.empty\<rparr>"

definition NativeFibonacciManager_new :: "size_t work_item \<Rightarrow> size_t job_result \<Rightarrow> int \<Rightarrow> (size_t, size_t) manager" where
  "NativeFibonacciManager_new d e worker_size =
     new_manager (replicate (nat worker_size) (Worker_new FibonacciWorker_QUEUE_DEPTH FibonacciWorker_RESULT_QUEUE_DEPTH d e))"

definition NativeJSWorkerManager_new :: "string work_item \<Rightarrow> js_output job_result \<Rightarrow> int \<Rightarrow> (string, js_output) manager" where
  "NativeJSWorkerManager_new d e worker_size =
     new_manager (replicate (nat worker_size) (Worker_new JSWorker_QUEUE_DEPTH JSWorker_RESULT_QUEUE_DEPTH d e))"

definition pick_worker :: "('j, 'r) manager \<Rightarrow> nat \<times> ('j, 'r) manager" where
  "pick_worker m =
     (unat (next_worker_idx m mod of_nat (length (workers m))), m\<lparr>next_worker_idx := next_worker_idx m + 1\<rparr>)"

text \<open>
  The common part of the three \<^verbatim>\<open>js_dispatch\<close>: number the job, pick a worker, submit. The callback is
  duplicated for the worker; when the queue is full that reference is not given back.
\<close>

definition submit :: "size_t \<Rightarrow> ('j, 'r) manager \<Rightarrow> 'j \<Rightarrow> nat \<Rightarrow> (js_reply \<times> ('j, 'r) manager) res" where
  "submit QN m payload cb =
     (let jid = next_job_id m;
          (i, m1) = pick_worker (m\<lparr>next_job_id := jid + 1\<rparr>)
      in res_bind (Worker_enqueue QN (workers m1 ! i) \<lparr>job_id = jid, job = payload, callback = cb\<rparr>) (\<lambda>(b, w).
           let m2 = m1\<lparr>workers := (workers m1)[i := w]\<rparr>
           in if \<not> b then Inr (JsQueueFull i, m2)
              else Inr (JsInt64 jid, m2\<lparr>job_status := (job_status m2)(jid \<mapsto> PENDING)\<rparr>)))"

definition NativeFibonacciManager_js_dispatch ::
  "(size_t, size_t) manager \<Rightarrow> size_t \<Rightarrow> nat option \<Rightarrow> (js_reply \<times> (size_t, size_t) manager) res" where
  "NativeFibonacciManager_js_dispatch m val cb =
     (case cb of
        None \<Rightarrow> Inr (JsTypeError ''callback must be a function'', m)
      | Some cb \<Rightarrow>
          if workers m = [] then Inr (JsInternalError ''no workers'', m)
          else submit FibonacciWorker_QUEUE_DEPTH m val cb)"

definition NativeJSWorkerManager_js_dispatch ::
  "(string, js_output) manager \<Rightarrow> string option \<Rightarrow> nat option \<Rightarrow> (js_reply \<times> (string, js_output) manager) res" where
  "NativeJSWorkerManager_js_dispatch m input_str cb =
     (case cb of
        None \<Rightarrow> Inr (JsTypeError ''callback must be a function'', m)
      | Some cb \<Rightarrow>
          if workers m = [] then Inr (JsInternalError ''no workers'', m)
          else
            case input_str of
              None \<Rightarrow> Inr (JsTypeError ''input must be a string (JSON)'', m)
            | Some s \<Rightarrow> submit JSWorker_QUEUE_DEPTH m (c_str s) cb)"

definition or_empty :: "string option \<Rightarrow> string" where
  "or_empty s = (case s of None \<Rightarrow> '''' | Some s \<Rightarrow> s)"

record inf_packet =
  p_model_class :: "string option"
  p_session_id :: "string option"
  p_client_id :: "string option"
  p_prompt :: "string option"

definition NativeInferenceManager_js_dispatch ::
  "models \<Rightarrow> (inf_job, string) manager \<Rightarrow> inf_packet \<Rightarrow> nat option \<Rightarrow> (js_reply \<times> (inf_job, string) manager) res" where
  "NativeInferenceManager_js_dispatch mods m p cb =
     (case cb of
        None \<Rightarrow> Inr (JsTypeError ''callback must be a function'', m)
      | Some cb \<Rightarrow>
          if workers m = [] then Inr (JsInternalError ''no workers spawned'', m)
          else
            case p_model_class p of
              None \<Rightarrow> Inr (JsRangeError ''unknown model_class'', m)
            | Some cls \<Rightarrow>
                if get_model mods (c_str cls) = None then Inr (JsRangeError ''unknown model_class'', m)
                else
                  submit InferenceWorker_QUEUE_DEPTH m
                    \<lparr>model_class = snprintf_s 32 cls, session_id = snprintf_s 128 (or_empty (p_session_id p)),
                     client_id = snprintf_s 64 (or_empty (p_client_id p)), prompt = snprintf_s 2048 (or_empty (p_prompt p))\<rparr> cb)"

definition js_get_progress :: "('j, 'r) manager \<Rightarrow> size_t \<Rightarrow> js_reply" where
  "js_get_progress m jid =
     (case job_status m jid of
        None \<Rightarrow> JsString ''unknown''
      | Some PENDING \<Rightarrow> JsString ''pending''
      | Some DONE \<Rightarrow> JsString ''done''
      | Some ERROR \<Rightarrow> JsString ''error'')"

text \<open>\<^verbatim>\<open>js_close\<close> stops the workers one after the other: the result names those to be stopped.\<close>

definition js_close :: "bool \<Rightarrow> ('j, 'r) manager \<Rightarrow> js_reply \<times> ('j, 'r) worker list \<times> ('j, 'r) manager" where
  "js_close has_ctx m = (if has_ctx then JsUndefined else JsNull, workers m, m\<lparr>workers := []\<rparr>)"

section \<open>Results\<close>

text \<open>The call of a callback with two arguments, an error and a value.\<close>

datatype 'v js_args = ErrorArgs string | ValueArgs 'v

definition set_status :: "('j, 'r) manager \<Rightarrow> 'r job_result \<Rightarrow> ('j, 'r) manager" where
  "set_status m r = m\<lparr>job_status := (job_status m)(r_job_id r \<mapsto> (if r_error r \<noteq> 0 then ERROR else DONE))\<rparr>"

definition NativeFibonacciManager_on_result ::
  "(size_t, size_t) manager \<Rightarrow> size_t job_result \<Rightarrow> (nat \<times> size_t js_args) \<times> (size_t, size_t) manager" where
  "NativeFibonacciManager_on_result m r =
     ((r_callback r, if r_error r \<noteq> 0 then ErrorArgs ''fibonacci error'' else ValueArgs (r_value r)), set_status m r)"

definition NativeJSWorkerManager_on_result ::
  "(string, js_output) manager \<Rightarrow> js_output job_result \<Rightarrow> (nat \<times> string js_args) \<times> (string, js_output) manager" where
  "NativeJSWorkerManager_on_result m r =
     ((r_callback r, if r_error r \<noteq> 0 then ErrorArgs (c_str (error_msg (r_value r))) else ValueArgs (c_str (output_json (r_value r)))),
      set_status m r)"

definition NativeInferenceManager_on_result ::
  "(inf_job, string) manager \<Rightarrow> string job_result \<Rightarrow> (nat \<times> string js_args) \<times> (inf_job, string) manager" where
  "NativeInferenceManager_on_result m r =
     ((r_callback r, if r_error r \<noteq> 0 then ErrorArgs (r_value r) else ValueArgs (r_value r)), set_status m r)"

section \<open>The inference manager\<close>

definition add_model :: "(string \<Rightarrow> bool \<Rightarrow> nat option) \<Rightarrow> models \<Rightarrow> string \<Rightarrow> string \<Rightarrow> bool \<Rightarrow> bool \<times> models" where
  "add_model load mods cls path use_mlock =
     (case load path use_mlock of None \<Rightarrow> (False, mods) | Some model \<Rightarrow> (True, mods(cls \<mapsto> model)))"

text \<open>
  The division of the cores: core 0 is left to the main thread. \<^verbatim>\<open>int\<close> division by the number of
  workers truncates, and a division by zero is a fault.
\<close>

definition spawn_workers :: "int \<Rightarrow> int \<Rightarrow> int \<Rightarrow> int \<Rightarrow> inf_config list res" where
  "spawn_workers nprocs cnt nctx nbatch =
     (let nbatch = (if nbatch \<le> 0 then nctx else nbatch);
          total_cores = (if nprocs - 1 < 1 then 1 else nprocs - 1)
      in if cnt = 0 then Inl AssertFail
         else
           let cores_each = (if total_cores div cnt < 1 then 1 else total_cores div cnt)
           in Inr (map (\<lambda>i. \<lparr>core_start = 1 + int i * cores_each, core_count = cores_each, n_ctx = nctx, n_batch = nbatch\<rparr>)
                     [0..<nat cnt]))"

text \<open>What \<^verbatim>\<open>list_workers\<close> reports of a worker: number, first core, cores, and whether jobs are queued.\<close>

definition js_list_workers :: "inf_config list \<Rightarrow> (inf_job, string) manager \<Rightarrow> (nat \<times> int \<times> int \<times> nat) list" where
  "js_list_workers cfgs m =
     map (\<lambda>i. (i, core_start (cfgs ! i), core_count (cfgs ! i),
               if WorkQueue_empty (sub_queue (workers m ! i)) then 0 else 1)) [0..<length (workers m)]"

section \<open>The JavaScript classes\<close>

text \<open>
  A JavaScript object of one of these classes points to its manager until \<^verbatim>\<open>close()\<close>. A call with
  too few arguments is a \<^verbatim>\<open>TypeError\<close>. The constructors read their configuration from an object;
  its properties appear here after conversion, \<open>None\<close> standing for what is not a number.
\<close>

type_synonym ('j, 'r) js_object = "('j, 'r) manager option"

definition fib_ctor :: "size_t work_item \<Rightarrow> size_t job_result \<Rightarrow> int option option \<Rightarrow> js_reply + (size_t, size_t) js_object" where
  "fib_ctor d e config =
     (case config of
        None \<Rightarrow> Inl (JsTypeError ''NativeFibonacciManager requires a config object'')
      | Some ws \<Rightarrow>
          let worker_size = (case ws of None \<Rightarrow> 0 | Some n \<Rightarrow> n);
              worker_size = (if worker_size < 1 then 1 else worker_size)
          in Inr (Some (NativeFibonacciManager_new d e worker_size)))"

definition js_worker_ctor ::
  "string work_item \<Rightarrow> js_output job_result \<Rightarrow> (int option \<times> string option) option \<Rightarrow> js_reply + (string, js_output) js_object \<times> string" where
  "js_worker_ctor d e config =
     (case config of
        None \<Rightarrow> Inl (JsTypeError ''NativeJSWorkerManager requires a config object'')
      | Some (ws, path) \<Rightarrow>
          let worker_size = (case ws of None \<Rightarrow> 0 | Some n \<Rightarrow> n);
              worker_size = (if worker_size < 1 then 1 else worker_size)
          in case path of
               None \<Rightarrow> Inl (JsTypeError ''worker_js must be a string path'')
             | Some p \<Rightarrow> Inr (Some (NativeJSWorkerManager_new d e worker_size), c_str p))"

record inf_options =
  o_mlock :: "bool option"
  o_n_ctx :: "int option"
  o_n_batch :: "int option"
  o_models :: "(string option \<times> string option) list"
  o_workers :: "int option"

definition positive_or :: "int \<Rightarrow> int option \<Rightarrow> int" where
  "positive_or def v = (case v of None \<Rightarrow> def | Some n \<Rightarrow> if n > 0 then n else def)"

fun load_models :: "(string \<Rightarrow> bool \<Rightarrow> nat option) \<Rightarrow> bool \<Rightarrow> models \<Rightarrow> (string option \<times> string option) list \<Rightarrow> models" where
  "load_models load use_mlock mods [] = mods"
| "load_models load use_mlock mods ((Some cls, Some path) # es) =
     load_models load use_mlock (snd (add_model load mods (c_str cls) (c_str path) use_mlock)) es"
| "load_models load use_mlock mods (_ # es) = load_models load use_mlock mods es"

definition inf_ctor ::
  "(string \<Rightarrow> bool \<Rightarrow> nat option) \<Rightarrow> int \<Rightarrow> inf_job work_item \<Rightarrow> string job_result \<Rightarrow> inf_options option \<Rightarrow>
   (js_reply + (inf_job, string) js_object \<times> inf_config list \<times> models) res" where
  "inf_ctor load nprocs d e config =
     (case config of
        None \<Rightarrow> Inr (Inl (JsTypeError ''NativeInferenceEngine requires a config object''))
      | Some opts \<Rightarrow>
          let use_mlock = (case o_mlock opts of None \<Rightarrow> False | Some b \<Rightarrow> b);
              mods = load_models load use_mlock Map.empty (o_models opts)
          in res_bind (spawn_workers nprocs (positive_or 1 (o_workers opts)) (positive_or 2048 (o_n_ctx opts)) (positive_or 0 (o_n_batch opts)))
               (\<lambda>cfgs. Inr (Inr (Some (new_manager (replicate (length cfgs)
                    (Worker_new InferenceWorker_QUEUE_DEPTH InferenceWorker_RESULT_QUEUE_DEPTH d e))), cfgs, mods))))"

definition fib_js_dispatch ::
  "(size_t, size_t) js_object \<Rightarrow> (size_t \<times> nat option) option \<Rightarrow> (js_reply \<times> (size_t, size_t) js_object) res" where
  "fib_js_dispatch obj args =
     (case args of
        None \<Rightarrow> Inr (JsTypeError ''dispatch(value, callback)'', obj)
      | Some (val, cb) \<Rightarrow>
          case obj of
            None \<Rightarrow> Inr (JsException, obj)
          | Some m \<Rightarrow> res_bind (NativeFibonacciManager_js_dispatch m val cb) (\<lambda>(r, m'). Inr (r, Some m')))"

definition jsw_dispatch ::
  "(string, js_output) js_object \<Rightarrow> (string option \<times> nat option) option \<Rightarrow> (js_reply \<times> (string, js_output) js_object) res" where
  "jsw_dispatch obj args =
     (case args of
        None \<Rightarrow> Inr (JsTypeError ''dispatch(inputJson, callback)'', obj)
      | Some (val, cb) \<Rightarrow>
          case obj of
            None \<Rightarrow> Inr (JsException, obj)
          | Some m \<Rightarrow> res_bind (NativeJSWorkerManager_js_dispatch m val cb) (\<lambda>(r, m'). Inr (r, Some m')))"

definition js_do_inference ::
  "models \<Rightarrow> (inf_job, string) js_object \<Rightarrow> (inf_packet \<times> nat option) option \<Rightarrow> (js_reply \<times> (inf_job, string) js_object) res" where
  "js_do_inference mods obj args =
     (case args of
        None \<Rightarrow> Inr (JsTypeError ''do_inference(packet, callback)'', obj)
      | Some (val, cb) \<Rightarrow>
          case obj of
            None \<Rightarrow> Inr (JsException, obj)
          | Some m \<Rightarrow> res_bind (NativeInferenceManager_js_dispatch mods m val cb) (\<lambda>(r, m'). Inr (r, Some m')))"

definition progress_of :: "string \<Rightarrow> ('j, 'r) js_object \<Rightarrow> size_t option \<Rightarrow> js_reply" where
  "progress_of usage obj arg =
     (case arg of
        None \<Rightarrow> JsTypeError usage
      | Some jid \<Rightarrow> (case obj of None \<Rightarrow> JsException | Some m \<Rightarrow> js_get_progress m jid))"

definition close_object :: "('j, 'r) js_object \<Rightarrow> js_reply \<times> ('j, 'r) worker list \<times> ('j, 'r) js_object" where
  "close_object obj =
     (case obj of
        None \<Rightarrow> (JsUndefined, [], None)
      | Some m \<Rightarrow> (let (r, ws, m') = js_close True m in (r, ws, None)))"

text \<open>The finaliser of a collected object stops the workers of a manager that was not closed.\<close>

definition finalize_object :: "('j, 'r) js_object \<Rightarrow> ('j, 'r) worker list" where
  "finalize_object obj = (case obj of None \<Rightarrow> [] | Some m \<Rightarrow> (let (r, ws, m') = js_close False m in ws))"

section \<open>Properties\<close>

definition queued_jobs :: "size_t \<Rightarrow> ('j, 'r) worker \<Rightarrow> 'j work_item list" where
  "queued_jobs QN w = spsc_contents QN (queue (sub_queue w))"

definition manager_inv :: "size_t \<Rightarrow> ('j, 'r) manager \<Rightarrow> bool" where
  "manager_inv QN m \<longleftrightarrow> (\<forall>w \<in> set (workers m). spsc_inv QN (queue (sub_queue w))) \<and> length (workers m) < 2 ^ 64"

lemma Worker_enqueue_cases:
  assumes "spsc_inv QN (queue (sub_queue w))"
  shows "\<exists>w'. spsc_inv QN (queue (sub_queue w')) \<and> result_queue w' = result_queue w \<and>
    (if length (queued_jobs QN w) < unat QN - 1
     then Worker_enqueue QN w x = Inr (True, w') \<and> queued_jobs QN w' = queued_jobs QN w @ [x] \<and> in_flight w' = in_flight w + 1
     else Worker_enqueue QN w x = Inr (False, w') \<and> w' = w)"
proof (cases "length (queued_jobs QN w) < unat QN - 1")
  case True
  then obtain q where "SPSCQueue_push QN (queue (sub_queue w)) x = Inr (True, q)" "spsc_inv QN q"
    "spsc_contents QN q = queued_jobs QN w @ [x]" using spsc.push_ok [OF assms, of x] by (auto simp: queued_jobs_def)
  then show ?thesis using True
    by (auto simp: Worker_enqueue_def WorkQueue_enqueue_def Let_def uv_ref_bell_def queued_jobs_def)
next
  case False
  then have "length (spsc_contents QN (queue (sub_queue w))) = unat QN - 1" using spsc.bounded [OF assms] by (simp add: queued_jobs_def)
  then show ?thesis using False assms spsc.push_full [OF assms, of x] by (simp add: Worker_enqueue_def WorkQueue_enqueue_def)
qed

lemma pick_worker_in_range:
  assumes "workers m \<noteq> []" "length (workers m) < 2 ^ 64" "pick_worker m = (i, m')"
  shows "i = unat (next_worker_idx m) mod length (workers m)" "i < length (workers m)"
proof -
  have "unat (of_nat (length (workers m)) :: size_t) = length (workers m)" using assms(2) by (simp add: unat_of_nat)
  then show "i = unat (next_worker_idx m) mod length (workers m)" using assms(3) by (auto simp: pick_worker_def unat_mod)
  then show "i < length (workers m)" using assms(1) by simp
qed

lemma submit_spec:
  assumes "manager_inv QN m" "workers m \<noteq> []"
  defines "i \<equiv> unat (next_worker_idx m) mod length (workers m)"
  shows "\<exists>m' w'. submit QN m payload cb = Inr (if length (queued_jobs QN (workers m ! i)) < unat QN - 1 then JsInt64 (next_job_id m) else JsQueueFull i, m') \<and>
    manager_inv QN m' \<and> workers m' = (workers m)[i := w'] \<and> next_job_id m' = next_job_id m + 1 \<and> next_worker_idx m' = next_worker_idx m + 1 \<and>
    (if length (queued_jobs QN (workers m ! i)) < unat QN - 1
     then queued_jobs QN w' = queued_jobs QN (workers m ! i) @ [\<lparr>job_id = next_job_id m, job = payload, callback = cb\<rparr>] \<and>
          job_status m' = (job_status m)(next_job_id m \<mapsto> PENDING)
     else w' = workers m ! i \<and> job_status m' = job_status m)"
proof -
  let ?m1 = "m\<lparr>next_job_id := next_job_id m + 1\<rparr>"
  obtain k m1 where p: "pick_worker ?m1 = (k, m1)" by fastforce
  have k: "k = i" "i < length (workers m)" and m1: "m1 = ?m1\<lparr>next_worker_idx := next_worker_idx m + 1\<rparr>"
    using pick_worker_in_range [of ?m1 k m1] p assms by (auto simp: manager_inv_def i_def pick_worker_def)
  have inv: "spsc_inv QN (queue (sub_queue (workers m ! i)))" using assms(1) k(2) by (simp add: manager_inv_def)
  let ?x = "\<lparr>job_id = next_job_id m, job = payload, callback = cb\<rparr>"
  obtain w' where w': "spsc_inv QN (queue (sub_queue w'))"
    "if length (queued_jobs QN (workers m ! i)) < unat QN - 1
     then Worker_enqueue QN (workers m ! i) ?x = Inr (True, w') \<and> queued_jobs QN w' = queued_jobs QN (workers m ! i) @ [?x]
     else Worker_enqueue QN (workers m ! i) ?x = Inr (False, w') \<and> w' = workers m ! i"
    using Worker_enqueue_cases [OF inv, of ?x] by (auto split: if_splits)
  have upd: "\<forall>w \<in> set ((workers m)[i := w']). spsc_inv QN (queue (sub_queue w))"
    using assms(1) w'(1) set_update_subset_insert [of "workers m" i w'] by (auto simp: manager_inv_def)
  show ?thesis
  proof (cases "length (queued_jobs QN (workers m ! i)) < unat QN - 1")
    case True
    then show ?thesis using w'(2) p k m1 upd assms(1) by (auto simp: submit_def Let_def manager_inv_def)
  next
    case False
    then show ?thesis using w'(2) p k m1 upd assms(1)
      by (intro exI [of _ "m1\<lparr>workers := (workers m1)[i := w']\<rparr>"] exI [of _ w']) (auto simp: submit_def Let_def manager_inv_def)
  qed
qed

text \<open>
  C36. \<^verbatim>\<open>dispatch\<close> of the Fibonacci manager: without a function it throws, with a full queue it
  throws and the job is not queued, and otherwise the job is appended to the queue of the next
  worker in turn under a new number, with status pending. In both cases of the last kind the
  counters advance, and the other workers are untouched.
\<close>

theorem fib_dispatch_spec:
  assumes "manager_inv FibonacciWorker_QUEUE_DEPTH m" "workers m \<noteq> []"
  defines "i \<equiv> unat (next_worker_idx m) mod length (workers m)"
  shows "NativeFibonacciManager_js_dispatch m val None = Inr (JsTypeError ''callback must be a function'', m) \<and>
    (\<exists>m' w'. NativeFibonacciManager_js_dispatch m val (Some cb) =
        Inr (if length (queued_jobs FibonacciWorker_QUEUE_DEPTH (workers m ! i)) < 63 then JsInt64 (next_job_id m) else JsQueueFull i, m') \<and>
      manager_inv FibonacciWorker_QUEUE_DEPTH m' \<and> workers m' = (workers m)[i := w'] \<and>
      next_job_id m' = next_job_id m + 1 \<and> next_worker_idx m' = next_worker_idx m + 1 \<and>
      (if length (queued_jobs FibonacciWorker_QUEUE_DEPTH (workers m ! i)) < 63
       then queued_jobs FibonacciWorker_QUEUE_DEPTH w' =
              queued_jobs FibonacciWorker_QUEUE_DEPTH (workers m ! i) @ [\<lparr>job_id = next_job_id m, job = val, callback = cb\<rparr>] \<and>
            js_get_progress m' (next_job_id m) = JsString ''pending''
       else w' = workers m ! i \<and> job_status m' = job_status m))"
proof -
  have u: "unat FibonacciWorker_QUEUE_DEPTH - 1 = 63" by (simp add: FibonacciWorker_QUEUE_DEPTH_def)
  show ?thesis
    using submit_spec [OF assms(1,2), of val cb] assms(2) unfolding u i_def [symmetric]
    by (auto simp: NativeFibonacciManager_js_dispatch_def js_get_progress_def split: if_splits)
qed

text \<open>
  C37. The cores of the inference workers: for a positive number of workers every worker gets the
  same positive number of cores, the ranges of different workers do not overlap, core 0 is left
  out, and if there are at most as many workers as other cores, all cores exist.
\<close>

theorem spawn_workers_cores:
  assumes "0 < cnt"
  shows "\<exists>cfgs. spawn_workers nprocs cnt nctx nbatch = Inr cfgs \<and> length cfgs = nat cnt \<and>
    (\<forall>i j. i < j \<and> j < length cfgs \<longrightarrow> core_start (cfgs ! i) + core_count (cfgs ! i) \<le> core_start (cfgs ! j)) \<and>
    (\<forall>c \<in> set cfgs. 1 \<le> core_start c \<and> 1 \<le> core_count c) \<and>
    (cnt \<le> nprocs - 1 \<longrightarrow> (\<forall>c \<in> set cfgs. core_start c + core_count c \<le> nprocs))"
proof -
  define total where "total = (if nprocs - 1 < 1 then 1 else nprocs - 1)"
  define each where "each = (if total div cnt < 1 then 1 else total div cnt)"
  define cfg where "cfg i = \<lparr>core_start = 1 + int i * each, core_count = each, n_ctx = nctx,
    n_batch = (if nbatch \<le> 0 then nctx else nbatch)\<rparr>" for i
  have e: "1 \<le> each" by (simp add: each_def)
  have r: "spawn_workers nprocs cnt nctx nbatch = Inr (map cfg [0..<nat cnt])"
    using assms by (simp add: spawn_workers_def Let_def cfg_def each_def total_def)
  have disj: "1 + int i * each + each \<le> 1 + int j * each" if "i < j" for i j
  proof -
    have "(int i + 1) * each \<le> int j * each" using that e by (intro mult_right_mono) auto
    then show ?thesis by (simp add: algebra_simps)
  qed
  have top: "1 + int i * each + each \<le> nprocs" if "i < nat cnt" "cnt \<le> nprocs - 1" for i
  proof -
    have t: "total = nprocs - 1" using that(2) assms by (simp add: total_def)
    then have "1 \<le> total div cnt" using zdiv_mono1 [of cnt total cnt] assms that(2) by simp
    then have t2: "each = total div cnt" by (simp add: each_def)
    have "(int i + 1) * each \<le> cnt * each" using that(1) e by (intro mult_right_mono) auto
    also have "\<dots> \<le> total" unfolding t2 using mult_div_mod_eq [of cnt total] pos_mod_sign [OF assms, of total] by linarith
    finally show ?thesis using t by (simp add: algebra_simps)
  qed
  show ?thesis unfolding r using e disj top by (auto simp: cfg_def)
qed

text \<open>The status of an inference job is \<^verbatim>\<open>done\<close> as soon as its first token has arrived.\<close>

lemma inf_done_after_first_token:
  "js_get_progress (snd (NativeInferenceManager_on_result m (inf_result item tok 0 False))) (job_id item) = JsString ''done''"
  by (simp add: NativeInferenceManager_on_result_def set_status_def js_get_progress_def inf_result_def)

theorem fib_dispatch_spec_witness:
  "\<exists>m m'. fib_ctor undefined undefined (Some (Some 2)) = Inr (Some m) \<and> manager_inv FibonacciWorker_QUEUE_DEPTH m \<and>
     NativeFibonacciManager_js_dispatch m 10 (Some 7) = Inr (JsInt64 0, m') \<and> js_get_progress m' 0 = JsString ''pending''"
proof -
  let ?m = "NativeFibonacciManager_new undefined undefined 2"
  have i: "manager_inv FibonacciWorker_QUEUE_DEPTH ?m"
    by (simp add: manager_inv_def NativeFibonacciManager_new_def new_manager_def Worker_new_def WorkQueue_new_def spsc_inv_new depths)
  have w: "workers ?m \<noteq> []" by (simp add: NativeFibonacciManager_new_def new_manager_def)
  have "queued_jobs FibonacciWorker_QUEUE_DEPTH (workers ?m ! 0) = []" "next_worker_idx ?m = 0" "next_job_id ?m = 0"
    by (simp_all add: NativeFibonacciManager_new_def new_manager_def queued_jobs_def Worker_new_def WorkQueue_new_def)
  then have "\<exists>m'. NativeFibonacciManager_js_dispatch ?m 10 (Some 7) = Inr (JsInt64 0, m') \<and> js_get_progress m' 0 = JsString ''pending''"
    using fib_dispatch_spec [OF i w, of 10 7] by auto
  then show ?thesis using i by (auto simp: fib_ctor_def)
qed

theorem spawn_workers_cores_witness:
  "\<exists>cfgs. spawn_workers 8 3 2048 0 = Inr cfgs \<and> map core_start cfgs = [1, 3, 5] \<and>
     (\<forall>i j. i < j \<and> j < length cfgs \<longrightarrow> core_start (cfgs ! i) + core_count (cfgs ! i) \<le> core_start (cfgs ! j))"
proof -
  have "\<exists>cfgs. spawn_workers 8 3 2048 0 = Inr cfgs \<and> map core_start cfgs = [1, 3, 5]"
    by (simp add: spawn_workers_def Let_def upt_rec)
  then show ?thesis using spawn_workers_cores [of 3 8 2048 0] by auto
qed

end
