(* ===== verification/File_System.thy ===== *)
theory File_System
  imports Prelude
begin

text \<open>
  The JavaScript file system, \<^verbatim>\<open>src/builtins/fs.cc\<close> with \<^verbatim>\<open>include/file_system.h\<close>: \<^verbatim>\<open>open\<close>,
  \<^verbatim>\<open>read\<close> and \<^verbatim>\<open>close\<close>, which hand a request to libuv's thread pool, and their callbacks.

  Objects of the C++ heap are addresses that are not reused: the \<^verbatim>\<open>FileOpState\<close> of an open file,
  its buffer, and a request together with its packet \<^verbatim>\<open>FsOpPacket\<close>, which are allocated and freed
  together. A request is executed by the thread pool at some moment after it was made, and its
  callback runs in the main thread at some moment after that; requests overtake each other freely.
  The kernel is a map from descriptors to the paths they were opened for; the contents of the
  files are a parameter. The field \<open>g_path\<close> of a state is not in the code; it records
  what was opened. What a JavaScript callback calls is a later step of its own, since after the
  call the C++ callback only frees its request.
\<close>

section \<open>State\<close>

record file_state =
  fs_fd :: int
  fs_buf :: "nat option"
  fs_buf_len :: size_t
  g_path :: string

datatype fs_kind = OpenReq string | ReadReq int nat nat | CloseReq int

record fs_req =
  fkind :: fs_kind
  fstate :: nat
  fs_op_cb :: nat
  fresult :: "int option"      \<comment> \<open>\<open>None\<close> until the thread pool has executed the request\<close>

datatype fs_args = FsErr int | FsFd int | FsData "byte list"

record fs_sys =
  fd_state :: "int \<Rightarrow> nat option"
  states :: "nat \<Rightarrow> file_state option"
  bufs :: "nat \<Rightarrow> byte list option"
  reqs :: "nat \<Rightarrow> fs_req option"
  fresh :: nat
  open_fds :: "int \<Rightarrow> string option"
  fs_calls :: "(nat \<times> fs_args) list"

type_synonym fs_files = "string \<Rightarrow> byte list option"

definition FileSystem_new :: fs_sys where
  "FileSystem_new = \<lparr>fd_state = Map.empty, states = Map.empty, bufs = Map.empty, reqs = Map.empty, fresh = 0,
     open_fds = Map.empty, fs_calls = []\<rparr>"

definition get_state :: "fs_sys \<Rightarrow> nat \<Rightarrow> file_state res" where
  "get_state w a = (case states w a of None \<Rightarrow> Inl UseAfterFree | Some s \<Rightarrow> Inr s)"

section \<open>The calls from JavaScript\<close>

text \<open>A path that is not convertible to a C string is a null pointer given to \<^verbatim>\<open>std::string\<close>.\<close>

definition open_file_async :: "fs_sys \<Rightarrow> string option \<Rightarrow> nat \<Rightarrow> fs_sys res" where
  "open_file_async w path cb =
     (case path of
        None \<Rightarrow> Inl NullDeref
      | Some key \<Rightarrow>
          Inr (w\<lparr>states := (states w)(fresh w \<mapsto> \<lparr>fs_fd = -1, fs_buf = None, fs_buf_len = 0, g_path = key\<rparr>),
                 reqs := (reqs w)(fresh w + 1 \<mapsto> \<lparr>fkind = OpenReq key, fstate = fresh w, fs_op_cb = cb, fresult = None\<rparr>),
                 fresh := fresh w + 2\<rparr>))"

text \<open>
  The descriptor and the length are the \<^verbatim>\<open>int\<close> values after conversion. The bytes of a new buffer
  are unspecified in C++ and zero here; no byte is used before it was written.
\<close>

definition read_buffer :: "fs_sys \<Rightarrow> nat \<Rightarrow> file_state \<Rightarrow> int \<Rightarrow> (nat \<times> fs_sys) res" where
  "read_buffer w a s len =
     (if fs_buf s = None \<or> fs_buf_len s \<noteq> word_of_int len then
        if len < 0 then Inl BadAlloc
        else
          let old = (case fs_buf s of None \<Rightarrow> bufs w | Some b \<Rightarrow> (bufs w)(b := None));
              b = fresh w
          in Inr (b, w\<lparr>bufs := old(b \<mapsto> replicate (nat len) 0),
                       states := (states w)(a \<mapsto> s\<lparr>fs_buf := Some b, fs_buf_len := word_of_int len\<rparr>), fresh := b + 1\<rparr>)
      else Inr (the (fs_buf s), w))"

definition read_file_async :: "fs_sys \<Rightarrow> int \<Rightarrow> int \<Rightarrow> nat \<Rightarrow> fs_sys res" where
  "read_file_async w fd len cb =
     (case fd_state w fd of
        None \<Rightarrow> Inr w
      | Some a \<Rightarrow>
          res_bind (get_state w a) (\<lambda>s.
          res_bind (read_buffer w a s len) (\<lambda>(b, w1).
            Inr (w1\<lparr>reqs := (reqs w1)(fresh w1 \<mapsto> \<lparr>fkind = ReadReq fd b (nat len), fstate = a, fs_op_cb = cb, fresult = None\<rparr>),
                    fresh := fresh w1 + 1\<rparr>))))"

definition close_file_async :: "fs_sys \<Rightarrow> int \<Rightarrow> fs_sys res" where
  "close_file_async w fd =
     (case fd_state w fd of
        None \<Rightarrow> Inr w
      | Some a \<Rightarrow>
          Inr (w\<lparr>reqs := (reqs w)(fresh w \<mapsto> \<lparr>fkind = CloseReq fd, fstate = a, fs_op_cb = 0, fresult = None\<rparr>),
                 fresh := fresh w + 1\<rparr>))"

section \<open>The thread pool\<close>

text \<open>
  A request is executed. \<open>fd\<close> is the kernel's choice for an open: a descriptor that is not in use,
  or, when the file does not exist, an error number.
\<close>

definition open_outcome :: "fs_files \<Rightarrow> fs_sys \<Rightarrow> string \<Rightarrow> int \<Rightarrow> bool" where
  "open_outcome files w p fd = (if files p = None then fd < 0 else 0 \<le> fd \<and> open_fds w fd = None)"

definition EBADF :: int where "EBADF = -9"

definition fs_exec :: "fs_files \<Rightarrow> fs_sys \<Rightarrow> nat \<Rightarrow> fs_req \<Rightarrow> int \<Rightarrow> fs_sys res" where
  "fs_exec files w r q fd =
     (case fkind q of
        OpenReq p \<Rightarrow>
          Inr (w\<lparr>reqs := (reqs w)(r \<mapsto> q\<lparr>fresult := Some fd\<rparr>),
                 open_fds := (if fd < 0 then open_fds w else (open_fds w)(fd \<mapsto> p))\<rparr>)
      | ReadReq fd b n \<Rightarrow>
          (case open_fds w fd of
             None \<Rightarrow> Inr (w\<lparr>reqs := (reqs w)(r \<mapsto> q\<lparr>fresult := Some EBADF\<rparr>)\<rparr>)
           | Some p \<Rightarrow>
               let bytes = take n (case files p of None \<Rightarrow> [] | Some c \<Rightarrow> c)
               in case bufs w b of
                    None \<Rightarrow> Inl UseAfterFree
                  | Some xs \<Rightarrow>
                      if length xs < length bytes then Inl OutOfBounds
                      else Inr (w\<lparr>reqs := (reqs w)(r \<mapsto> q\<lparr>fresult := Some (int (length bytes))\<rparr>),
                                  bufs := (bufs w)(b \<mapsto> bytes @ drop (length bytes) xs)\<rparr>))
      | CloseReq fd \<Rightarrow>
          Inr (w\<lparr>reqs := (reqs w)(r \<mapsto> q\<lparr>fresult := Some (if open_fds w fd = None then EBADF else 0)\<rparr>),
                 open_fds := (open_fds w)(fd := None)\<rparr>))"

section \<open>The callbacks\<close>

definition open_file_async_cb :: "fs_sys \<Rightarrow> nat \<Rightarrow> fs_req \<Rightarrow> int \<Rightarrow> fs_sys res" where
  "open_file_async_cb w r q k =
     res_bind (get_state w (fstate q)) (\<lambda>s.
       if k < 0 then Inr (w\<lparr>fs_calls := fs_calls w @ [(fs_op_cb q, FsErr k)], reqs := (reqs w)(r := None)\<rparr>)
       else
         Inr (w\<lparr>states := (states w)(fstate q \<mapsto> s\<lparr>fs_fd := k\<rparr>), fd_state := (fd_state w)(k \<mapsto> fstate q),
                fs_calls := fs_calls w @ [(fs_op_cb q, FsFd k)], reqs := (reqs w)(r := None)\<rparr>))"

text \<open>The read callback looks at the buffer that the state has now.\<close>

definition read_file_async_cb :: "fs_sys \<Rightarrow> nat \<Rightarrow> fs_req \<Rightarrow> int \<Rightarrow> fs_sys res" where
  "read_file_async_cb w r q k =
     res_bind (get_state w (fstate q)) (\<lambda>s.
       if k < 0 then Inr (w\<lparr>fs_calls := fs_calls w @ [(fs_op_cb q, FsErr k)], reqs := (reqs w)(r := None)\<rparr>)
       else
         case fs_buf s of
           None \<Rightarrow> Inl NullDeref
         | Some b \<Rightarrow>
             (case bufs w b of
                None \<Rightarrow> Inl UseAfterFree
              | Some xs \<Rightarrow>
                  if length xs < nat k then Inl OutOfBounds
                  else Inr (w\<lparr>fs_calls := fs_calls w @ [(fs_op_cb q, FsData (take (nat k) xs))], reqs := (reqs w)(r := None)\<rparr>)))"

definition close_file_async_cb :: "fs_sys \<Rightarrow> nat \<Rightarrow> fs_req \<Rightarrow> fs_sys res" where
  "close_file_async_cb w r q =
     res_bind (get_state w (fstate q)) (\<lambda>s.
       Inr (w\<lparr>fd_state := (fd_state w)(fs_fd s := None), reqs := (reqs w)(r := None), states := (states w)(fstate q := None),
              bufs := (case fs_buf s of None \<Rightarrow> bufs w | Some b \<Rightarrow> (bufs w)(b := None))\<rparr>))"

definition fs_finish :: "fs_sys \<Rightarrow> nat \<Rightarrow> fs_req \<Rightarrow> int \<Rightarrow> fs_sys res" where
  "fs_finish w r q k =
     (case fkind q of
        OpenReq _ \<Rightarrow> open_file_async_cb w r q k
      | ReadReq _ _ _ \<Rightarrow> read_file_async_cb w r q k
      | CloseReq _ \<Rightarrow> close_file_async_cb w r q)"

section \<open>Programs that wait\<close>

text \<open>
  The code does not keep track of the requests on a file. A program is careful if it does not read
  or close a file while a request on it is pending, that is, if it waits for the callback.
\<close>

definition idle :: "fs_sys \<Rightarrow> nat \<Rightarrow> bool" where
  "idle w a \<longleftrightarrow> (\<forall>r q. reqs w r = Some q \<longrightarrow> fstate q \<noteq> a)"

inductive fs_step :: "fs_files \<Rightarrow> fs_sys \<Rightarrow> fs_sys \<Rightarrow> bool" for files where
  s_open: "open_file_async w (Some p) cb = Inr w' \<Longrightarrow> fs_step files w w'"
| s_read: "\<forall>a. fd_state w fd = Some a \<longrightarrow> idle w a \<Longrightarrow> 0 \<le> len \<Longrightarrow> len < 2 ^ 31 \<Longrightarrow> read_file_async w fd len cb = Inr w' \<Longrightarrow>
     fs_step files w w'"
| s_close: "\<forall>a. fd_state w fd = Some a \<longrightarrow> idle w a \<Longrightarrow> close_file_async w fd = Inr w' \<Longrightarrow> fs_step files w w'"
| s_exec: "reqs w r = Some q \<Longrightarrow> fresult q = None \<Longrightarrow> \<forall>p. fkind q = OpenReq p \<longrightarrow> open_outcome files w p fd \<Longrightarrow>
     fs_exec files w r q fd = Inr w' \<Longrightarrow> fs_step files w w'"
| s_finish: "reqs w r = Some q \<Longrightarrow> fresult q = Some k \<Longrightarrow> fs_finish w r q k = Inr w' \<Longrightarrow> fs_step files w w'"

inductive fs_reachable :: "fs_files \<Rightarrow> fs_sys \<Rightarrow> bool" for files where
  fs_start: "fs_reachable files FileSystem_new"
| fs_next: "fs_reachable files w \<Longrightarrow> fs_step files w w' \<Longrightarrow> fs_reachable files w'"

section \<open>Well-formed states\<close>

definition closed_by :: "fs_sys \<Rightarrow> nat \<Rightarrow> bool" where
  "closed_by w a \<longleftrightarrow> (\<exists>r q fd k. reqs w r = Some q \<and> fstate q = a \<and> fkind q = CloseReq fd \<and> fresult q = Some k)"

text \<open>The descriptor the kernel gave out for a state, from the open call until the close call.\<close>

definition opened_by :: "fs_sys \<Rightarrow> nat \<Rightarrow> int \<Rightarrow> bool" where
  "opened_by w a fd \<longleftrightarrow> (\<exists>r q p. reqs w r = Some q \<and> fstate q = a \<and> fkind q = OpenReq p \<and> fresult q = Some fd)"

definition owns :: "fs_sys \<Rightarrow> nat \<Rightarrow> int \<Rightarrow> bool" where
  "owns w a fd \<longleftrightarrow> 0 \<le> fd \<and> ((\<exists>s. states w a = Some s \<and> fs_fd s = fd \<and> \<not> closed_by w a) \<or> opened_by w a fd)"

text \<open>What a pending request says about its state.\<close>

definition req_fits :: "fs_files \<Rightarrow> (nat \<Rightarrow> byte list option) \<Rightarrow> fs_req \<Rightarrow> file_state \<Rightarrow> bool" where
  "req_fits files mem q s \<longleftrightarrow>
     (case fkind q of
        OpenReq p \<Rightarrow> fs_fd s = -1 \<and> fs_buf s = None \<and> g_path s = p
      | ReadReq fd b n \<Rightarrow> fs_fd s = fd \<and> 0 \<le> fd \<and> fs_buf s = Some b \<and>
          (\<exists>xs c. mem b = Some xs \<and> length xs = n \<and> files (g_path s) = Some c \<and>
             (\<forall>k. fresult q = Some k \<longrightarrow> k = int (length (take n c)) \<and> take (nat k) xs = take n c))
      | CloseReq fd \<Rightarrow> fs_fd s = fd \<and> 0 \<le> fd)"

definition req_ok :: "fs_files \<Rightarrow> fs_sys \<Rightarrow> fs_req \<Rightarrow> bool" where
  "req_ok files w q \<longleftrightarrow> (\<exists>s. states w (fstate q) = Some s \<and> req_fits files (bufs w) q s)"

definition fs_type :: "fs_files \<Rightarrow> fs_sys \<Rightarrow> bool" where
  "fs_type files w \<longleftrightarrow>
     (\<forall>fd a. fd_state w fd = Some a \<longrightarrow> 0 \<le> fd \<and> (\<exists>s. states w a = Some s \<and> fs_fd s = fd)) \<and>
     (\<forall>r q. reqs w r = Some q \<longrightarrow> req_ok files w q) \<and>
     (\<forall>r r' q q'. reqs w r = Some q \<longrightarrow> reqs w r' = Some q' \<longrightarrow> fstate q = fstate q' \<longrightarrow> r = r') \<and>
     (\<forall>a s b. states w a = Some s \<longrightarrow> fs_buf s = Some b \<longrightarrow> (\<exists>xs. bufs w b = Some xs \<and> length xs = unat (fs_buf_len s))) \<and>
     (\<forall>a a' s s' b. states w a = Some s \<longrightarrow> states w a' = Some s' \<longrightarrow> fs_buf s = Some b \<longrightarrow> fs_buf s' = Some b \<longrightarrow> a = a')"

definition fs_kernel :: "fs_files \<Rightarrow> fs_sys \<Rightarrow> bool" where
  "fs_kernel files w \<longleftrightarrow>
     (\<forall>a fd. owns w a fd \<longrightarrow> (\<exists>s c. states w a = Some s \<and> open_fds w fd = Some (g_path s) \<and> files (g_path s) = Some c)) \<and>
     (\<forall>a a' fd. owns w a fd \<longrightarrow> owns w a' fd \<longrightarrow> a = a')"

definition fs_fresh :: "fs_sys \<Rightarrow> bool" where
  "fs_fresh w \<longleftrightarrow> (\<forall>x \<ge> fresh w. states w x = None \<and> bufs w x = None \<and> reqs w x = None)"

definition fs_inv :: "fs_files \<Rightarrow> fs_sys \<Rightarrow> bool" where
  "fs_inv files w \<longleftrightarrow> fs_type files w \<and> fs_kernel files w \<and> fs_fresh w"

lemma fs_typeI:
  assumes "\<And>fd a. fd_state w fd = Some a \<Longrightarrow> 0 \<le> fd \<and> (\<exists>s. states w a = Some s \<and> fs_fd s = fd)"
    and "\<And>r q. reqs w r = Some q \<Longrightarrow> req_ok files w q"
    and "\<And>r r' q q'. reqs w r = Some q \<Longrightarrow> reqs w r' = Some q' \<Longrightarrow> fstate q = fstate q' \<Longrightarrow> r = r'"
    and "\<And>a s b. states w a = Some s \<Longrightarrow> fs_buf s = Some b \<Longrightarrow> \<exists>xs. bufs w b = Some xs \<and> length xs = unat (fs_buf_len s)"
    and "\<And>a a' s s' b. states w a = Some s \<Longrightarrow> states w a' = Some s' \<Longrightarrow> fs_buf s = Some b \<Longrightarrow> fs_buf s' = Some b \<Longrightarrow> a = a'"
  shows "fs_type files w"
  unfolding fs_type_def using assms by blast

lemma fs_typeD:
  assumes "fs_type files w"
  shows "fd_state w fd = Some a \<Longrightarrow> 0 \<le> fd \<and> (\<exists>s. states w a = Some s \<and> fs_fd s = fd)"
    and "reqs w r = Some q \<Longrightarrow> req_ok files w q"
    and "reqs w r = Some q \<Longrightarrow> reqs w r' = Some q' \<Longrightarrow> fstate q = fstate q' \<Longrightarrow> r = r'"
    and "states w a = Some s \<Longrightarrow> fs_buf s = Some b \<Longrightarrow> \<exists>xs. bufs w b = Some xs \<and> length xs = unat (fs_buf_len s)"
    and "states w a = Some s \<Longrightarrow> states w a' = Some s' \<Longrightarrow> fs_buf s = Some b \<Longrightarrow> fs_buf s' = Some b \<Longrightarrow> a = a'"
  using assms unfolding fs_type_def by blast+

lemma fs_kernelI:
  assumes "\<And>a fd. owns w a fd \<Longrightarrow> \<exists>s c. states w a = Some s \<and> open_fds w fd = Some (g_path s) \<and> files (g_path s) = Some c"
    and "\<And>a a' fd. owns w a fd \<Longrightarrow> owns w a' fd \<Longrightarrow> a = a'"
  shows "fs_kernel files w"
  unfolding fs_kernel_def using assms by blast

lemma fs_kernelD:
  assumes "fs_kernel files w"
  shows "owns w a fd \<Longrightarrow> \<exists>s c. states w a = Some s \<and> open_fds w fd = Some (g_path s) \<and> files (g_path s) = Some c"
    and "owns w a fd \<Longrightarrow> owns w a' fd \<Longrightarrow> a = a'"
  using assms unfolding fs_kernel_def by blast+

lemma fs_freshD:
  assumes "fs_fresh w"
  shows "states w a = Some s \<Longrightarrow> a < fresh w" "bufs w b = Some xs \<Longrightarrow> b < fresh w" "reqs w r = Some q \<Longrightarrow> r < fresh w"
  using assms unfolding fs_fresh_def by (metis not_less option.distinct(1))+

text \<open>A request only depends on its state and the buffer of that state.\<close>

lemma req_ok_cong:
  assumes "req_ok files w q" "states w' (fstate q) = states w (fstate q)"
    and "\<And>s b. states w (fstate q) = Some s \<Longrightarrow> fs_buf s = Some b \<Longrightarrow> bufs w' b = bufs w b"
  shows "req_ok files w' q"
proof -
  obtain s where s: "states w (fstate q) = Some s" "req_fits files (bufs w) q s" using assms(1) by (auto simp: req_ok_def)
  then have "req_fits files (bufs w') q s" using assms(3) [OF s(1)] by (cases "fkind q") (auto simp: req_fits_def)
  then show ?thesis using s(1) assms(2) by (auto simp: req_ok_def)
qed

lemma req_ok_state: "req_ok files w q \<Longrightarrow> \<exists>s. states w (fstate q) = Some s"
  by (auto simp: req_ok_def)

lemma new_request:
  assumes "reqs w r = None" "reqs w' = (reqs w)(r \<mapsto> q)" "fresult q = None"
  shows "closed_by w' a = closed_by w a" "opened_by w' a fd = opened_by w a fd"
proof -
  have *: "reqs w' x = Some y \<and> fresult y = Some k \<longleftrightarrow> reqs w x = Some y \<and> fresult y = Some k" for x y k
    using assms by auto
  show "closed_by w' a = closed_by w a" unfolding closed_by_def using * by metis
  show "opened_by w' a fd = opened_by w a fd" unfolding opened_by_def using * by metis
qed

section \<open>Opening\<close>

lemma open_ok:
  assumes "fs_inv files w"
  shows "\<exists>w'. open_file_async w (Some p) cb = Inr w' \<and> fs_inv files w'"
proof -
  let ?a = "fresh w"
  let ?s = "\<lparr>fs_fd = -1, fs_buf = None, fs_buf_len = 0, g_path = p\<rparr>"
  let ?q = "\<lparr>fkind = OpenReq p, fstate = ?a, fs_op_cb = cb, fresult = None\<rparr>"
  define w' where "w' = w\<lparr>states := (states w)(?a \<mapsto> ?s), reqs := (reqs w)(?a + 1 \<mapsto> ?q), fresh := ?a + 2\<rparr>"
  have t: "fs_type files w" and k: "fs_kernel files w" and f: "fs_fresh w" using assms by (simp_all add: fs_inv_def)
  have st: "states w' x = (if x = ?a then Some ?s else states w x)" for x by (simp add: w'_def)
  have rq: "reqs w' x = (if x = ?a + 1 then Some ?q else reqs w x)" for x by (simp add: w'_def)
  have same: "fd_state w' = fd_state w" "bufs w' = bufs w" "open_fds w' = open_fds w" by (simp_all add: w'_def)
  have old: "fstate q \<noteq> ?a" if "reqs w r = Some q" for r q
    using req_ok_state [OF fs_typeD(2) [OF t that]] fs_freshD(1) [OF f] by force
  have "fs_type files w'"
  proof (rule fs_typeI)
    show "0 \<le> fd \<and> (\<exists>s. states w' a = Some s \<and> fs_fd s = fd)" if "fd_state w' fd = Some a" for fd a
      using fs_typeD(1) [OF t, of fd a] that fs_freshD(1) [OF f, of a] by (auto simp: same st)
    show "req_ok files w' q" if "reqs w' r = Some q" for r q
    proof (cases "r = ?a + 1")
      case True
      then show ?thesis using that by (auto simp: rq req_ok_def req_fits_def st)
    next
      case False
      then have "reqs w r = Some q" using that by (simp add: rq)
      then show ?thesis using req_ok_cong [OF fs_typeD(2) [OF t]] old by (simp add: st same)
    qed
    show "r = r'" if "reqs w' r = Some q" "reqs w' r' = Some q'" "fstate q = fstate q'" for r r' q q'
      using that old [of r q] old [of r' q'] fs_typeD(3) [OF t, of r q r' q'] by (auto simp: rq split: if_splits)
    show "\<exists>xs. bufs w' b = Some xs \<and> length xs = unat (fs_buf_len s)" if "states w' a = Some s" "fs_buf s = Some b" for a s b
      using that fs_typeD(4) [OF t] by (auto simp: st same split: if_splits)
    show "a = a'" if "states w' a = Some s" "states w' a' = Some s'" "fs_buf s = Some b" "fs_buf s' = Some b" for a a' s s' b
      using that fs_typeD(5) [OF t, of a s a' s' b] by (auto simp: st split: if_splits)
  qed
  moreover have ow: "owns w a fd" if "owns w' a fd" for a fd
  proof -
    have "reqs w (?a + 1) = None" using fs_freshD(3) [OF f, of "?a + 1"] by (cases "reqs w (?a + 1)") auto
    from new_request [OF this, of w' ?q] show ?thesis using that by (auto simp: owns_def st w'_def split: if_splits)
  qed
  have "fs_kernel files w'"
  proof (rule fs_kernelI)
    show "\<exists>s c. states w' a = Some s \<and> open_fds w' fd = Some (g_path s) \<and> files (g_path s) = Some c" if "owns w' a fd" for a fd
      using fs_kernelD(1) [OF k ow [OF that]] fs_freshD(1) [OF f, of a] by (auto simp: st same)
  qed (use ow fs_kernelD(2) [OF k] in blast)
  moreover have "fs_fresh w'" using f by (auto simp: fs_fresh_def w'_def)
  moreover have "open_file_async w (Some p) cb = Inr w'" by (simp add: open_file_async_def w'_def)
  ultimately show ?thesis by (auto simp: fs_inv_def)
qed

section \<open>Requests on an open file\<close>

lemma fs_invD: "fs_inv files w \<Longrightarrow> fs_type files w" "fs_inv files w \<Longrightarrow> fs_kernel files w" "fs_inv files w \<Longrightarrow> fs_fresh w"
  by (simp_all add: fs_inv_def)

lemma fresh_none: "fs_fresh w \<Longrightarrow> states w (fresh w) = None" "fs_fresh w \<Longrightarrow> bufs w (fresh w) = None" "fs_fresh w \<Longrightarrow> reqs w (fresh w) = None"
  by (simp_all add: fs_fresh_def)

lemma add_request:
  assumes "fs_inv files w" "idle w (fstate q)" "states w (fstate q) = Some s" "req_fits files (bufs w) q s" "fresult q = None"
  shows "fs_inv files (w\<lparr>reqs := (reqs w)(fresh w \<mapsto> q), fresh := fresh w + 1\<rparr>)"
proof -
  define w' where "w' = w\<lparr>reqs := (reqs w)(fresh w \<mapsto> q), fresh := fresh w + 1\<rparr>"
  note t = fs_invD(1) [OF assms(1)] and k = fs_invD(2) [OF assms(1)] and f = fs_invD(3) [OF assms(1)]
  have same: "fd_state w' = fd_state w" "bufs w' = bufs w" "open_fds w' = open_fds w" "states w' = states w" by (simp_all add: w'_def)
  have rq: "reqs w' = (reqs w)(fresh w \<mapsto> q)" by (simp add: w'_def)
  have other: "fstate q' \<noteq> fstate q" if "reqs w r = Some q'" for r q' using assms(2) that by (auto simp: idle_def)
  have "fs_type files w'"
  proof (rule fs_typeI)
    show "req_ok files w' q'" if "reqs w' r = Some q'" for r q'
      using that fs_typeD(2) [OF t, of r q'] assms(3,4) by (auto simp: rq req_ok_def same split: if_splits)
    show "r = r'" if "reqs w' r = Some q1" "reqs w' r' = Some q2" "fstate q1 = fstate q2" for r r' q1 q2
      using that other [of r q1] other [of r' q2] fs_typeD(3) [OF t, of r q1 r' q2] by (auto simp: rq split: if_splits)
  qed (use fs_typeD(1,4,5) [OF t] in \<open>simp_all add: same\<close>)
  moreover have "owns w' a fd = owns w a fd" for a fd
    using new_request [OF fresh_none(3) [OF f] rq assms(5)] by (simp add: owns_def same)
  then have "fs_kernel files w'" using k by (simp add: fs_kernel_def same)
  moreover have "fs_fresh w'" using f by (auto simp: fs_fresh_def w'_def)
  ultimately show ?thesis by (simp add: fs_inv_def w'_def)
qed

lemma idle_owns:
  assumes "fs_inv files w" "idle w a" "states w a = Some s" "0 \<le> fs_fd s"
  shows "owns w a (fs_fd s)" "open_fds w (fs_fd s) = Some (g_path s)" "\<exists>c. files (g_path s) = Some c"
proof -
  have "\<not> closed_by w a" using assms(2) by (auto simp: idle_def closed_by_def)
  then show "owns w a (fs_fd s)" using assms(3,4) by (auto simp: owns_def)
  from fs_kernelD(1) [OF fs_invD(2) [OF assms(1)] this] show "open_fds w (fs_fd s) = Some (g_path s)" "\<exists>c. files (g_path s) = Some c"
    using assms(3) by auto
qed

lemma read_buffer_ok:
  assumes "fs_inv files w" "idle w a" "states w a = Some s" "0 \<le> len" "len < 2 ^ 31"
  shows "\<exists>b w1 s1 xs. read_buffer w a s len = Inr (b, w1) \<and> fs_inv files w1 \<and> idle w1 a \<and> states w1 a = Some s1 \<and>
    fs_fd s1 = fs_fd s \<and> g_path s1 = g_path s \<and> fs_buf s1 = Some b \<and> bufs w1 b = Some xs \<and> length xs = nat len"
proof -
  note t = fs_invD(1) [OF assms(1)] and k = fs_invD(2) [OF assms(1)] and f = fs_invD(3) [OF assms(1)]
  have len: "unat (word_of_int len :: size_t) = nat len" using assms(4,5) by (simp add: unat_eq_nat_uint uint_word_of_int)
  show ?thesis
  proof (cases "fs_buf s = None \<or> fs_buf_len s \<noteq> word_of_int len")
    case False
    then obtain b where "fs_buf s = Some b" by auto
    then show ?thesis using False fs_typeD(4) [OF t assms(3)] assms len by (auto simp: read_buffer_def)
  next
    case True
    let ?b = "fresh w"
    let ?s = "s\<lparr>fs_buf := Some ?b, fs_buf_len := word_of_int len\<rparr>"
    let ?old = "case fs_buf s of None \<Rightarrow> bufs w | Some b \<Rightarrow> (bufs w)(b := None)"
    define w1 where "w1 = w\<lparr>bufs := ?old(?b \<mapsto> replicate (nat len) 0), states := (states w)(a \<mapsto> ?s), fresh := ?b + 1\<rparr>"
    have r: "read_buffer w a s len = Inr (?b, w1)" using True assms(4) by (simp add: read_buffer_def w1_def Let_def)
    have same: "fd_state w1 = fd_state w" "open_fds w1 = open_fds w" "reqs w1 = reqs w" by (simp_all add: w1_def)
    have st: "states w1 x = (if x = a then Some ?s else states w x)" for x by (simp add: w1_def)
    have bf: "bufs w1 x = (if x = ?b then Some (replicate (nat len) 0) else if fs_buf s = Some x then None else bufs w x)" for x
      by (auto simp: w1_def split: option.splits)
    have keep: "bufs w1 b = bufs w b" "b \<noteq> ?b" if "x \<noteq> a" "states w x = Some u" "fs_buf u = Some b" for x u b
    proof -
      note hyp = that
      obtain xs where "bufs w b = Some xs" using fs_typeD(4) [OF t hyp(2,3)] by blast
      then show "b \<noteq> ?b" using fs_freshD(2) [OF f] by auto
      then show "bufs w1 b = bufs w b" using fs_typeD(5) [OF t hyp(2) assms(3) hyp(3)] hyp(1) by (auto simp: bf)
    qed
    have "fs_type files w1"
    proof (rule fs_typeI)
      show "0 \<le> fd \<and> (\<exists>s. states w1 x = Some s \<and> fs_fd s = fd)" if "fd_state w1 fd = Some x" for fd x
        using fs_typeD(1) [OF t, of fd x] that assms(3) by (auto simp: same st)
      show "req_ok files w1 q" if "reqs w1 r = Some q" for r q
      proof -
        have q: "reqs w r = Some q" "fstate q \<noteq> a" using that assms(2) by (auto simp: same idle_def)
        then show ?thesis using req_ok_cong [OF fs_typeD(2) [OF t q(1)], of w1] keep by (simp add: st)
      qed
      show "\<exists>xs. bufs w1 b = Some xs \<and> length xs = unat (fs_buf_len u)" if "states w1 x = Some u" "fs_buf u = Some b" for x u b
        using that keep(1) [of x u b] fs_typeD(4) [OF t, of x u b] by (auto simp: st bf len split: if_splits)
      show "x = x'" if "states w1 x = Some u" "states w1 x' = Some u'" "fs_buf u = Some b" "fs_buf u' = Some b" for x x' u u' b
        using that keep(2) [of x u b] keep(2) [of x' u' b] fs_typeD(5) [OF t, of x u x' u' b] by (auto simp: st split: if_splits)
    qed (use fs_typeD(3) [OF t] in \<open>simp add: same\<close>)
    moreover have cl: "closed_by w1 x = closed_by w x" "opened_by w1 x fd = opened_by w x fd" for x fd
      by (simp_all add: closed_by_def opened_by_def same)
    have ow: "owns w1 x fd = owns w x fd" for x fd using assms(3) by (auto simp: owns_def cl st)
    have "fs_kernel files w1"
    proof (rule fs_kernelI)
      show "\<exists>s c. states w1 x = Some s \<and> open_fds w1 fd = Some (g_path s) \<and> files (g_path s) = Some c" if "owns w1 x fd" for x fd
        using fs_kernelD(1) [OF k, of x fd] that assms(3) by (auto simp: ow same st)
    qed (use fs_kernelD(2) [OF k] in \<open>simp add: ow\<close>)
    moreover have "fresh w1 = fresh w + 1" by (simp add: w1_def)
    then have "fs_fresh w1" using f fs_freshD(1) [OF f assms(3)] by (auto simp: fs_fresh_def same st bf)
    moreover have "idle w1 a" using assms(2) by (simp add: idle_def same)
    ultimately show ?thesis using r by (auto simp: fs_inv_def st bf)
  qed
qed

lemma read_ok:
  assumes "fs_inv files w" "\<forall>a. fd_state w fd = Some a \<longrightarrow> idle w a" "0 \<le> len" "len < 2 ^ 31"
  shows "\<exists>w'. read_file_async w fd len cb = Inr w' \<and> fs_inv files w'"
proof (cases "fd_state w fd")
  case (Some a)
  then obtain s where s: "states w a = Some s" "fs_fd s = fd" "0 \<le> fd" "idle w a"
    using fs_typeD(1) [OF fs_invD(1) [OF assms(1)]] assms(2) by blast
  obtain b w1 s1 xs where w1: "read_buffer w a s len = Inr (b, w1)" "fs_inv files w1" "idle w1 a" "states w1 a = Some s1"
    "fs_fd s1 = fs_fd s" "g_path s1 = g_path s" "fs_buf s1 = Some b" "bufs w1 b = Some xs" "length xs = nat len"
    using read_buffer_ok [OF assms(1) s(4,1) assms(3,4)] by blast
  let ?q = "\<lparr>fkind = ReadReq fd b (nat len), fstate = a, fs_op_cb = cb, fresult = None\<rparr>"
  obtain c where "files (g_path s1) = Some c" using idle_owns(3) [OF assms(1) s(4,1)] s(2,3) w1(6) by auto
  then have "req_fits files (bufs w1) ?q s1" using w1 s(2,3) by (simp add: req_fits_def)
  from add_request [OF w1(2) _ _ this] show ?thesis using w1(1,3,4) Some s(1) by (simp add: read_file_async_def get_state_def)
qed (use assms(1) in \<open>simp add: read_file_async_def\<close>)

lemma close_ok:
  assumes "fs_inv files w" "\<forall>a. fd_state w fd = Some a \<longrightarrow> idle w a"
  shows "\<exists>w'. close_file_async w fd = Inr w' \<and> fs_inv files w'"
proof (cases "fd_state w fd")
  case (Some a)
  then obtain s where s: "states w a = Some s" "fs_fd s = fd" "0 \<le> fd" "idle w a"
    using fs_typeD(1) [OF fs_invD(1) [OF assms(1)]] assms(2) by blast
  let ?q = "\<lparr>fkind = CloseReq fd, fstate = a, fs_op_cb = 0, fresult = None\<rparr>"
  have "req_fits files (bufs w) ?q s" using s by (simp add: req_fits_def)
  from add_request [OF assms(1) _ _ this] show ?thesis using Some s by (simp add: close_file_async_def)
qed (use assms(1) in \<open>simp add: close_file_async_def\<close>)

section \<open>Execution\<close>

lemma executed_request:
  assumes "reqs w r = Some q" "fresult q = None" "reqs w' = (reqs w)(r \<mapsto> q\<lparr>fresult := Some k\<rparr>)"
  shows "closed_by w' a \<longleftrightarrow> closed_by w a \<or> (a = fstate q \<and> (\<exists>fd. fkind q = CloseReq fd))"
    "opened_by w' a fd \<longleftrightarrow> opened_by w a fd \<or> (a = fstate q \<and> (\<exists>p. fkind q = OpenReq p) \<and> fd = k)"
proof -
  have new: "reqs w' r = Some (q\<lparr>fresult := Some k\<rparr>)" by (simp add: assms(3))
  have old: "reqs w' x = Some y" if "reqs w x = Some y" "fresult y = Some j" for x y j using that assms by auto
  have origin: "reqs w x = Some y \<or> y = q\<lparr>fresult := Some k\<rparr>" if "reqs w' x = Some y" for x y
    using that by (auto simp: assms(3) split: if_splits)
  show "closed_by w' a \<longleftrightarrow> closed_by w a \<or> (a = fstate q \<and> (\<exists>fd. fkind q = CloseReq fd))"
  proof
    assume "closed_by w' a"
    then obtain x y fd j where y: "reqs w' x = Some y" "fstate y = a" "fkind y = CloseReq fd" "fresult y = Some j"
      by (auto simp: closed_by_def)
    then show "closed_by w a \<or> (a = fstate q \<and> (\<exists>fd. fkind q = CloseReq fd))" using origin [OF y(1)] by (auto simp: closed_by_def)
  next
    assume "closed_by w a \<or> (a = fstate q \<and> (\<exists>fd. fkind q = CloseReq fd))"
    then show "closed_by w' a"
    proof
      assume "closed_by w a"
      then show ?thesis unfolding closed_by_def using old by blast
    next
      assume "a = fstate q \<and> (\<exists>fd. fkind q = CloseReq fd)"
      then show ?thesis unfolding closed_by_def using new by fastforce
    qed
  qed
  show "opened_by w' a fd \<longleftrightarrow> opened_by w a fd \<or> (a = fstate q \<and> (\<exists>p. fkind q = OpenReq p) \<and> fd = k)"
  proof
    assume "opened_by w' a fd"
    then obtain x y p where y: "reqs w' x = Some y" "fstate y = a" "fkind y = OpenReq p" "fresult y = Some fd"
      by (auto simp: opened_by_def)
    then show "opened_by w a fd \<or> (a = fstate q \<and> (\<exists>p. fkind q = OpenReq p) \<and> fd = k)" using origin [OF y(1)] by (auto simp: opened_by_def)
  next
    assume "opened_by w a fd \<or> (a = fstate q \<and> (\<exists>p. fkind q = OpenReq p) \<and> fd = k)"
    then show "opened_by w' a fd"
    proof
      assume "opened_by w a fd"
      then show ?thesis unfolding opened_by_def using old by blast
    next
      assume "a = fstate q \<and> (\<exists>p. fkind q = OpenReq p) \<and> fd = k"
      then show ?thesis unfolding opened_by_def using new by fastforce
    qed
  qed
qed

text \<open>The kind of the pending request of a state says whether the state is being opened or closed.\<close>

lemma pending_kind:
  assumes "fs_type files w" "reqs w r = Some q"
  shows "closed_by w (fstate q) \<Longrightarrow> \<exists>fd k. fkind q = CloseReq fd \<and> fresult q = Some k"
    "opened_by w (fstate q) fd \<Longrightarrow> (\<exists>p. fkind q = OpenReq p) \<and> fresult q = Some fd"
proof -
  have u: "q' = q" if "reqs w r' = Some q'" "fstate q' = fstate q" for r' q'
    using fs_typeD(3) [OF assms(1) that(1) assms(2) that(2)] that(1) assms(2) by simp
  show "closed_by w (fstate q) \<Longrightarrow> \<exists>fd k. fkind q = CloseReq fd \<and> fresult q = Some k" unfolding closed_by_def using u by blast
  show "opened_by w (fstate q) fd \<Longrightarrow> (\<exists>p. fkind q = OpenReq p) \<and> fresult q = Some fd" unfolding opened_by_def using u by blast
qed

text \<open>The type invariant after the result of a request has been stored and its buffer was written.\<close>

lemma exec_type:
  assumes "fs_type files w" "reqs w r = Some q" "states w (fstate q) = Some s"
    and "reqs w' = (reqs w)(r \<mapsto> q\<lparr>fresult := Some k\<rparr>)" "fd_state w' = fd_state w" "states w' = states w"
    and "bufs w' = bufs w \<or> (\<exists>b xs ys. fs_buf s = Some b \<and> bufs w b = Some xs \<and> bufs w' = (bufs w)(b \<mapsto> ys) \<and> length ys = length xs)"
    and "req_fits files (bufs w') (q\<lparr>fresult := Some k\<rparr>) s"
  shows "fs_type files w'"
proof (rule fs_typeI)
  show "0 \<le> fd \<and> (\<exists>s. states w' x = Some s \<and> fs_fd s = fd)" if "fd_state w' fd = Some x" for fd x
    using fs_typeD(1) [OF assms(1)] that by (simp add: assms(5,6))
  show "req_ok files w' y" if y: "reqs w' x = Some y" for x y
  proof (cases "x = r")
    case True
    then show ?thesis using y assms(3,4,6,8) by (auto simp: req_ok_def)
  next
    case False
    then have x: "reqs w x = Some y" using y assms(4) by simp
    then have ne: "fstate y \<noteq> fstate q" using fs_typeD(3) [OF assms(1) x assms(2)] False by blast
    show ?thesis
    proof (rule req_ok_cong [OF fs_typeD(2) [OF assms(1) x]])
      show "bufs w' b = bufs w b" if "states w (fstate y) = Some u" "fs_buf u = Some b" for u b
        using assms(7) fs_typeD(5) [OF assms(1) that(1) assms(3) that(2)] ne by auto
    qed (simp add: assms(6))
  qed
  show "x = x'" if "reqs w' x = Some y" "reqs w' x' = Some y'" "fstate y = fstate y'" for x x' y y'
    using that fs_typeD(3) [OF assms(1), of x y x' y'] fs_typeD(3) [OF assms(1) assms(2), of x' y'] fs_typeD(3) [OF assms(1) _ assms(2), of x y]
    by (auto simp: assms(4) split: if_splits)
  show "\<exists>xs. bufs w' b = Some xs \<and> length xs = unat (fs_buf_len u)" if "states w' x = Some u" "fs_buf u = Some b" for x u b
    using assms(7) fs_typeD(4) [OF assms(1), of x u b] that by (auto simp: assms(6))
qed (use fs_typeD(5) [OF assms(1)] in \<open>simp add: assms(6)\<close>)

lemma exec_open:
  assumes "fs_inv files w" "reqs w r = Some q" "fresult q = None" "fkind q = OpenReq p" "open_outcome files w p fd"
  shows "\<exists>w'. fs_exec files w r q fd = Inr w' \<and> fs_inv files w'"
proof -
  note t = fs_invD(1) [OF assms(1)] and k = fs_invD(2) [OF assms(1)] and f = fs_invD(3) [OF assms(1)]
  define w' where "w' = w\<lparr>reqs := (reqs w)(r \<mapsto> q\<lparr>fresult := Some fd\<rparr>),
    open_fds := (if fd < 0 then open_fds w else (open_fds w)(fd \<mapsto> p))\<rparr>"
  have same: "fd_state w' = fd_state w" "states w' = states w" "bufs w' = bufs w" "reqs w' = (reqs w)(r \<mapsto> q\<lparr>fresult := Some fd\<rparr>)"
    by (simp_all add: w'_def)
  obtain s where s: "states w (fstate q) = Some s" "req_fits files (bufs w) q s"
    using fs_typeD(2) [OF t assms(2)] by (auto simp: req_ok_def)
  have "fs_type files w'"
    by (rule exec_type [OF t assms(2) s(1) same(4,1,2)]) (use s(2) assms(4) in \<open>simp_all add: same req_fits_def\<close>)
  moreover have ow: "owns w' x y \<longleftrightarrow> owns w x y \<or> (x = fstate q \<and> y = fd \<and> 0 \<le> fd)" for x y
    using executed_request [OF assms(2,3) same(4)] assms(4) by (auto simp: owns_def same)
  have "fs_kernel files w'"
  proof (cases "0 \<le> fd")
    case True
    then have o: "open_fds w fd = None" "files p \<noteq> None" "open_fds w' = (open_fds w)(fd \<mapsto> p)"
      using assms(5) by (auto simp: open_outcome_def w'_def split: if_splits)
    have no: "\<not> owns w x fd" for x using fs_kernelD(1) [OF k, of x fd] o(1) by auto
    show ?thesis
    proof (rule fs_kernelI)
      show "\<exists>s c. states w' x = Some s \<and> open_fds w' y = Some (g_path s) \<and> files (g_path s) = Some c" if "owns w' x y" for x y
      proof (cases "owns w x y")
        case True
        then show ?thesis using fs_kernelD(1) [OF k True] no o(3) by (auto simp: same)
      next
        case False
        then have "x = fstate q" "y = fd" using that by (simp_all add: ow)
        then show ?thesis using s assms(4) o by (auto simp: same req_fits_def)
      qed
      show "x = x'" if "owns w' x y" "owns w' x' y" for x x' y
        using that fs_kernelD(2) [OF k, of x y x'] no by (auto simp: ow)
    qed
  next
    case False
    then have "open_fds w' = open_fds w" by (simp add: w'_def)
    then show ?thesis using k False by (simp add: fs_kernel_def ow same)
  qed
  moreover have "fs_fresh w'" using f fs_freshD(3) [OF f assms(2)] by (auto simp: fs_fresh_def w'_def)
  moreover have "fs_exec files w r q fd = Inr w'" using assms(4) by (simp add: fs_exec_def w'_def)
  ultimately show ?thesis by (auto simp: fs_inv_def)
qed

lemma pending_owns:
  assumes "fs_inv files w" "reqs w r = Some q" "fresult q = None" "states w (fstate q) = Some s" "0 \<le> fs_fd s"
  shows "owns w (fstate q) (fs_fd s)"
  using pending_kind(1) [OF fs_invD(1) [OF assms(1)] assms(2)] assms(3-5) by (auto simp: owns_def)

lemma exec_read:
  assumes "fs_inv files w" "reqs w r = Some q" "fresult q = None" "fkind q = ReadReq fd b n"
  shows "\<exists>w'. fs_exec files w r q x = Inr w' \<and> fs_inv files w'"
proof -
  note t = fs_invD(1) [OF assms(1)] and k = fs_invD(2) [OF assms(1)] and f = fs_invD(3) [OF assms(1)]
  obtain s where s: "states w (fstate q) = Some s" "req_fits files (bufs w) q s"
    using fs_typeD(2) [OF t assms(2)] by (auto simp: req_ok_def)
  then obtain xs c where fits: "fs_fd s = fd" "0 \<le> fd" "fs_buf s = Some b" "bufs w b = Some xs" "length xs = n" "files (g_path s) = Some c"
    using assms(4) by (auto simp: req_fits_def)
  have o: "open_fds w fd = Some (g_path s)"
    using fs_kernelD(1) [OF k pending_owns [OF assms(1-3) s(1)]] s(1) fits(1,2) by auto
  let ?bytes = "take n c"
  define w' where "w' = w\<lparr>reqs := (reqs w)(r \<mapsto> q\<lparr>fresult := Some (int (length ?bytes))\<rparr>),
    bufs := (bufs w)(b \<mapsto> ?bytes @ drop (length ?bytes) xs)\<rparr>"
  have same: "fd_state w' = fd_state w" "states w' = states w" "open_fds w' = open_fds w"
    "reqs w' = (reqs w)(r \<mapsto> q\<lparr>fresult := Some (int (length ?bytes))\<rparr>)" by (simp_all add: w'_def)
  have "fs_type files w'"
    by (rule exec_type [OF t assms(2) s(1) same(4,1,2)]) (use fits assms(4) in \<open>auto simp: w'_def req_fits_def min_def\<close>)
  moreover have "owns w' x y = owns w x y" for x y
    using executed_request [OF assms(2,3) same(4)] assms(4) by (simp add: owns_def same)
  then have "fs_kernel files w'" using k by (simp add: fs_kernel_def same)
  moreover have "fs_fresh w'" using f fs_freshD(2) [OF f fits(4)] fs_freshD(3) [OF f assms(2)] by (auto simp: fs_fresh_def w'_def)
  moreover have "fs_exec files w r q x = Inr w'" using assms(4) o fits(4-6) by (simp add: fs_exec_def w'_def Let_def)
  ultimately show ?thesis by (auto simp: fs_inv_def)
qed

lemma exec_close:
  assumes "fs_inv files w" "reqs w r = Some q" "fresult q = None" "fkind q = CloseReq fd"
  shows "\<exists>w'. fs_exec files w r q x = Inr w' \<and> fs_inv files w'"
proof -
  note t = fs_invD(1) [OF assms(1)] and k = fs_invD(2) [OF assms(1)] and f = fs_invD(3) [OF assms(1)]
  obtain s where s: "states w (fstate q) = Some s" "req_fits files (bufs w) q s"
    using fs_typeD(2) [OF t assms(2)] by (auto simp: req_ok_def)
  then have fits: "fs_fd s = fd" "0 \<le> fd" using assms(4) by (auto simp: req_fits_def)
  have own: "owns w (fstate q) fd" using pending_owns [OF assms(1-3) s(1)] fits by simp
  let ?k = "if open_fds w fd = None then EBADF else 0"
  define w' where "w' = w\<lparr>reqs := (reqs w)(r \<mapsto> q\<lparr>fresult := Some ?k\<rparr>), open_fds := (open_fds w)(fd := None)\<rparr>"
  have same: "fd_state w' = fd_state w" "states w' = states w" "bufs w' = bufs w"
    "reqs w' = (reqs w)(r \<mapsto> q\<lparr>fresult := Some ?k\<rparr>)" by (simp_all add: w'_def)
  have "fs_type files w'"
    by (rule exec_type [OF t assms(2) s(1) same(4,1,2)]) (use s(2) assms(4) in \<open>simp_all add: same req_fits_def\<close>)
  moreover have ow: "owns w x y \<and> x \<noteq> fstate q" if "owns w' x y" for x y
    using that executed_request [OF assms(2,3) same(4)] pending_kind(2) [OF t assms(2), of y] assms(4) by (auto simp: owns_def same)
  have "fs_kernel files w'"
  proof (rule fs_kernelI)
    show "\<exists>s c. states w' x = Some s \<and> open_fds w' y = Some (g_path s) \<and> files (g_path s) = Some c" if "owns w' x y" for x y
      using fs_kernelD(1) [OF k, of x y] fs_kernelD(2) [OF k own, of x] ow [OF that] by (auto simp: same w'_def)
  qed (use ow fs_kernelD(2) [OF k] in blast)
  moreover have "fs_fresh w'" using f fs_freshD(3) [OF f assms(2)] by (auto simp: fs_fresh_def w'_def)
  moreover have "fs_exec files w r q x = Inr w'" using assms(4) by (simp add: fs_exec_def w'_def)
  ultimately show ?thesis by (auto simp: fs_inv_def)
qed

lemma exec_ok:
  assumes "fs_inv files w" "reqs w r = Some q" "fresult q = None" "\<forall>p. fkind q = OpenReq p \<longrightarrow> open_outcome files w p fd"
  shows "\<exists>w'. fs_exec files w r q fd = Inr w' \<and> fs_inv files w'"
  using exec_open [OF assms(1-3)] exec_read [OF assms(1-3)] exec_close [OF assms(1-3)] assms(4) by (cases "fkind q") auto

section \<open>Completion\<close>

lemma finished_request:
  assumes "fs_type files w" "reqs w r = Some q" "reqs w' = (reqs w)(r := None)"
  shows "closed_by w' a \<longleftrightarrow> closed_by w a \<and> a \<noteq> fstate q" "opened_by w' a fd \<longleftrightarrow> opened_by w a fd \<and> a \<noteq> fstate q"
    "reqs w' x = Some y \<Longrightarrow> fstate y \<noteq> fstate q"
proof -
  have gone: "fstate y \<noteq> fstate q" if "reqs w' x = Some y" for x y
    using fs_typeD(3) [OF assms(1) _ assms(2), of x y] that assms(3) by (auto split: if_splits)
  then show "reqs w' x = Some y \<Longrightarrow> fstate y \<noteq> fstate q" by simp
  have iff: "reqs w' x = Some y \<longleftrightarrow> reqs w x = Some y \<and> fstate y \<noteq> fstate q" for x y
    using gone [of x y] assms(2,3) by auto
  show "closed_by w' a \<longleftrightarrow> closed_by w a \<and> a \<noteq> fstate q" unfolding closed_by_def iff by blast
  show "opened_by w' a fd \<longleftrightarrow> opened_by w a fd \<and> a \<noteq> fstate q" unfolding opened_by_def iff by blast
qed

lemma finish_open:
  assumes "fs_inv files w" "reqs w r = Some q" "fresult q = Some k" "fkind q = OpenReq p"
  shows "\<exists>w'. fs_finish w r q k = Inr w' \<and> fs_inv files w' \<and>
    fs_calls w' = fs_calls w @ [(fs_op_cb q, if k < 0 then FsErr k else FsFd k)] \<and>
    (0 \<le> k \<longrightarrow> fd_state w' k = Some (fstate q) \<and> open_fds w' k = Some p)"
proof -
  note t = fs_invD(1) [OF assms(1)] and kn = fs_invD(2) [OF assms(1)] and f = fs_invD(3) [OF assms(1)]
  obtain s where s: "states w (fstate q) = Some s" "fs_fd s = -1" "fs_buf s = None" "g_path s = p"
    using fs_typeD(2) [OF t assms(2)] assms(4) by (auto simp: req_ok_def req_fits_def)
  define w' where "w' = w\<lparr>states := (if k < 0 then states w else (states w)(fstate q \<mapsto> s\<lparr>fs_fd := k\<rparr>)),
    fd_state := (if k < 0 then fd_state w else (fd_state w)(k \<mapsto> fstate q)),
    fs_calls := fs_calls w @ [(fs_op_cb q, if k < 0 then FsErr k else FsFd k)], reqs := (reqs w)(r := None)\<rparr>"
  have rq: "reqs w' = (reqs w)(r := None)" and same: "bufs w' = bufs w" "open_fds w' = open_fds w" by (simp_all add: w'_def)
  have st: "states w' x = (if x = fstate q then Some (if k < 0 then s else s\<lparr>fs_fd := k\<rparr>) else states w x)" for x
    using s(1) by (simp add: w'_def)
  have fds: "fd_state w' x = (if 0 \<le> k \<and> x = k then Some (fstate q) else fd_state w x)" for x by (simp add: w'_def)
  note fin = finished_request [OF t assms(2) rq]
  have notq: "x \<noteq> fstate q" if "fd_state w fd = Some x" for fd x using fs_typeD(1) [OF t that] s(1,2) by auto
  have "fs_type files w'"
  proof (rule fs_typeI)
    show "0 \<le> fd \<and> (\<exists>s. states w' x = Some s \<and> fs_fd s = fd)" if "fd_state w' fd = Some x" for fd x
      using that fs_typeD(1) [OF t, of fd x] notq [of fd x] by (auto simp: fds st split: if_splits)
    show "req_ok files w' y" if y: "reqs w' x = Some y" for x y
      using req_ok_cong [OF fs_typeD(2) [OF t, of x y], of w'] fin(3) [OF y] y by (auto simp: st same rq split: if_splits)
    show "x = x'" if "reqs w' x = Some y" "reqs w' x' = Some y'" "fstate y = fstate y'" for x x' y y'
      using that fs_typeD(3) [OF t, of x y x' y'] by (auto simp: rq split: if_splits)
    show "\<exists>xs. bufs w' b = Some xs \<and> length xs = unat (fs_buf_len u)" if "states w' x = Some u" "fs_buf u = Some b" for x u b
      using that fs_typeD(4) [OF t, of x u b] s(3) by (auto simp: st same split: if_splits)
    show "x = x'" if "states w' x = Some u" "states w' x' = Some u'" "fs_buf u = Some b" "fs_buf u' = Some b" for x x' u u' b
      using that fs_typeD(5) [OF t, of x u x' u' b] s(3) by (auto simp: st split: if_splits)
  qed
  moreover have ow: "owns w x y" if "owns w' x y" for x y
  proof (cases "x = fstate q")
    case True
    then have "y = k" "0 \<le> k" using that s(2) fin(2) by (auto simp: owns_def st split: if_splits)
    then show ?thesis using True assms(2-4) by (auto simp: owns_def opened_by_def)
  next
    case False
    then show ?thesis using that fin(1,2) by (auto simp: owns_def st)
  qed
  have "fs_kernel files w'"
  proof (rule fs_kernelI)
    show "\<exists>s c. states w' x = Some s \<and> open_fds w' y = Some (g_path s) \<and> files (g_path s) = Some c" if "owns w' x y" for x y
      using fs_kernelD(1) [OF kn ow [OF that]] s(1) by (auto simp: same st)
  qed (use ow fs_kernelD(2) [OF kn] in blast)
  moreover have "fresh w' = fresh w" by (simp add: w'_def)
  then have "fs_fresh w'" using f fs_freshD(1) [OF f s(1)] by (auto simp: fs_fresh_def st same rq)
  moreover have "fs_finish w r q k = Inr w'"
    using assms(4) s(1) by (simp add: fs_finish_def open_file_async_cb_def get_state_def w'_def)
  moreover have "open_fds w' k = Some p" if "0 \<le> k"
  proof -
    have "owns w (fstate q) k" using that assms(2-4) by (auto simp: owns_def opened_by_def)
    then show ?thesis using fs_kernelD(1) [OF kn] s(1,4) same by fastforce
  qed
  ultimately show ?thesis by (auto simp: fs_inv_def fds w'_def)
qed

lemma finish_read:
  assumes "fs_inv files w" "reqs w r = Some q" "fresult q = Some k" "fkind q = ReadReq fd b n"
  shows "\<exists>w' s c. fs_finish w r q k = Inr w' \<and> fs_inv files w' \<and> states w (fstate q) = Some s \<and> fs_fd s = fd \<and>
    files (g_path s) = Some c \<and> fs_calls w' = fs_calls w @ [(fs_op_cb q, FsData (take n c))]"
proof -
  note t = fs_invD(1) [OF assms(1)] and kn = fs_invD(2) [OF assms(1)] and f = fs_invD(3) [OF assms(1)]
  obtain s xs c where s: "states w (fstate q) = Some s" "fs_fd s = fd" "0 \<le> fd" "fs_buf s = Some b" "bufs w b = Some xs" "length xs = n"
    "files (g_path s) = Some c" "k = int (length (take n c))" "take (nat k) xs = take n c"
    using fs_typeD(2) [OF t assms(2)] assms(3,4) by (auto simp: req_ok_def req_fits_def)
  define w' where "w' = w\<lparr>fs_calls := fs_calls w @ [(fs_op_cb q, FsData (take n c))], reqs := (reqs w)(r := None)\<rparr>"
  have rq: "reqs w' = (reqs w)(r := None)" and same: "bufs w' = bufs w" "open_fds w' = open_fds w" "states w' = states w" "fd_state w' = fd_state w"
    by (simp_all add: w'_def)
  note fin = finished_request [OF t assms(2) rq]
  have "fs_type files w'"
  proof (rule fs_typeI)
    show "req_ok files w' y" if y: "reqs w' x = Some y" for x y
      using fs_typeD(2) [OF t, of x y] y by (auto simp: req_ok_def same rq split: if_splits)
    show "x = x'" if "reqs w' x = Some y" "reqs w' x' = Some y'" "fstate y = fstate y'" for x x' y y'
      using that fs_typeD(3) [OF t, of x y x' y'] by (auto simp: rq split: if_splits)
  qed (use fs_typeD(1,4,5) [OF t] in \<open>simp_all add: same\<close>)
  moreover have ow: "owns w' x y = owns w x y" for x y
    using fin(1,2) pending_kind [OF t assms(2)] assms(4) by (auto simp: owns_def same)
  have "fs_kernel files w'" using kn by (simp add: fs_kernel_def ow same)
  moreover have "fs_fresh w'" using f by (auto simp: fs_fresh_def w'_def)
  moreover have "fs_finish w r q k = Inr w'"
    using assms(4) s by (simp add: fs_finish_def read_file_async_cb_def get_state_def w'_def)
  ultimately show ?thesis using s by (auto simp: fs_inv_def w'_def)
qed

lemma finish_close:
  assumes "fs_inv files w" "reqs w r = Some q" "fresult q = Some k" "fkind q = CloseReq fd"
  shows "\<exists>w'. fs_finish w r q k = Inr w' \<and> fs_inv files w'"
proof -
  note t = fs_invD(1) [OF assms(1)] and kn = fs_invD(2) [OF assms(1)] and f = fs_invD(3) [OF assms(1)]
  obtain s where s: "states w (fstate q) = Some s" "fs_fd s = fd" "0 \<le> fd"
    using fs_typeD(2) [OF t assms(2)] assms(4) by (auto simp: req_ok_def req_fits_def)
  define w' where "w' = w\<lparr>fd_state := (fd_state w)(fs_fd s := None), reqs := (reqs w)(r := None), states := (states w)(fstate q := None),
    bufs := (case fs_buf s of None \<Rightarrow> bufs w | Some b \<Rightarrow> (bufs w)(b := None))\<rparr>"
  have rq: "reqs w' = (reqs w)(r := None)" and same: "open_fds w' = open_fds w" by (simp_all add: w'_def)
  have st: "states w' x = (if x = fstate q then None else states w x)" for x by (simp add: w'_def)
  have fds: "fd_state w' x = (if x = fd then None else fd_state w x)" for x using s(2) by (simp add: w'_def)
  have bf: "bufs w' x = (if fs_buf s = Some x then None else bufs w x)" for x by (auto simp: w'_def split: option.splits)
  note fin = finished_request [OF t assms(2) rq]
  have keep: "bufs w' b = bufs w b" if "states w x = Some u" "fs_buf u = Some b" "x \<noteq> fstate q" for x u b
    using fs_typeD(5) [OF t that(1) s(1) that(2)] that(3) by (auto simp: bf)
  have "fs_type files w'"
  proof (rule fs_typeI)
    show "0 \<le> y \<and> (\<exists>s. states w' x = Some s \<and> fs_fd s = y)" if "fd_state w' y = Some x" for y x
      using that fs_typeD(1) [OF t, of y x] s(1,2) by (auto simp: fds st split: if_splits)
    show "req_ok files w' y" if y: "reqs w' x = Some y" for x y
      using req_ok_cong [OF fs_typeD(2) [OF t, of x y], of w'] fin(3) [OF y] y keep by (auto simp: st rq split: if_splits)
    show "x = x'" if "reqs w' x = Some y" "reqs w' x' = Some y'" "fstate y = fstate y'" for x x' y y'
      using that fs_typeD(3) [OF t, of x y x' y'] by (auto simp: rq split: if_splits)
    show "\<exists>xs. bufs w' b = Some xs \<and> length xs = unat (fs_buf_len u)" if "states w' x = Some u" "fs_buf u = Some b" for x u b
      using that fs_typeD(4) [OF t, of x u b] keep [of x u b] by (auto simp: st split: if_splits)
    show "x = x'" if "states w' x = Some u" "states w' x' = Some u'" "fs_buf u = Some b" "fs_buf u' = Some b" for x x' u u' b
      using that fs_typeD(5) [OF t, of x u x' u' b] by (auto simp: st split: if_splits)
  qed
  moreover have ow: "owns w x y \<and> x \<noteq> fstate q" if "owns w' x y" for x y
    using that fin(1,2) by (auto simp: owns_def st split: if_splits)
  have "fs_kernel files w'"
  proof (rule fs_kernelI)
    show "\<exists>s c. states w' x = Some s \<and> open_fds w' y = Some (g_path s) \<and> files (g_path s) = Some c" if "owns w' x y" for x y
      using fs_kernelD(1) [OF kn, of x y] ow [OF that] by (auto simp: same st)
  qed (use ow fs_kernelD(2) [OF kn] in blast)
  moreover have "fresh w' = fresh w" by (simp add: w'_def)
  then have "fs_fresh w'" using f by (auto simp: fs_fresh_def st bf rq)
  moreover have "fs_finish w r q k = Inr w'"
    using assms(4) s(1) by (simp add: fs_finish_def close_file_async_cb_def get_state_def w'_def)
  ultimately show ?thesis by (auto simp: fs_inv_def)
qed

lemma finish_ok:
  assumes "fs_inv files w" "reqs w r = Some q" "fresult q = Some k"
  shows "\<exists>w'. fs_finish w r q k = Inr w' \<and> fs_inv files w'"
  using finish_open [OF assms] finish_read [OF assms] finish_close [OF assms] by (cases "fkind q") blast+

lemma fs_step_inv: "fs_step files w w' \<Longrightarrow> fs_inv files w \<Longrightarrow> fs_inv files w'"
proof (induction rule: fs_step.induct)
  case (s_open w p cb w')
  then show ?case using open_ok [of files w p cb] by auto
next
  case (s_read w fd len cb w')
  then show ?case using read_ok [of files w fd len cb] by auto
next
  case (s_close w fd w')
  then show ?case using close_ok [of files w fd] by auto
next
  case (s_exec w r q fd w')
  then show ?case using exec_ok [of files w r q fd] by auto
next
  case (s_finish w r q k w')
  then show ?case using finish_ok [of files w r q k] by auto
qed

lemma fs_reachable_inv: "fs_reachable files w \<Longrightarrow> fs_inv files w"
proof (induction rule: fs_reachable.induct)
  case fs_start
  show ?case
    by (auto simp: fs_inv_def fs_type_def fs_kernel_def fs_fresh_def FileSystem_new_def owns_def opened_by_def)
next
  case (fs_next w w')
  then show ?case using fs_step_inv by blast
qed

section \<open>Properties\<close>



text \<open>Runs, for examples: each step applied to a reachable state.\<close>

lemma run_open: "fs_reachable files w \<Longrightarrow> open_file_async w (Some p) cb = Inr w' \<Longrightarrow> fs_reachable files w'"
  using fs_reachable.fs_next fs_step.s_open by blast

lemma run_read:
  "fs_reachable files w \<Longrightarrow> read_file_async w fd len cb = Inr w' \<Longrightarrow> fd_state w fd = Some a \<Longrightarrow> idle w a \<Longrightarrow> 0 \<le> len \<Longrightarrow> len < 2 ^ 31 \<Longrightarrow>
   fs_reachable files w'"
  using fs_reachable.fs_next fs_step.s_read by (metis option.inject)

lemma run_close:
  "fs_reachable files w \<Longrightarrow> close_file_async w fd = Inr w' \<Longrightarrow> fd_state w fd = Some a \<Longrightarrow> idle w a \<Longrightarrow> fs_reachable files w'"
  using fs_reachable.fs_next fs_step.s_close by (metis option.inject)

lemma run_exec:
  "fs_reachable files w \<Longrightarrow> reqs w r = Some q \<Longrightarrow> fs_exec files w r q fd = Inr w' \<Longrightarrow> fresult q = None \<Longrightarrow>
   \<forall>p. fkind q = OpenReq p \<longrightarrow> open_outcome files w p fd \<Longrightarrow> fs_reachable files w'"
  using fs_reachable.fs_next fs_step.s_exec by blast

lemma run_finish:
  "fs_reachable files w \<Longrightarrow> reqs w r = Some q \<Longrightarrow> fs_finish w r q k = Inr w' \<Longrightarrow> fresult q = Some k \<Longrightarrow> fs_reachable files w'"
  using fs_reachable.fs_next fs_step.s_finish by blast

definition sample_files :: fs_files where
  "sample_files p = Some [65, 66, 67]"

text \<open>A file is open under descriptor 3.\<close>

definition sample_opened :: fs_sys where
  "sample_opened = \<lparr>fd_state = [3 \<mapsto> 0], states = [0 \<mapsto> \<lparr>fs_fd = 3, fs_buf = None, fs_buf_len = 0, g_path = ''a''\<rparr>], bufs = Map.empty,
     reqs = Map.empty, fresh = 2, open_fds = [3 \<mapsto> ''a''], fs_calls = [(7, FsFd 3)]\<rparr>"

lemmas fs_defs = open_file_async_def read_file_async_def close_file_async_def read_buffer_def fs_exec_def fs_finish_def
  open_file_async_cb_def read_file_async_cb_def close_file_async_cb_def get_state_def

lemma sample_opened_reachable: "fs_reachable sample_files sample_opened"
proof -
  let ?q = "\<lparr>fkind = OpenReq ''a'', fstate = 0, fs_op_cb = 7, fresult = None\<rparr>"
  let ?s = "\<lparr>fs_fd = -1, fs_buf = None, fs_buf_len = 0, g_path = ''a''\<rparr>"
  let ?w1 = "FileSystem_new\<lparr>states := [0 \<mapsto> ?s], reqs := [1 \<mapsto> ?q], fresh := 2\<rparr>"
  let ?w2 = "?w1\<lparr>reqs := [1 \<mapsto> ?q\<lparr>fresult := Some 3\<rparr>], open_fds := [3 \<mapsto> ''a'']\<rparr>"
  have "fs_reachable sample_files ?w1"
    by (rule run_open [OF fs_reachable.fs_start, of "''a''" 7]) (simp add: fs_defs FileSystem_new_def)
  then have "fs_reachable sample_files ?w2"
    by (rule run_exec [where r = 1 and q = ?q and fd = 3]) (simp_all add: fs_defs FileSystem_new_def open_outcome_def sample_files_def)
  then show ?thesis
    by (rule run_finish [where r = 1 and k = 3 and q = "?q\<lparr>fresult := Some 3\<rparr>"]) (simp_all add: fs_defs FileSystem_new_def sample_opened_def)
qed

text \<open>
  A descriptor can be closed by the kernel and given out again before the callback of the close
  has run. When the callback of the new open runs first, the callback of the close then removes
  the entry of the new file: the program was given descriptor 3, and 3 is unknown.
\<close>

lemma descriptor_reuse_race:
  "\<exists>w. fs_reachable sample_files w \<and> fs_calls w = [(7, FsFd 3), (8, FsFd 3)] \<and> open_fds w 3 = Some ''b'' \<and> fd_state w 3 = None \<and>
     (\<forall>r. reqs w r = None)"
proof -
  let ?c = "\<lparr>fkind = CloseReq 3, fstate = 0, fs_op_cb = 0, fresult = None\<rparr>"
  let ?o = "\<lparr>fkind = OpenReq ''b'', fstate = 3, fs_op_cb = 8, fresult = None\<rparr>"
  let ?s = "\<lparr>fs_fd = -1, fs_buf = None, fs_buf_len = 0, g_path = ''b''\<rparr>"
  let ?w1 = "sample_opened\<lparr>reqs := [2 \<mapsto> ?c], fresh := 3\<rparr>"
  let ?w2 = "?w1\<lparr>reqs := [2 \<mapsto> ?c\<lparr>fresult := Some 0\<rparr>], open_fds := Map.empty\<rparr>"
  let ?w3 = "?w2\<lparr>states := (states sample_opened)(3 \<mapsto> ?s), reqs := [2 \<mapsto> ?c\<lparr>fresult := Some 0\<rparr>, 4 \<mapsto> ?o], fresh := 5\<rparr>"
  let ?w4 = "?w3\<lparr>reqs := [2 \<mapsto> ?c\<lparr>fresult := Some 0\<rparr>, 4 \<mapsto> ?o\<lparr>fresult := Some 3\<rparr>], open_fds := [3 \<mapsto> ''b'']\<rparr>"
  let ?w5 = "?w4\<lparr>states := (states sample_opened)(3 \<mapsto> ?s\<lparr>fs_fd := 3\<rparr>), fd_state := [3 \<mapsto> 3],
    fs_calls := [(7, FsFd 3), (8, FsFd 3)], reqs := [2 \<mapsto> ?c\<lparr>fresult := Some 0\<rparr>]\<rparr>"
  let ?w6 = "?w5\<lparr>fd_state := Map.empty, reqs := Map.empty, states := [3 \<mapsto> ?s\<lparr>fs_fd := 3\<rparr>]\<rparr>"
  have "fs_reachable sample_files ?w1"
    by (rule run_close [OF sample_opened_reachable, of 3]) (simp_all add: fs_defs sample_opened_def idle_def)
  then have "fs_reachable sample_files ?w2"
    by (rule run_exec [where r = 2 and q = ?c]) (simp_all add: fs_defs sample_opened_def)
  then have "fs_reachable sample_files ?w3"
    by (rule run_open [of _ _ "''b''" 8]) (simp add: fs_defs)
  then have "fs_reachable sample_files ?w4"
    by (rule run_exec [where r = 4 and q = ?o and fd = 3]) (simp_all add: fs_defs open_outcome_def sample_files_def)
  then have "fs_reachable sample_files ?w5"
    by (rule run_finish [where r = 4 and q = "?o\<lparr>fresult := Some 3\<rparr>" and k = 3]) (auto simp: fs_defs sample_opened_def)
  then have "fs_reachable sample_files ?w6"
    by (rule run_finish [where r = 2 and q = "?c\<lparr>fresult := Some 0\<rparr>" and k = 0]) (auto simp: fs_defs sample_opened_def)
  then show ?thesis by (intro exI [of _ ?w6]) simp
qed

text \<open>Without waiting, two calls of \<^verbatim>\<open>close\<close> make two requests, and the second callback uses the freed state.\<close>

lemma double_close_faults:
  "\<exists>w1 w2 w3. close_file_async sample_opened 3 = Inr w1 \<and> close_file_async w1 3 = Inr w2 \<and>
     fs_finish w2 2 (the (reqs w2 2)) 0 = Inr w3 \<and> fs_finish w3 3 (the (reqs w3 3)) 0 = Inl UseAfterFree"
  by (simp add: fs_defs sample_opened_def)



end
