(* ===== verification/Signals.thy ===== *)
theory Signals
  imports Prelude
begin

text \<open>
  Signals: \<^verbatim>\<open>include/signal_context.h\<close> and \<^verbatim>\<open>src/signal_context.cc\<close>, and their users
  \<^verbatim>\<open>Server::run\<close> and \<^verbatim>\<open>Server::~Server\<close> of \<^verbatim>\<open>src/server.cc\<close>. An entry counts the servers that
  wait for a signal; the signal's handle is part of the entry and is watched while the count is
  positive, until the signal arrives.

  Of libuv's signal handle the model has whether it was initialised, is started and is closing;
  a handle that is closing stands in the loop's list of closing handles until the closing phase,
  which asserts that it is still closing.
\<close>

section \<open>State\<close>

record sig_handle =
  h_init :: bool
  h_started :: bool
  h_closing :: bool

record sig_entry =
  sig_handle :: sig_handle
  refcount :: int
  sig_active :: bool

record signal_context =
  signals :: "int \<Rightarrow> sig_entry option"
  sig_closing :: "int list"
  stop_flag :: bool

definition SigEntry_new :: sig_entry where
  "SigEntry_new = \<lparr>sig_handle = \<lparr>h_init = False, h_started = False, h_closing = False\<rparr>, refcount = 0, sig_active = False\<rparr>"

definition SignalContext_new :: signal_context where
  "SignalContext_new = \<lparr>signals = Map.empty, sig_closing = [], stop_flag = False\<rparr>"

section \<open>libuv\<close>

definition uv_signal_init :: "sig_handle \<Rightarrow> sig_handle" where
  "uv_signal_init h = \<lparr>h_init = True, h_started = False, h_closing = False\<rparr>"

definition uv_signal_start :: "sig_handle \<Rightarrow> sig_handle res" where
  "uv_signal_start h = (if h_closing h then Inl AssertFail else Inr (h\<lparr>h_started := True\<rparr>))"

definition uv_signal_stop :: "sig_handle \<Rightarrow> sig_handle res" where
  "uv_signal_stop h = (if h_closing h then Inl AssertFail else Inr (h\<lparr>h_started := False\<rparr>))"

definition uv_close_signal :: "sig_handle \<Rightarrow> sig_handle res" where
  "uv_close_signal h = (if h_closing h then Inl AssertFail else Inr (h\<lparr>h_closing := True, h_started := False\<rparr>))"

fun closing_phase :: "(int \<Rightarrow> sig_entry option) \<Rightarrow> int list \<Rightarrow> (int \<Rightarrow> sig_entry option) res" where
  "closing_phase S [] = Inr S"
| "closing_phase S (n # ns) =
     (case S n of
        None \<Rightarrow> Inl UseAfterFree
      | Some e \<Rightarrow>
          if \<not> h_closing (sig_handle e) then Inl AssertFail
          else closing_phase (S(n \<mapsto> e\<lparr>sig_handle := (sig_handle e)\<lparr>h_init := False, h_closing := False\<rparr>\<rparr>)) ns)"

section \<open>The signal context\<close>

definition stop_and_close :: "signal_context \<Rightarrow> int \<Rightarrow> sig_entry \<Rightarrow> signal_context res" where
  "stop_and_close c signum e =
     res_bind (uv_signal_stop (sig_handle e)) (\<lambda>h1.
     res_bind (uv_close_signal h1) (\<lambda>h2.
       Inr (c\<lparr>signals := (signals c)(signum \<mapsto> e\<lparr>sig_active := False, sig_handle := h2\<rparr>), sig_closing := signum # sig_closing c\<rparr>)))"

definition on_signal_cb :: "signal_context \<Rightarrow> int \<Rightarrow> signal_context res" where
  "on_signal_cb c signum =
     (case signals c signum of
        None \<Rightarrow> Inl UseAfterFree
      | Some e \<Rightarrow> res_bind (stop_and_close c signum e) (\<lambda>c'. Inr (c'\<lparr>stop_flag := True\<rparr>)))"

definition register_daemon :: "signal_context \<Rightarrow> int \<Rightarrow> signal_context res" where
  "register_daemon c signum =
     (let e = (case signals c signum of None \<Rightarrow> SigEntry_new | Some e \<Rightarrow> e);
          e1 = e\<lparr>refcount := refcount e + 1\<rparr>
      in if refcount e1 = 1 then
           res_bind (uv_signal_start (uv_signal_init (sig_handle e1))) (\<lambda>h.
             Inr (c\<lparr>signals := (signals c)(signum \<mapsto> e1\<lparr>sig_handle := h, sig_active := True\<rparr>)\<rparr>))
         else Inr (c\<lparr>signals := (signals c)(signum \<mapsto> e1)\<rparr>))"

definition deregister_daemon :: "signal_context \<Rightarrow> int \<Rightarrow> signal_context res" where
  "deregister_daemon c signum =
     (case signals c signum of
        None \<Rightarrow> Inr c
      | Some e \<Rightarrow>
          let e1 = e\<lparr>refcount := refcount e - 1\<rparr>
          in if refcount e1 = 0 \<and> sig_active e1 then stop_and_close c signum e1
             else Inr (c\<lparr>signals := (signals c)(signum \<mapsto> e1)\<rparr>))"

text \<open>The loop runs its closing phase.\<close>

definition run_closing :: "signal_context \<Rightarrow> signal_context res" where
  "run_closing c = res_bind (closing_phase (signals c) (sig_closing c)) (\<lambda>S. Inr (c\<lparr>signals := S, sig_closing := []\<rparr>))"

section \<open>The server\<close>

definition SIGINT :: int where "SIGINT = 2"

text \<open>
  \<^verbatim>\<open>Server::run\<close>: the results of the four calls that set up the listening socket are arguments. A
  failure of \<^verbatim>\<open>uv_listen\<close> is printed, and 0 is returned all the same.
\<close>

definition Server_run :: "signal_context \<Rightarrow> int \<Rightarrow> int \<Rightarrow> int \<Rightarrow> int \<Rightarrow> (int \<times> signal_context) res" where
  "Server_run c ip4_rc init_rc bind_rc listen_rc =
     res_bind (register_daemon c SIGINT) (\<lambda>c1.
       if ip4_rc < 0 then Inr (-1, c1)
       else if init_rc < 0 then Inr (-1, c1)
       else if bind_rc < 0 then Inr (-1, c1)
       else Inr (0, c1))"

text \<open>The destructor, after the check of the pools for leaks.\<close>

definition Server_destroy :: "signal_context \<Rightarrow> signal_context res" where
  "Server_destroy c = deregister_daemon c SIGINT"

section \<open>Sequences of events\<close>

datatype sig_event = Register | Deregister | Signal | ClosingPhase

definition sig_step :: "int \<Rightarrow> signal_context \<Rightarrow> sig_event \<Rightarrow> signal_context res" where
  "sig_step n c ev =
     (case ev of
        Register \<Rightarrow> register_daemon c n
      | Deregister \<Rightarrow> deregister_daemon c n
      | Signal \<Rightarrow>
          (case signals c n of
             None \<Rightarrow> Inr c
           | Some e \<Rightarrow> if h_started (sig_handle e) then on_signal_cb c n else Inr c)
      | ClosingPhase \<Rightarrow> run_closing c)"

fun sig_run :: "int \<Rightarrow> signal_context \<Rightarrow> sig_event list \<Rightarrow> signal_context res" where
  "sig_run n c [] = Inr c"
| "sig_run n c (ev # evs) = res_bind (sig_step n c ev) (\<lambda>c'. sig_run n c' evs)"

text \<open>
  What is meant: a number of users, whether the signal is watched, and whether the handle is still
  being closed. A user may only leave that has come, and the first user may only come when the
  handle is free again.
\<close>

type_synonym sig_spec = "nat \<times> bool \<times> bool"

fun spec_step :: "sig_spec \<Rightarrow> sig_event \<Rightarrow> sig_spec option" where
  "spec_step (users, watched, closing) Register =
     (if users = 0 then if closing then None else Some (1, True, False) else Some (Suc users, watched, closing))"
| "spec_step (users, watched, closing) Deregister =
     (if users = 0 then None
      else if users = 1 \<and> watched then Some (0, False, True)
      else Some (users - 1, watched, closing))"
| "spec_step (users, watched, closing) Signal = Some (users, False, closing \<or> watched)"
| "spec_step (users, watched, closing) ClosingPhase = Some (users, watched, False)"

fun spec_run :: "sig_spec \<Rightarrow> sig_event list \<Rightarrow> sig_spec option" where
  "spec_run s [] = Some s"
| "spec_run s (ev # evs) = (case spec_step s ev of None \<Rightarrow> None | Some s' \<Rightarrow> spec_run s' evs)"

definition sig_abs :: "int \<Rightarrow> signal_context \<Rightarrow> sig_spec \<Rightarrow> bool" where
  "sig_abs n c s \<longleftrightarrow>
     (case s of (users, watched, closing) \<Rightarrow>
        (watched \<longrightarrow> users \<noteq> 0 \<and> \<not> closing) \<and>
        (case signals c n of
           None \<Rightarrow> users = 0 \<and> \<not> watched \<and> \<not> closing \<and> sig_closing c = []
         | Some e \<Rightarrow>
             refcount e = int users \<and> sig_active e = watched \<and> h_started (sig_handle e) = watched \<and>
             h_closing (sig_handle e) = closing \<and> sig_closing c = (if closing then [n] else [])))"

lemmas signal_defs = sig_step_def register_daemon_def deregister_daemon_def run_closing_def on_signal_cb_def stop_and_close_def
  uv_signal_init_def uv_signal_start_def uv_signal_stop_def uv_close_signal_def SigEntry_new_def SignalContext_new_def Let_def

lemma sig_step_refines:
  assumes "sig_abs n c s" "spec_step s ev = Some s'"
  shows "\<exists>c'. sig_step n c ev = Inr c' \<and> sig_abs n c' s'"
proof -
  obtain users watched closing where s: "s = (users, watched, closing)" by (cases s)
  show ?thesis
  proof (cases "signals c n")
    case None
    then show ?thesis using assms s
      by (cases ev)
         (auto simp: sig_abs_def signal_defs split: if_splits)
  next
    case (Some e)
    then show ?thesis using assms s
      by (cases ev)
         (auto simp: sig_abs_def signal_defs split: if_splits)
  qed
qed

lemma sig_run_refines:
  "sig_abs n c s \<Longrightarrow> spec_run s evs = Some s' \<Longrightarrow> \<exists>c'. sig_run n c evs = Inr c' \<and> sig_abs n c' s'"
proof (induction evs arbitrary: c s)
  case (Cons ev evs)
  obtain s1 where s1: "spec_step s ev = Some s1" "spec_run s1 evs = Some s'" using Cons.prems(2) by (auto split: option.splits)
  obtain c1 where c1: "sig_step n c ev = Inr c1" "sig_abs n c1 s1" using sig_step_refines [OF Cons.prems(1) s1(1)] by blast
  then show ?case using Cons.IH [OF c1(2) s1(2)] by simp
qed simp

text \<open>
  C40. For users that leave only after they have come, and that come only when the handle has been
  closed, the signal context runs without a failed assertion, and the signal is watched exactly
  from the arrival of the first user until the last one has left or the signal has come.
\<close>

theorem signal_context_refines:
  assumes "spec_run (0, False, False) evs = Some (users, watched, closing)"
  shows "\<exists>c. sig_run n SignalContext_new evs = Inr c \<and>
    (case signals c n of None \<Rightarrow> users = 0 \<and> \<not> watched
     | Some e \<Rightarrow> refcount e = int users \<and> sig_active e = watched \<and> h_started (sig_handle e) = watched)"
proof -
  have "sig_abs n SignalContext_new (0, False, False)" by (simp add: sig_abs_def SignalContext_new_def)
  from sig_run_refines [OF this assms] obtain c where "sig_run n SignalContext_new evs = Inr c" "sig_abs n c (users, watched, closing)" by blast
  then show ?thesis by (auto simp: sig_abs_def split: option.splits)
qed

theorem signal_context_refines_witness:
  "spec_run (0, False, False) [Register, Register, Deregister, Signal, ClosingPhase, Deregister] = Some (0, False, False) \<and>
   (\<exists>c. sig_run SIGINT SignalContext_new [Register, Register, Deregister, Signal, ClosingPhase, Deregister] = Inr c \<and>
      (case signals c SIGINT of None \<Rightarrow> True | Some e \<Rightarrow> refcount e = 0 \<and> \<not> sig_active e))"
proof -
  have s: "spec_run (0, False, False) [Register, Register, Deregister, Signal, ClosingPhase, Deregister] = Some (0, False, False)" by simp
  from signal_context_refines [OF s, of SIGINT] show ?thesis using s by (auto split: option.splits)
qed

text \<open>
  The destructor of a server deregisters whether or not the server was run. After a server that
  never ran is destroyed, the count is one too low, and the next server does not watch the signal.
\<close>

lemma destroyed_without_run:
  "\<exists>c1 c2 c3 c4 c5 rc rc' e. Server_run SignalContext_new 0 0 0 0 = Inr (rc, c1) \<and> Server_destroy c1 = Inr c2 \<and> run_closing c2 = Inr c3 \<and>
     Server_destroy c3 = Inr c4 \<and> Server_run c4 0 0 0 0 = Inr (rc', c5) \<and> rc' = 0 \<and>
     signals c5 SIGINT = Some e \<and> \<not> sig_active e \<and> \<not> h_started (sig_handle e)"
  by (simp add: Server_run_def Server_destroy_def signal_defs)

text \<open>A server that is run before the handle of the last one has been closed breaks an assertion of libuv.\<close>

lemma register_while_closing:
  "sig_run SIGINT SignalContext_new [Register, Deregister, Register, ClosingPhase] = Inl AssertFail"
  by (simp add: signal_defs)

end
