(* ===== verification/Spec2Isabelle.thy ===== *)
theory Spec2Isabelle
  imports Prelude Mem_Pool Spsc_Queue Work_Queue Client_State Http_Parser Sha1 Base64 Ws_Frame Uv_Stream Http_Message Path_Util
    Ws_Upgrade Server Uv_Heap Uv_Timer Timers Workers Worker_Jobs Managers File_System Signals
begin

text \<open>
  Verification library of capyJs, a JavaScript runtime with an HTTP and WebSocket server, written
  in C++ on libuv, QuickJS and picohttpparser. Paths are relative to the repository's root.

  \<^bold>\<open>The program.\<close> One main thread runs libuv's event loop. The server (\<^verbatim>\<open>src/server.cc\<close>) accepts
  connections, each a \<^verbatim>\<open>ClientState\<close> from a fixed pool, collects what arrives in pooled read
  buffers, parses requests with picohttpparser, and calls the JavaScript callback of the route with
  a request and a response object; the response is written with \<^verbatim>\<open>uv_write\<close>. A response may
  outlive its connection, so both hold a counted guard that tells whether the connection is alive.
  A connection may be upgraded to WebSocket. Beside the server there are timers, files, signals,
  and pools of worker threads, which take jobs from a blocking queue and return results through a
  lock-free ring and an \<^verbatim>\<open>uv_async_t\<close> that wakes the main thread.

  \<^bold>\<open>How code is modelled.\<close> A struct is a record, an enum or a tagged union a datatype, machine
  integers are words where their width matters. A function of C++ is a HOL function that returns the
  new state in \<open>res\<close>, which is a value or a \<open>fault\<close>: a null pointer, an access out of bounds, a use
  after free, an uninitialised value, a failed assertion, signed overflow, a failed allocation.
  A theorem that an operation returns \<open>Inr\<close> therefore says that none of these happens. Pointers are
  addresses or slot numbers, \<open>None\<close> is the null pointer, a freed object is missing from its map.
  The flag \<open>nd\<close> says whether assertions are compiled out (\<^verbatim>\<open>NDEBUG\<close>). Loops are structural recursion
  where the data bounds them; where they are not, a counter of rounds is an argument and running
  out of it is a fault or \<open>None\<close>, and it is proved that the counter chosen is enough
  (\<open>drain_loop\<close>: the size of the ring; \<open>collect_due\<close>: the number of timers in the heap;
  \<open>heap_up\<close>, \<open>heap_down\<close>: the number of nodes).

  \<^bold>\<open>The theories.\<close>

  \<^item> \<open>Prelude\<close>: faults, the result type, fixed-width integers, generic lemmas.

  \<^item> \<open>Mem_Pool\<close> (\<^verbatim>\<open>include/mem_pool.h\<close>): the object pool with its intrusive free list. Locale
    \<open>object_pool\<close>, interpreted as \<open>mp\<close>. Safety of every disciplined use, refinement to a stack of
    free slots, behaviour on a double release.

  \<^item> \<open>Spsc_Queue\<close> (\<^verbatim>\<open>include/spsc_queue.h\<close>): the ring buffer. Locale \<open>bounded_fifo\<close>, interpreted as
    \<open>spsc\<close>. Refinement to a bounded FIFO; safety under every interleaving of the atomic accesses.

  \<^item> \<open>Work_Queue\<close> (\<^verbatim>\<open>include/work_queue.h\<close>): the blocking queue. Under every interleaving nothing is
    lost and no wake-up is missed; draining terminates and is complete.

  \<^item> \<open>Client_State\<close> (\<^verbatim>\<open>include/client_state.h\<close>, \<^verbatim>\<open>include/client_op.h\<close>, \<^verbatim>\<open>include/server_pool.h\<close>,
    \<^verbatim>\<open>include/conn_guard.h\<close>): connections, the chain of read buffers, guards. What arrives in
    pieces is reassembled.

  \<^item> \<open>Uv_Stream\<close> (\<^verbatim>\<open>deps/libuv/src/unix/stream.c\<close>): reading, writing, shutting down and closing a
    stream. Bytes are written in order whatever the kernel takes at a time.

  \<^item> \<open>Http_Parser\<close> (\<^verbatim>\<open>deps/picohttpparser/picohttpparser.c\<close>): requests, responses and headers,
    portable and SSE variants. No read past the end, verdicts that are stable under more input
    (locale \<open>incremental_parser\<close>, interpretations \<open>req\<close>, \<open>resp\<close>, \<open>hdrs\<close>), a round trip with a
    printer, equivalence of the variants.

  \<^item> \<open>Http_Message\<close> (\<^verbatim>\<open>src/http_message.cc\<close>), \<open>Path_Util\<close> (\<^verbatim>\<open>src/util.cc\<close>): building of the header block, file
    extensions, content types, reading a file.

  \<^item> \<open>Sha1\<close>, \<open>Base64\<close>, \<open>Ws_Upgrade\<close>, \<open>Ws_Frame\<close> (\<^verbatim>\<open>src/util.cc\<close>, \<^verbatim>\<open>src/ws.cc\<close>, \<^verbatim>\<open>src/server.cc\<close>): the
    accept key (equivalent to FIPS 180-4 and RFC 4648), recognising an upgrade, coding and
    decoding of frames (RFC 6455).

  \<^item> \<open>Server\<close> (\<^verbatim>\<open>src/server.cc\<close>, \<^verbatim>\<open>src/http_message.cc\<close>, \<^verbatim>\<open>src/http_context.cc\<close>, \<^verbatim>\<open>src/builtins/\<close>):
    every callback of the server and every method of the request, response and WebSocket objects, on
    the record \<open>world\<close>.

  \<^item> \<open>Uv_Heap\<close> (\<^verbatim>\<open>deps/libuv/src/heap-inl.h\<close>), \<open>Uv_Timer\<close> (\<^verbatim>\<open>deps/libuv/src/timer.c\<close>): the linked
    binary heap keeps heap order under insertion and removal (locale \<open>heap_order\<close>, interpretation
    \<open>th\<close>), and refines a set; the timers that are due are run in order.

  \<^item> \<open>Timers\<close> (\<^verbatim>\<open>src/builtins/timer.cc\<close>): \<^verbatim>\<open>setTimeout\<close>, \<^verbatim>\<open>setInterval\<close>, \<^verbatim>\<open>clearInterval\<close>. Which callbacks
    a turn of the loop calls; that a timeout fires and is freed; the errors of \<^verbatim>\<open>clearInterval\<close>.

  \<^item> \<open>Workers\<close>, \<open>Worker_Jobs\<close> (\<^verbatim>\<open>src/workers/\<close>), \<open>Managers\<close> (\<^verbatim>\<open>src/fib_engine.cc\<close>, \<^verbatim>\<open>src/js_engine.cc\<close>,
    \<^verbatim>\<open>src/inference_engine.cc\<close> and their classes in \<^verbatim>\<open>src/builtins/\<close>): main thread and worker thread
    interleaved. Locale \<open>job_kind\<close>, interpreted for the three workers (\<open>fib\<close>, \<open>jsw\<close>, \<open>inf\<close>). Results
    are delivered in order and each callback is released once; all accepted jobs are answered
    (a measure decreases with every step); when stopping ends and when it cannot.

  \<^item> \<open>File_System\<close> (\<^verbatim>\<open>src/builtins/fs.cc\<close>): requests overtaking each other in the thread pool; memory
    safety for programs that wait, and what reads deliver.

  \<^item> \<open>Signals\<close> (\<^verbatim>\<open>src/signal_context.cc\<close>, \<^verbatim>\<open>Server::run\<close>): reference counted signal watchers.

  \<^bold>\<open>Interaction.\<close> \<open>Server\<close> uses the pools through \<open>mp\<close>, the streams of \<open>Uv_Stream\<close>, the parser, the
  frames and the accept key; \<open>Workers\<close> uses \<open>Work_Queue\<close> for submissions and \<open>spsc\<close> for results;
  \<open>Timers\<close> runs on \<open>Uv_Timer\<close>, which runs on \<open>Uv_Heap\<close>.

  \<^bold>\<open>Parameters.\<close> What the kernel returns for reads, writes and opens, the contents of files, the
  actions of JavaScript callbacks, the script of a JavaScript worker, and llama.cpp are arguments.

  \<^bold>\<open>Not modelled.\<close> QuickJS: values are numbers or already converted arguments, and what a callback
  does with them is an argument; an engine of that size is a development of its own. The other files
  of libuv, of which the sources use address conversion, the thread pool, name resolution and the
  polling of descriptors: they are wrappers of system calls, and their results are arguments.
  The chunked decoder of picohttpparser, which no source calls. The registration of classes and
  functions on the global object, the JavaScript wrapper classes, \<^verbatim>\<open>console.log\<close> and the wiring in
  \<^verbatim>\<open>src/capy_main.cc\<close>: calls of QuickJS without a state of their own. Memory orders of
  atomic accesses: the interleavings are sequentially consistent. Output to the console.
\<close>

end
